theory Spec2Isabelle
  imports Complex_Main "HOL-Library.Sublist"
begin

section \<open>Exceptions and floats\<close>

text \<open>
  Every \<^verbatim>\<open>raise\<close> that can end a run of \<^verbatim>\<open>sanity_checks_main.py\<close> is a value.
  \<open>ExternalError\<close> stands for any exception raised inside a library call (model loading,
  the environment, an explanation routine, a metric).
\<close>

datatype error = ValueError | IndexError | UnboundLocalError | ExternalError

definition bindE :: "error + 'a \<Rightarrow> ('a \<Rightarrow> error + 'b) \<Rightarrow> error + 'b" where
  "bindE m f = (case m of Inl e \<Rightarrow> Inl e | Inr x \<Rightarrow> f x)"

text \<open>
  In the heap below pixels are idealised as reals (\<^verbatim>\<open>normalise_image\<close> is given again over
  float64 values, with overflow, infinities and \<^verbatim>\<open>nan\<close>, in a section of its own). A score returned by a correlation routine is a real or
  \<^verbatim>\<open>nan\<close> (the routines return \<^verbatim>\<open>nan\<close> on constant input). Python's
  \<^verbatim>\<open>max(a, b)\<close> keeps \<open>a\<close> unless \<^verbatim>\<open>b > a\<close>, and every comparison with
  \<^verbatim>\<open>nan\<close> is false.
\<close>

datatype pyfloat = Num real | NaN

fun py_gt :: "pyfloat \<Rightarrow> pyfloat \<Rightarrow> bool" where
  "py_gt (Num x) (Num y) = (x > y)"
| "py_gt _ _ = False"

definition py_max :: "pyfloat \<Rightarrow> pyfloat \<Rightarrow> pyfloat" where
  "py_max a b = (if py_gt b a then b else a)"

section \<open>numpy arrays\<close>

text \<open>
  An array object is a reference to a buffer together with a shape; a view (as returned by
  \<^verbatim>\<open>np.squeeze\<close>) shares the buffer of its base. The heap is the list of all buffers
  allocated so far; an operation that returns a new array appends its buffer.
\<close>

type_synonym addr = nat
type_synonym heap = "real list list"

record ndarray =
  buf :: addr
  shape :: "nat list"

definition vals :: "heap \<Rightarrow> ndarray \<Rightarrow> real list" where
  "vals h a = h ! buf a"

definition alloc :: "heap \<Rightarrow> real list \<Rightarrow> nat list \<Rightarrow> heap \<times> ndarray" where
  "alloc h xs sh = (h @ [xs], \<lparr>buf = length h, shape = sh\<rparr>)"

text \<open>\<^verbatim>\<open>a.min()\<close>, \<^verbatim>\<open>a.max()\<close>: ValueError on a zero-size array.\<close>

definition np_min :: "heap \<Rightarrow> ndarray \<Rightarrow> error + real" where
  "np_min h a = (if vals h a = [] then Inl ValueError else Inr (Min (set (vals h a))))"

definition np_max :: "heap \<Rightarrow> ndarray \<Rightarrow> error + real" where
  "np_max h a = (if vals h a = [] then Inl ValueError else Inr (Max (set (vals h a))))"

text \<open>\<^verbatim>\<open>a - c\<close>, \<^verbatim>\<open>a / c\<close>, \<^verbatim>\<open>c - a\<close> with a scalar \<open>c\<close>: a new array of the same shape.\<close>

definition np_sub_scalar :: "heap \<Rightarrow> ndarray \<Rightarrow> real \<Rightarrow> heap \<times> ndarray" where
  "np_sub_scalar h a c = alloc h (map (\<lambda>x. x - c) (vals h a)) (shape a)"

definition np_div_scalar :: "heap \<Rightarrow> ndarray \<Rightarrow> real \<Rightarrow> heap \<times> ndarray" where
  "np_div_scalar h a c = alloc h (map (\<lambda>x. x / c) (vals h a)) (shape a)"

definition np_rsub_scalar :: "heap \<Rightarrow> real \<Rightarrow> ndarray \<Rightarrow> heap \<times> ndarray" where
  "np_rsub_scalar h c a = alloc h (map (\<lambda>x. c - x) (vals h a)) (shape a)"

text \<open>\<^verbatim>\<open>a.flatten()\<close>: a one-dimensional copy.\<close>

definition flatten :: "heap \<Rightarrow> ndarray \<Rightarrow> heap \<times> ndarray" where
  "flatten h a = alloc h (vals h a) [length (vals h a)]"

text \<open>\<^verbatim>\<open>np.squeeze(a)\<close>: a view without the axes of length one.\<close>

definition squeeze :: "ndarray \<Rightarrow> ndarray" where
  "squeeze a = a\<lparr>shape := filter (\<lambda>n. n \<noteq> 1) (shape a)\<rparr>"

text \<open>\<^verbatim>\<open>np.expand_dims(a, axis=0)\<close>: a view with a leading axis of length one.\<close>

definition expand_dims0 :: "ndarray \<Rightarrow> ndarray" where
  "expand_dims0 a = a\<lparr>shape := 1 # shape a\<rparr>"

section \<open>normalise_image (lines 80-92)\<close>

text \<open>
  \<^verbatim>\<open>np.asarray\<close> returns an array argument as it is, so the \<^verbatim>\<open>try\<close> block neither
  fails nor copies. Both arithmetic statements rebind the local name to a new array.
\<close>

definition normalise_image :: "heap \<Rightarrow> ndarray \<Rightarrow> error + (heap \<times> ndarray)" where
  "normalise_image h image0 =
     bindE (np_min h image0) (\<lambda>mn.
       case np_sub_scalar h image0 mn of (h1, image1) \<Rightarrow>
         bindE (np_max h1 image1) (\<lambda>mx.
           if mx \<noteq> 0
           then bindE (np_max h1 image1) (\<lambda>mx'. Inr (np_div_scalar h1 image1 mx'))
           else Inr (h1, image1)))"

section \<open>calc_sim (lines 135-164)\<close>

text \<open>
  The library metrics are parameters: \<^verbatim>\<open>scipy.stats.spearmanr\<close> (its correlation, with
  \<^verbatim>\<open>nan_policy='omit'\<close>), \<^verbatim>\<open>skimage.metrics.structural_similarity\<close> (given the
  \<^verbatim>\<open>data_range\<close>), \<^verbatim>\<open>skimage.feature.hog\<close> (given \<^verbatim>\<open>pixels_per_cell\<close>, the shape and
  the pixels) and \<^verbatim>\<open>scipy.stats.pearsonr\<close> (its correlation). They read their arguments
  and may raise.
\<close>

record metrics =
  spearmanr :: "real list \<Rightarrow> real list \<Rightarrow> error + pyfloat"
  ssim :: "real \<Rightarrow> real list \<Rightarrow> real list \<Rightarrow> error + pyfloat"
  hog :: "nat \<times> nat \<Rightarrow> nat list \<Rightarrow> real list \<Rightarrow> error + real list"
  pearsonr :: "real list \<Rightarrow> real list \<Rightarrow> error + pyfloat"

text \<open>\<^verbatim>\<open>hog(a, **kwargs)\<close> returns the feature vector as a new one-dimensional array.\<close>

definition hog_call :: "metrics \<Rightarrow> heap \<Rightarrow> ndarray \<Rightarrow> error + (heap \<times> ndarray)" where
  "hog_call mt h a =
     bindE (hog mt (3, 3) (shape a) (vals h a)) (\<lambda>fv. Inr (alloc h fv [length fv]))"

type_synonym scores = "pyfloat list \<times> pyfloat list \<times> pyfloat list"

text \<open>
  The three list arguments are the caller's lists, extended in place; the result holds them
  in the order \<^verbatim>\<open>(_pearson_list, _ssim_list, _spearman_list)\<close>.
\<close>

definition calc_sim ::
  "metrics \<Rightarrow> heap \<Rightarrow> ndarray \<Rightarrow> ndarray \<Rightarrow> scores \<Rightarrow> error + (heap \<times> scores)" where
  "calc_sim mt h learned_relevance0 random_relevance0 acc =
     (case acc of (pearson_list, ssim_list, spearman_list) \<Rightarrow>
     bindE (normalise_image h learned_relevance0) (\<lambda>(h1, learned_relevance).
     bindE (normalise_image h1 random_relevance0) (\<lambda>(h2, random_relevance).
     case np_rsub_scalar h2 1 random_relevance of (h3, neg_random_relevance) \<Rightarrow>
     case flatten h3 random_relevance of (h4, f1) \<Rightarrow>
     case flatten h4 learned_relevance of (h5, f2) \<Rightarrow>
     bindE (spearmanr mt (vals h5 f1) (vals h5 f2)) (\<lambda>spearman0.
     case flatten h5 neg_random_relevance of (h6, f3) \<Rightarrow>
     case flatten h6 learned_relevance of (h7, f4) \<Rightarrow>
     bindE (spearmanr mt (vals h7 f3) (vals h7 f4)) (\<lambda>test1.
     let spearman = py_max spearman0 test1 in
     case flatten h7 random_relevance of (h8, f5) \<Rightarrow>
     case flatten h8 learned_relevance of (h9, f6) \<Rightarrow>
     bindE (ssim mt 1 (vals h9 f5) (vals h9 f6)) (\<lambda>ssim_val0.
     case flatten h9 neg_random_relevance of (h10, f7) \<Rightarrow>
     case flatten h10 learned_relevance of (h11, f8) \<Rightarrow>
     bindE (ssim mt 1 (vals h11 f7) (vals h11 f8)) (\<lambda>test2.
     let ssim_val = py_max ssim_val0 test2 in
     bindE (hog_call mt h11 random_relevance) (\<lambda>(h12, random_hog).
     bindE (hog_call mt h12 learned_relevance) (\<lambda>(h13, learned_hog).
     bindE (pearsonr mt (vals h13 random_hog) (vals h13 learned_hog)) (\<lambda>pearson0.
     bindE (hog_call mt h13 neg_random_relevance) (\<lambda>(h14, neg_random_hog).
     bindE (pearsonr mt (vals h14 neg_random_hog) (vals h14 learned_hog)) (\<lambda>test3.
     let pearson = py_max pearson0 test3 in
     Inr (h14, pearson_list @ [pearson], ssim_list @ [ssim_val],
          spearman_list @ [spearman])))))))))))))"

section \<open>normalise_image on float64 values\<close>

text \<open>
  The arrays \<^verbatim>\<open>calc_sim\<close> hands to \<^verbatim>\<open>normalise_image\<close> are arrays of dtype float64. Here
  the pixels are float64 values: finite numbers, the two infinities and \<^verbatim>\<open>nan\<close>. An
  arithmetic operation on finite operands rounds the exact result and overflows to an
  infinity when the rounded result is beyond the largest finite number. The rounding
  function and the largest finite number are the two parameters of the format. The sign of
  zero is not modelled (\<^verbatim>\<open>-0.0 == 0.0\<close> in every comparison the function makes). Arrays of
  an integer dtype, on which the subtraction wraps around, are not modelled.
\<close>

datatype f64 = Fin real | PosInf | NegInf | NotANumber

record format =
  rnd :: "real \<Rightarrow> real"
  fmax :: real

text \<open>The float64 value of an exact result.\<close>

definition fl :: "format \<Rightarrow> real \<Rightarrow> f64" where
  "fl fm y = (if fmax fm < rnd fm y then PosInf
              else if rnd fm y < - fmax fm then NegInf
              else Fin (rnd fm y))"

text \<open>Subtraction and division (IEEE 754): \<open>inf - inf\<close>, \<open>0 / 0\<close> and \<open>inf / inf\<close> are \<^verbatim>\<open>nan\<close>.\<close>

fun fsub :: "format \<Rightarrow> f64 \<Rightarrow> f64 \<Rightarrow> f64" where
  "fsub fm NotANumber b = NotANumber"
| "fsub fm a NotANumber = NotANumber"
| "fsub fm (Fin a) (Fin b) = fl fm (a - b)"
| "fsub fm (Fin a) PosInf = NegInf"
| "fsub fm (Fin a) NegInf = PosInf"
| "fsub fm PosInf PosInf = NotANumber"
| "fsub fm PosInf b = PosInf"
| "fsub fm NegInf NegInf = NotANumber"
| "fsub fm NegInf b = NegInf"

fun fdiv :: "format \<Rightarrow> f64 \<Rightarrow> f64 \<Rightarrow> f64" where
  "fdiv fm NotANumber b = NotANumber"
| "fdiv fm a NotANumber = NotANumber"
| "fdiv fm (Fin a) (Fin b) =
     (if b = 0 then (if a = 0 then NotANumber else if 0 < a then PosInf else NegInf)
      else fl fm (a / b))"
| "fdiv fm (Fin a) b = Fin 0"
| "fdiv fm PosInf (Fin b) = (if 0 \<le> b then PosInf else NegInf)"
| "fdiv fm NegInf (Fin b) = (if 0 \<le> b then NegInf else PosInf)"
| "fdiv fm a b = NotANumber"

text \<open>\<^verbatim>\<open>a < b\<close>: false when an operand is \<^verbatim>\<open>nan\<close>.\<close>

fun fless :: "f64 \<Rightarrow> f64 \<Rightarrow> bool" where
  "fless (Fin a) (Fin b) = (a < b)"
| "fless (Fin a) PosInf = True"
| "fless NegInf (Fin b) = True"
| "fless NegInf PosInf = True"
| "fless a b = False"

type_synonym heap64 = "f64 list list"

definition vals64 :: "heap64 \<Rightarrow> ndarray \<Rightarrow> f64 list" where
  "vals64 h a = h ! buf a"

definition alloc64 :: "heap64 \<Rightarrow> f64 list \<Rightarrow> nat list \<Rightarrow> heap64 \<times> ndarray" where
  "alloc64 h xs sh = (h @ [xs], \<lparr>buf = length h, shape = sh\<rparr>)"

text \<open>
  \<^verbatim>\<open>a.min()\<close>, \<^verbatim>\<open>a.max()\<close>: ValueError on a zero-size array, \<^verbatim>\<open>nan\<close> when a pixel is
  \<^verbatim>\<open>nan\<close>.
\<close>

definition np_min64 :: "heap64 \<Rightarrow> ndarray \<Rightarrow> error + f64" where
  "np_min64 h a =
     (case vals64 h a of
        [] \<Rightarrow> Inl ValueError
      | v # vs \<Rightarrow>
          if NotANumber \<in> set (v # vs) then Inr NotANumber
          else Inr (fold (\<lambda>y m. if fless y m then y else m) vs v))"

definition np_max64 :: "heap64 \<Rightarrow> ndarray \<Rightarrow> error + f64" where
  "np_max64 h a =
     (case vals64 h a of
        [] \<Rightarrow> Inl ValueError
      | v # vs \<Rightarrow>
          if NotANumber \<in> set (v # vs) then Inr NotANumber
          else Inr (fold (\<lambda>y m. if fless m y then y else m) vs v))"

definition np_sub_scalar64 :: "format \<Rightarrow> heap64 \<Rightarrow> ndarray \<Rightarrow> f64 \<Rightarrow> heap64 \<times> ndarray" where
  "np_sub_scalar64 fm h a c = alloc64 h (map (\<lambda>v. fsub fm v c) (vals64 h a)) (shape a)"

definition np_div_scalar64 :: "format \<Rightarrow> heap64 \<Rightarrow> ndarray \<Rightarrow> f64 \<Rightarrow> heap64 \<times> ndarray" where
  "np_div_scalar64 fm h a c = alloc64 h (map (\<lambda>v. fdiv fm v c) (vals64 h a)) (shape a)"

text \<open>
  Lines 80-92 again, over float64 values. \<^verbatim>\<open>image.max() != 0\<close> is true of an infinity and
  of \<^verbatim>\<open>nan\<close>.
\<close>

definition normalise_image_f64 :: "format \<Rightarrow> heap64 \<Rightarrow> ndarray \<Rightarrow> error + (heap64 \<times> ndarray)" where
  "normalise_image_f64 fm h image0 =
     bindE (np_min64 h image0) (\<lambda>mn.
       case np_sub_scalar64 fm h image0 mn of (h1, image1) \<Rightarrow>
         bindE (np_max64 h1 image1) (\<lambda>mx.
           if mx \<noteq> Fin 0
           then bindE (np_max64 h1 image1) (\<lambda>mx'. Inr (np_div_scalar64 fm h1 image1 mx'))
           else Inr (h1, image1)))"

text \<open>
  The properties of rounding to nearest that are used: rounding is monotone, \<open>0\<close>, \<open>1\<close> and
  the largest finite number are representable, and the difference of two different
  representable numbers does not round to \<open>0\<close> (gradual underflow).
\<close>

definition sound_format :: "format \<Rightarrow> bool" where
  "sound_format fm \<longleftrightarrow>
     mono (rnd fm) \<and> rnd fm 0 = 0 \<and> rnd fm 1 = 1 \<and> 1 \<le> fmax fm \<and>
     rnd fm (fmax fm) = fmax fm \<and>
     (\<forall>a b. rnd fm a = a \<and> rnd fm b = b \<and> rnd fm (a - b) = 0 \<longrightarrow> a = b)"

text \<open>
  float64 without rounding error: the largest finite number is \<open>2\<^sup>1\<^sup>0\<^sup>2\<^sup>4 - 2\<^sup>9\<^sup>7\<^sup>1\<close>. On
  inputs where every intermediate result is representable this is float64 itself.
\<close>

definition exact64 :: format where
  "exact64 = \<lparr>rnd = (\<lambda>y. y), fmax = 2 ^ 1024 - 2 ^ 971\<rparr>"

text \<open>\<^verbatim>\<open>np.argmax\<close> of a one-dimensional array: the first index of the maximum.\<close>

definition np_argmax :: "real list \<Rightarrow> error + int" where
  "np_argmax xs =
     (if xs = [] then Inl ValueError
      else Inr (int (length (takeWhile (\<lambda>x. x \<noteq> Max (set xs)) xs))))"

section \<open>Library collaborators\<close>

text \<open>
  A value handed to or returned by a library call is a shape with its pixels. A layer is
  what \<^verbatim>\<open>layer.get_weights()\<close> returns (kernel, bias); a network is the list of its
  layers, in the order of \<^verbatim>\<open>get_layer(index=i)\<close>.
\<close>

type_synonym tensor = "nat list \<times> real list"
type_synonym layer = "tensor list"
type_synonym network = "layer list"

definition read :: "heap \<Rightarrow> ndarray \<Rightarrow> tensor" where
  "read h a = (shape a, vals h a)"

definition new_array :: "heap \<Rightarrow> tensor \<Rightarrow> heap \<times> ndarray" where
  "new_array h t = alloc h (snd t) (fst t)"

subsection \<open>The pandas table (lines 414-419)\<close>

datatype cell = CInt int | CFloat pyfloat

record data_frame =
  columns :: "(string \<times> cell list) list"
  nrows :: nat

text \<open>\<^verbatim>\<open>pd.DataFrame(columns=names)\<close>: the named columns, no rows.\<close>

definition DataFrame :: "string list \<Rightarrow> data_frame" where
  "DataFrame names = \<lparr>columns = map (\<lambda>n. (n, [])) names, nrows = 0\<rparr>"

text \<open>
  \<^verbatim>\<open>df[name] = values\<close> for a list: a table without rows takes the length of the list
  (the other columns are filled with \<^verbatim>\<open>nan\<close>); otherwise a list of another length is a
  ValueError.
\<close>

definition set_column :: "data_frame \<Rightarrow> string \<Rightarrow> cell list \<Rightarrow> error + data_frame" where
  "set_column df name vs =
     (if nrows df = 0 then
        Inr \<lparr>columns = map (\<lambda>(n, c). if n = name then (n, vs)
                                       else (n, replicate (length vs) (CFloat NaN))) (columns df),
             nrows = length vs\<rparr>
      else if length vs = nrows df then
        Inr (df\<lparr>columns := map (\<lambda>(n, c). if n = name then (n, vs) else (n, c)) (columns df)\<rparr>)
      else Inl ValueError)"

text \<open>Row \<open>i\<close> of a table, in the order of its columns.\<close>

definition row :: "data_frame \<Rightarrow> nat \<Rightarrow> cell list" where
  "row df i = map (\<lambda>(n, c). c ! i) (columns df)"

subsection \<open>Calls to the outside, in program order\<close>

datatype printed = PStr string | PInt int | PBool bool | PReal real

datatype event =
    Makedirs string
  | Seed nat
  | LoadModel string
  | GymMake string
  | Summary nat
  | EnvReset
  | AtariWrapper
  | SetFireReset
  | WrapperReset nat
  | InitLayer nat nat
  | Print "printed list"
  | FixedReset nat int
  | Sample
  | Predict nat tensor
  | Explain string nat tensor "int option"
  | GenerateMasks nat
  | RandUniform "nat list"
  | RandNormal "nat list"
  | WrapperStep int
  | ToCsv string data_frame
  | EnvClose

text \<open>
  The collaborators are parameters. \<open>'w\<close> is everything outside the script (the file
  system, the emulator, the random generators, the TensorFlow session); \<open>'kw\<close> is the keyword
  dictionary of the explanation method. \<open>io\<close> is the effect of a call whose result is not
  used. \<open>explanation\<close> is one of the analyzer methods
  \<^verbatim>\<open>generate_greydanus_explanation\<close>, \<^verbatim>\<open>generate_occlusion_explanation\<close>,
  \<^verbatim>\<open>generate_sarfa_explanation\<close>, chosen by name; \<open>lime_explanation\<close> returns a tuple.
\<close>

record ('w, 'kw) ext =
  isdir :: "string \<Rightarrow> 'w \<Rightarrow> bool"
  io :: "event \<Rightarrow> 'w \<Rightarrow> error + 'w"
  load_model :: "string \<Rightarrow> 'w \<Rightarrow> error + (network \<times> 'w)"
  initializer :: "layer \<Rightarrow> 'w \<Rightarrow> error + (layer \<times> 'w)"
  predict :: "network \<Rightarrow> tensor \<Rightarrow> error + tensor"
  explanation :: "string \<Rightarrow> 'kw \<Rightarrow> network \<Rightarrow> tensor \<Rightarrow> int option \<Rightarrow> 'w \<Rightarrow> error + (tensor \<times> 'w)"
  lime_explanation :: "'kw \<Rightarrow> network \<Rightarrow> tensor \<Rightarrow> int option \<Rightarrow> 'w \<Rightarrow> error + (tensor list \<times> 'w)"
  generate_masks :: "'kw \<Rightarrow> tensor \<Rightarrow> 'w \<Rightarrow> error + (tensor \<times> 'w)"
  rise_saliency :: "'kw \<Rightarrow> network \<Rightarrow> tensor \<Rightarrow> tensor \<Rightarrow> int option \<Rightarrow> 'w \<Rightarrow> error + (tensor \<times> 'w)"
  sample :: "'w \<Rightarrow> error + (int \<times> 'w)"
  wrapper_step :: "int \<Rightarrow> 'w \<Rightarrow> error + (tensor \<times> 'w)"
  random_rand :: "nat list \<Rightarrow> 'w \<Rightarrow> real list \<times> 'w"
  random_normal :: "nat list \<Rightarrow> 'w \<Rightarrow> real list \<times> 'w"
  default_timer :: "'w \<Rightarrow> real"

section \<open>The state of sanity_check\<close>

text \<open>
  An analyzer object: the network it explains (a handle into the store of networks) and
  the two attributes the script assigns at lines 343-352.
\<close>

record analyzer =
  amodel :: nat
  rise_masks :: "ndarray option"
  masks_generated :: bool

text \<open>
  The local variables of \<^verbatim>\<open>sanity_check\<close> with the objects they refer to.
  \<open>networks\<close> holds every network object created; \<open>model\<close> is the handle of the loaded
  one. \<open>analyzers ! 0\<close> is \<^verbatim>\<open>original_analyzer\<close> and \<open>analyzers ! k\<close> is
  \<^verbatim>\<open>analyzer\<close>\<open>k\<close>. \<open>stacked_frames\<close> is \<open>None\<close> until line 411 has bound it.
  \<open>calls\<close> is the sequence of calls made to the outside so far.
\<close>

record 'w state =
  world :: 'w
  heap :: heap
  networks :: "network list"
  calls :: "event list"
  model :: nat
  analyzers :: "analyzer list"
  pearson_list :: "pyfloat list"
  ssim_list :: "pyfloat list"
  spearman_list :: "pyfloat list"
  model_list :: "int list"
  action_list :: "int list"
  stacked_frames :: "ndarray option"

definition emit :: "event \<Rightarrow> 'w state \<Rightarrow> 'w state" where
  "emit e s = s\<lparr>calls := calls s @ [e]\<rparr>"

definition io_call :: "('w, 'kw) ext \<Rightarrow> event \<Rightarrow> 'w state \<Rightarrow> error + 'w state" where
  "io_call x e s = bindE (io x e (world s)) (\<lambda>w. Inr (emit e (s\<lparr>world := w\<rparr>)))"

text \<open>A library call that returns an array: the result is a new array object.\<close>

definition returned :: "tensor \<Rightarrow> 'w state \<Rightarrow> ndarray \<times> 'w state" where
  "returned t s = (case new_array (heap s) t of (h, a) \<Rightarrow> (a, s\<lparr>heap := h\<rparr>))"

section \<open>The randomization cascade (lines 104-133 and 215-251)\<close>

text \<open>
  \<^verbatim>\<open>copy_model\<close>: \<^verbatim>\<open>clone_model\<close> builds a new network object and
  \<^verbatim>\<open>set_weights(model.get_weights())\<close> gives it the weights of the old one.
\<close>

definition copy_model :: "nat \<Rightarrow> 'w state \<Rightarrow> nat \<times> 'w state" where
  "copy_model m s = (length (networks s), s\<lparr>networks := networks s @ [networks s ! m]\<rparr>)"

text \<open>\<^verbatim>\<open>model.get_layer(index=i)\<close>: a reference to the layer, ValueError when there is none.\<close>

definition get_layer :: "nat \<Rightarrow> nat \<Rightarrow> 'w state \<Rightarrow> error + (nat \<times> nat)" where
  "get_layer m i s = (if length (networks s ! m) \<le> i then Inl ValueError else Inr (m, i))"

text \<open>
  \<^verbatim>\<open>init_layer\<close>: the session runs the initializer of the weights of this one layer;
  the layer object is changed in place.
\<close>

definition init_layer :: "('w, 'kw) ext \<Rightarrow> nat \<times> nat \<Rightarrow> 'w state \<Rightarrow> error + 'w state" where
  "init_layer x l s =
     (case l of (m, i) \<Rightarrow>
      bindE (initializer x (networks s ! m ! i) (world s)) (\<lambda>(l', w).
        Inr (emit (InitLayer m i)
          (s\<lparr>world := w, networks := (networks s)[m := (networks s ! m)[i := l']]\<rparr>))))"

text \<open>\<^verbatim>\<open>layer.get_weights()[j]\<close>.\<close>

definition get_weight :: "nat \<times> nat \<Rightarrow> nat \<Rightarrow> 'w state \<Rightarrow> error + tensor" where
  "get_weight l j s =
     (case l of (m, i) \<Rightarrow>
      if length (networks s ! m ! i) \<le> j then Inl IndexError
      else Inr (networks s ! m ! i ! j))"

text \<open>
  \<^verbatim>\<open>(a == b).all()\<close> for two weight arrays of one shape. Arrays of different shapes are
  not compared element by element; the model raises there.
\<close>

definition all_equal :: "tensor \<Rightarrow> tensor \<Rightarrow> error + bool" where
  "all_equal a b = (if fst a = fst b then Inr (snd a = snd b) else Inl ValueError)"

definition weights_equal :: "nat \<Rightarrow> nat \<Rightarrow> nat \<Rightarrow> nat \<Rightarrow> 'w state \<Rightarrow> error + bool" where
  "weights_equal model1 model0 i j s =
     bindE (get_layer model1 i s) (\<lambda>l1.
     bindE (get_weight l1 j s) (\<lambda>w1.
     bindE (get_layer model0 i s) (\<lambda>l0.
     bindE (get_weight l0 j s) (\<lambda>w0.
     all_equal w1 w0))))"

text \<open>The body of the loop of \<^verbatim>\<open>check_models\<close> for one \<open>i\<close>.\<close>

definition check_layer :: "nat \<Rightarrow> nat \<Rightarrow> nat \<Rightarrow> 'w state \<Rightarrow> error + 'w state" where
  "check_layer model1 model0 i s =
     (if i \<noteq> 4 then
        let s1 = emit (Print [PStr ''layer '', PInt (int i)]) s in
        bindE (weights_equal model1 model0 i 0 s1) (\<lambda>b0.
        let s2 = emit (Print [PBool b0]) s1 in
        bindE (weights_equal model1 model0 i 1 s2) (\<lambda>b1.
        Inr (emit (Print [PBool b1]) s2)))
      else Inr s)"

fun check_layers :: "nat \<Rightarrow> nat \<Rightarrow> nat list \<Rightarrow> 'w state \<Rightarrow> error + 'w state" where
  "check_layers model1 model0 [] s = Inr s"
| "check_layers model1 model0 (i # is) s =
     bindE (check_layer model1 model0 i s) (check_layers model1 model0 is)"

definition check_models :: "nat \<Rightarrow> nat \<Rightarrow> 'w state \<Rightarrow> error + 'w state" where
  "check_models model1 model0 s = check_layers model1 model0 [1..<7] s"

text \<open>
  Modelled from the spec: the class \<^verbatim>\<open>explainer\<close> of
  \<^verbatim>\<open>applications.atari.explanation\<close> is not among the sources. A new analyzer holds its
  network and has generated no masks.
\<close>

definition explainer :: "nat \<Rightarrow> analyzer" where
  "explainer m = \<lparr>amodel = m, rise_masks = None, masks_generated = False\<rparr>"

text \<open>
  One link of the chain (lines 219-223, and again at 226-230, 233-237, 240-244, 247-251):
  copy the previous network, re-initialise the layer with the given index, print the
  comparison with the previous network, and make the analyzer of the new network.
\<close>

definition derive :: "('w, 'kw) ext \<Rightarrow> nat \<Rightarrow> nat \<Rightarrow> 'w state \<Rightarrow> error + (nat \<times> 'w state)" where
  "derive x prev idx s =
     (case copy_model prev s of (model_k, s1) \<Rightarrow>
      bindE (get_layer model_k idx s1) (\<lambda>l.
      bindE (init_layer x l s1) (\<lambda>s2.
      bindE (check_models model_k prev s2) (\<lambda>s3.
      Inr (model_k, s3\<lparr>analyzers := analyzers s3 @ [explainer model_k]\<rparr>)))))"

definition cascade :: "('w, 'kw) ext \<Rightarrow> 'w state \<Rightarrow> error + 'w state" where
  "cascade x s =
     (let s0 = s\<lparr>analyzers := [explainer (model s)]\<rparr> in
      bindE (derive x (model s) 6 s0) (\<lambda>(model1, s1).
      bindE (derive x model1 5 s1) (\<lambda>(model2, s2).
      bindE (derive x model2 3 s2) (\<lambda>(model3, s3).
      bindE (derive x model3 2 s3) (\<lambda>(model4, s4).
      bindE (derive x model4 1 s4) (\<lambda>(model5, s5).
      Inr s5))))))"

section \<open>The saliency callables (lines 253-318)\<close>

text \<open>
  Modelled from the spec: \<^verbatim>\<open>generate_rise_prediction\<close> belongs to the class
  \<^verbatim>\<open>explainer\<close>, which is not among the sources. The spec has the sampling masks
  generated once and then reused: an analyzer whose \<^verbatim>\<open>masks_generated\<close> is unset draws
  its masks, keeps them in \<^verbatim>\<open>rise_masks\<close> and sets the flag; then the saliency is
  computed with the masks the analyzer holds.
\<close>

definition generate_rise_prediction ::
  "('w, 'kw) ext \<Rightarrow> 'kw \<Rightarrow> nat \<Rightarrow> tensor \<Rightarrow> int option \<Rightarrow> 'w state \<Rightarrow> error + (tensor \<times> 'w state)" where
  "generate_rise_prediction x kw k inp sel s =
     bindE (if masks_generated (analyzers s ! k) then Inr s
            else bindE (generate_masks x kw inp (world s)) (\<lambda>(t, w).
              case returned t (emit (GenerateMasks k) (s\<lparr>world := w\<rparr>)) of (masks, s1) \<Rightarrow>
              Inr (s1\<lparr>analyzers := (analyzers s1)[k := (analyzers s1 ! k)
                      \<lparr>rise_masks := Some masks, masks_generated := True\<rparr>]\<rparr>))) (\<lambda>s1.
     case rise_masks (analyzers s1 ! k) of
       None \<Rightarrow> Inl ExternalError
     | Some masks \<Rightarrow>
         bindE (rise_saliency x kw (networks s1 ! amodel (analyzers s1 ! k))
                  (read (heap s1) masks) inp sel (world s1)) (\<lambda>(t, w).
         Inr (t, s1\<lparr>world := w\<rparr>)))"

text \<open>
  \<open>saliency_fn x approach kw k a sel\<close> is the call \<^verbatim>\<open>og_saliency_fn(a, ...)\<close> for
  \<open>k = 0\<close> and \<^verbatim>\<open>saliency_fn_\<close>\<open>k\<close>\<^verbatim>\<open>(a, ...)\<close> for \<open>k = 1..5\<close>; \<open>sel\<close> is the keyword
  \<^verbatim>\<open>neuron_selection\<close> when it is given. With an approach that is none of the five, the
  names were never bound. The callee reads the pixels of its argument and returns a new
  array.
\<close>

definition saliency_fn ::
  "('w, 'kw) ext \<Rightarrow> string \<Rightarrow> 'kw \<Rightarrow> nat \<Rightarrow> ndarray \<Rightarrow> int option \<Rightarrow> 'w state \<Rightarrow> error + (ndarray \<times> 'w state)" where
  "saliency_fn x approach kw k a sel s =
     (let inp = read (heap s) a;
          net = networks s ! amodel (analyzers s ! k);
          s0 = emit (Explain approach k inp sel) s in
      bindE
        (if approach = ''noise'' then
           bindE (explanation x ''generate_greydanus_explanation'' kw net inp sel (world s0))
             (\<lambda>(t, w). Inr (t, s0\<lparr>world := w\<rparr>))
         else if approach = ''occl'' then
           bindE (explanation x ''generate_occlusion_explanation'' kw net inp sel (world s0))
             (\<lambda>(t, w). Inr (t, s0\<lparr>world := w\<rparr>))
         else if approach = ''rise'' then
           generate_rise_prediction x kw k inp sel s0
         else if approach = ''lime'' then
           bindE (lime_explanation x kw net inp sel (world s0)) (\<lambda>(ts, w).
             if length ts \<le> 2 then Inl IndexError else Inr (ts ! 2, s0\<lparr>world := w\<rparr>))
         else if approach = ''sarfa'' then
           bindE (explanation x ''generate_sarfa_explanation'' kw net inp sel (world s0))
             (\<lambda>(t, w). Inr (t, s0\<lparr>world := w\<rparr>))
         else Inl UnboundLocalError)
        (\<lambda>(t, s1). Inr (returned t s1)))"

section \<open>The episode loop (lines 327-411)\<close>

text \<open>\<^verbatim>\<open>calc_sim\<close> called on the three lists of \<^verbatim>\<open>sanity_check\<close>.\<close>

definition calc_sim_call :: "metrics \<Rightarrow> ndarray \<Rightarrow> ndarray \<Rightarrow> 'w state \<Rightarrow> error + 'w state" where
  "calc_sim_call mt og cand s =
     bindE (calc_sim mt (heap s) og cand (pearson_list s, ssim_list s, spearman_list s))
       (\<lambda>(h, pl, sl, spl).
          Inr (s\<lparr>heap := h, pearson_list := pl, ssim_list := sl, spearman_list := spl\<rparr>))"

text \<open>
  Lines 342-352, run in the warm-up step with \<open>_ = 3\<close> when the approach is RISE: the
  original analyzer explains the current frames (with no \<^verbatim>\<open>neuron_selection\<close>), and
  its masks are assigned to the five other analyzers.
\<close>

definition share_masks :: "nat \<Rightarrow> 'w state \<Rightarrow> 'w state" where
  "share_masks k s =
     s\<lparr>analyzers := (analyzers s)[k := (analyzers s ! k)
          \<lparr>rise_masks := rise_masks (analyzers s ! 0), masks_generated := True\<rparr>]\<rparr>"

definition rise_warm_up :: "('w, 'kw) ext \<Rightarrow> string \<Rightarrow> 'kw \<Rightarrow> 'w state \<Rightarrow> error + 'w state" where
  "rise_warm_up x approach kw s =
     (case stacked_frames s of
        None \<Rightarrow> Inl UnboundLocalError
      | Some frames \<Rightarrow>
          bindE (saliency_fn x approach kw 0 frames None s) (\<lambda>(og_saliency_map, s1).
          Inr (share_masks 5 (share_masks 4 (share_masks 3 (share_masks 2 (share_masks 1 s1)))))))"

text \<open>Lines 332-352: the branch \<^verbatim>\<open>_ < 4\<close>, with \<^verbatim>\<open>fixed_start = True\<close>.\<close>

definition warm_up ::
  "('w, 'kw) ext \<Rightarrow> string \<Rightarrow> string \<Rightarrow> 'kw \<Rightarrow> nat \<Rightarrow> 'w state \<Rightarrow> error + (int \<times> 'w state)" where
  "warm_up x game approach kw i s =
     bindE (sample x (world s)) (\<lambda>(sampled, w).
     let s1 = emit Sample (s\<lparr>world := w\<rparr>);
         action = (if game = ''breakout'' then 1 else 0) in
     bindE (if approach = ''rise'' \<and> i = 3 then rise_warm_up x approach kw s1 else Inr s1)
       (\<lambda>s2. Inr (action, s2)))"

text \<open>
  Lines 367-373, and again at 375-379, 381-385, 387-391 and 393-397 with the next
  callable and label: explain with the \<open>k\<close>-th variant, compare, record action and label.
\<close>

definition variant_block ::
  "('w, 'kw) ext \<Rightarrow> metrics \<Rightarrow> string \<Rightarrow> 'kw \<Rightarrow> nat \<Rightarrow> ndarray \<Rightarrow> ndarray \<Rightarrow> int \<Rightarrow> 'w state \<Rightarrow> error + 'w state" where
  "variant_block x mt approach kw k og_saliency_map my_input action s =
     bindE (saliency_fn x approach kw k my_input (Some action) s) (\<lambda>(r, s1).
     let saliency_map_k = squeeze r in
     bindE (calc_sim_call mt og_saliency_map saliency_map_k s1) (\<lambda>s2.
     let s3 = s2\<lparr>action_list := action_list s2 @ [action]\<rparr>;
         s4 = s3\<lparr>model_list := model_list s3 @ [int k]\<rparr>
     in Inr s4))"

text \<open>Lines 399-403 and 405-409: compare with a random map, record action and label.\<close>

definition baseline_block ::
  "metrics \<Rightarrow> event \<Rightarrow> real list \<times> 'w \<Rightarrow> int \<Rightarrow> ndarray \<Rightarrow> int \<Rightarrow> 'w state \<Rightarrow> error + 'w state" where
  "baseline_block mt e drawn label og_saliency_map action s =
     (case drawn of (pixels, w) \<Rightarrow>
      case returned ([84, 84], pixels) (emit e (s\<lparr>world := w\<rparr>)) of (test, s1) \<Rightarrow>
      bindE (calc_sim_call mt og_saliency_map test s1) (\<lambda>s2.
      let s3 = s2\<lparr>action_list := action_list s2 @ [action]\<rparr>;
          s4 = s3\<lparr>model_list := model_list s3 @ [label]\<rparr>
      in Inr s4))"

text \<open>Lines 354-409: the branch of a policy-driven step.\<close>

definition policy_step ::
  "('w, 'kw) ext \<Rightarrow> metrics \<Rightarrow> string \<Rightarrow> 'kw \<Rightarrow> 'w state \<Rightarrow> error + (int \<times> 'w state)" where
  "policy_step x mt approach kw s =
     (case stacked_frames s of
        None \<Rightarrow> Inl UnboundLocalError
      | Some frames \<Rightarrow>
          let my_input0 = expand_dims0 frames;
              inp = read (heap s) my_input0 in
          bindE (predict x (networks s ! model s) inp) (\<lambda>t.
          case returned t (emit (Predict (model s) inp) s) of (output, s0) \<Rightarrow>
          let my_input = squeeze my_input0 in
          bindE (np_argmax (vals (heap s0) (squeeze output))) (\<lambda>action.
          bindE (saliency_fn x approach kw 0 my_input (Some action) s0) (\<lambda>(r, s1).
          let og_saliency_map = squeeze r in
          bindE (variant_block x mt approach kw 1 og_saliency_map my_input action s1) (\<lambda>s2.
          bindE (variant_block x mt approach kw 2 og_saliency_map my_input action s2) (\<lambda>s3.
          bindE (variant_block x mt approach kw 3 og_saliency_map my_input action s3) (\<lambda>s4.
          bindE (variant_block x mt approach kw 4 og_saliency_map my_input action s4) (\<lambda>s5.
          bindE (variant_block x mt approach kw 5 og_saliency_map my_input action s5) (\<lambda>s6.
          bindE (baseline_block mt (RandUniform [84, 84]) (random_rand x [84, 84] (world s6))
                   6 og_saliency_map action s6) (\<lambda>s7.
          bindE (baseline_block mt (RandNormal [84, 84]) (random_normal x [84, 84] (world s7))
                   7 og_saliency_map action s7) (\<lambda>s8.
          Inr (action, s8))))))))))))"

text \<open>One pass through the body of the \<^verbatim>\<open>for\<close> loop, with \<open>_ = i\<close>.\<close>

definition loop_body ::
  "('w, 'kw) ext \<Rightarrow> metrics \<Rightarrow> string \<Rightarrow> string \<Rightarrow> 'kw \<Rightarrow> nat \<Rightarrow> 'w state \<Rightarrow> error + 'w state" where
  "loop_body x mt game approach kw i s =
     (let s0 = (if i mod 10 = 0
                then emit (Print [PReal (default_timer x (world s))])
                       (emit (Print [PInt (int i)]) s)
                else s) in
      bindE (if i < 4 then warm_up x game approach kw i s0
             else policy_step x mt approach kw s0) (\<lambda>(action, s1).
      bindE (wrapper_step x action (world s1)) (\<lambda>(t, w).
      case returned t (emit (WrapperStep action) (s1\<lparr>world := w\<rparr>)) of (frames, s2) \<Rightarrow>
      Inr (s2\<lparr>stacked_frames := Some frames\<rparr>))))"

fun run_loop ::
  "('w, 'kw) ext \<Rightarrow> metrics \<Rightarrow> string \<Rightarrow> string \<Rightarrow> 'kw \<Rightarrow> nat list \<Rightarrow> 'w state \<Rightarrow> error + 'w state" where
  "run_loop x mt game approach kw [] s = Inr s"
| "run_loop x mt game approach kw (i # is) s =
     bindE (loop_body x mt game approach kw i s) (run_loop x mt game approach kw is)"

section \<open>sanity_check (lines 167-422)\<close>

text \<open>\<^verbatim>\<open>os.path.join\<close> of two components (POSIX).\<close>

definition path_join :: "string \<Rightarrow> string \<Rightarrow> string" where
  "path_join a b =
     (if b \<noteq> [] \<and> hd b = CHR ''/'' then b
      else if a = [] \<or> last a = CHR ''/'' then a @ b
      else a @ ''/'' @ b)"

text \<open>Lines 193-204: the model file and the environment of a game.\<close>

definition game_files :: "string \<Rightarrow> (string \<times> string) option" where
  "game_files game =
     (if game = ''pacman'' then
        Some (''../models/MsPacman_5M_ingame_reward.h5'', ''MsPacmanNoFrameskip-v4'')
      else if game = ''breakout'' then
        Some (''../models/BreakoutIngame_5M.h5'', ''BreakoutNoFrameskip-v4'')
      else if game = ''spaceInvaders'' then
        Some (''../models/SpaceInvadersIngame_5M.h5'', ''SpaceInvadersNoFrameskip-v4'')
      else if game = ''frostbite'' then
        Some (''../models/FrostbiteIngame_5M.h5'', ''FrostbiteNoFrameskip-v4'')
      else None)"

definition steps :: nat where
  "steps = 1001"

text \<open>The state at entry: no object yet, empty lists.\<close>

definition entry :: "'w \<Rightarrow> 'w state" where
  "entry w = \<lparr>world = w, heap = [], networks = [], calls = [], model = 0, analyzers = [],
              pearson_list = [], ssim_list = [], spearman_list = [], model_list = [],
              action_list = [], stacked_frames = None\<rparr>"

text \<open>Lines 178-212: directory, seed, model and environment.\<close>

definition prologue :: "('w, 'kw) ext \<Rightarrow> string \<Rightarrow> 'w state \<Rightarrow> error + 'w state" where
  "prologue x game s =
     (let dir_name = path_join ''results'' game in
      bindE (if \<not> isdir x dir_name (world s) then io_call x (Makedirs dir_name) s else Inr s)
        (\<lambda>s1.
      bindE (io_call x (Seed 42) s1) (\<lambda>s2.
      case game_files game of
        None \<Rightarrow> Inl UnboundLocalError
      | Some (model_file, env_id) \<Rightarrow>
          bindE (load_model x model_file (world s2)) (\<lambda>(net, w).
          let s3 = emit (LoadModel model_file)
                     (s2\<lparr>world := w, networks := networks s2 @ [net],
                         model := length (networks s2)\<rparr>) in
          bindE (io_call x (GymMake env_id) s3) (\<lambda>s4.
          bindE (io_call x (Summary (model s4)) s4) (\<lambda>s5.
          bindE (io_call x EnvReset s5) (\<lambda>s6.
          bindE (io_call x AtariWrapper s6) (\<lambda>s7.
          bindE (if game = ''spaceInvaders'' \<or> game = ''breakout''
                 then io_call x SetFireReset s7 else Inr s7) (\<lambda>s8.
          io_call x (WrapperReset 1) s8)))))))))"

text \<open>Lines 321-326.\<close>

definition fixed_start :: "('w, 'kw) ext \<Rightarrow> string \<Rightarrow> 'w state \<Rightarrow> error + 'w state" where
  "fixed_start x game s =
     (if game = ''pacman'' then io_call x (FixedReset 200 0) s
      else io_call x (FixedReset 1 0) s)"

text \<open>Lines 414-419: the table of the five lists.\<close>

definition build_frame :: "'w state \<Rightarrow> error + data_frame" where
  "build_frame s =
     (let data_frame = DataFrame [''rand_layer'', ''pearson'', ''ssim'', ''spearman'', ''action''] in
      bindE (set_column data_frame ''rand_layer'' (map CInt (model_list s))) (\<lambda>df1.
      bindE (set_column df1 ''pearson'' (map CFloat (pearson_list s))) (\<lambda>df2.
      bindE (set_column df2 ''ssim'' (map CFloat (ssim_list s))) (\<lambda>df3.
      bindE (set_column df3 ''spearman'' (map CFloat (spearman_list s))) (\<lambda>df4.
      set_column df4 ''action'' (map CInt (action_list s)))))))"

text \<open>
  The whole function. The result is the final state together with the table that was
  written; \<open>file_name\<close> is the parameter \<^verbatim>\<open>_file_name\<close> and \<open>kw\<close> is \<^verbatim>\<open>**kwargs\<close>.
\<close>

definition sanity_check ::
  "('w, 'kw) ext \<Rightarrow> metrics \<Rightarrow> string \<Rightarrow> string \<Rightarrow> string \<Rightarrow> 'kw \<Rightarrow> 'w \<Rightarrow> error + ('w state \<times> data_frame)" where
  "sanity_check x mt game approach file_name kw w =
     (let dir_name = path_join ''results'' game;
          file_name' = path_join dir_name file_name in
      bindE (prologue x game (entry w)) (\<lambda>s1.
      bindE (cascade x s1) (\<lambda>s2.
      bindE (fixed_start x game s2) (\<lambda>s3.
      bindE (run_loop x mt game approach kw [0..<steps] s3) (\<lambda>s4.
      bindE (build_frame s4) (\<lambda>data_frame.
      bindE (io_call x (ToCsv file_name' data_frame) s4) (\<lambda>s5.
      bindE (io_call x EnvClose s5) (\<lambda>s6.
      Inr (s6, data_frame)))))))))"

section \<open>The similarity evaluator as the spec words it\<close>

text \<open>
  The definitions of this section follow the sentences of section 4.4 of the spec, on
  values (a shape with its pixels); they are compared with \<open>calc_sim\<close> below.
  Min-max normalisation, skipped when the maximum is zero after the minimum is subtracted:
\<close>

definition minmax :: "real list \<Rightarrow> real list" where
  "minmax xs =
     (let ys = map (\<lambda>x. x - Min (set xs)) xs
      in if Max (set ys) \<noteq> 0 then map (\<lambda>y. y / Max (set ys)) ys else ys)"

definition normalised :: "tensor \<Rightarrow> tensor" where
  "normalised t = (fst t, minmax (snd t))"

text \<open>The pixel-wise complement, one minus the map.\<close>

definition complement :: "tensor \<Rightarrow> tensor" where
  "complement t = (fst t, map (\<lambda>x. 1 - x) (snd t))"

text \<open>The three scores of a candidate against the reference.\<close>

definition spearman_of :: "metrics \<Rightarrow> tensor \<Rightarrow> tensor \<Rightarrow> error + pyfloat" where
  "spearman_of mt c r = spearmanr mt (snd c) (snd r)"

definition ssim_of :: "metrics \<Rightarrow> tensor \<Rightarrow> tensor \<Rightarrow> error + pyfloat" where
  "ssim_of mt c r = ssim mt 1 (snd c) (snd r)"

definition hog_pearson_of :: "metrics \<Rightarrow> tensor \<Rightarrow> tensor \<Rightarrow> error + pyfloat" where
  "hog_pearson_of mt c r =
     bindE (hog mt (3, 3) (fst c) (snd c)) (\<lambda>hc.
     bindE (hog mt (3, 3) (fst r) (snd r)) (\<lambda>hr.
     pearsonr mt hc hr))"

text \<open>A score computed for the candidate and for its complement; the larger one is kept.\<close>

definition larger_of ::
  "(tensor \<Rightarrow> tensor \<Rightarrow> error + pyfloat) \<Rightarrow> tensor \<Rightarrow> tensor \<Rightarrow> error + pyfloat" where
  "larger_of score c r =
     bindE (score c r) (\<lambda>a.
     bindE (score (complement c) r) (\<lambda>b.
     Inr (py_max a b)))"

text \<open>The scores of one comparison, as (pearson, ssim, spearman).\<close>

definition similarity :: "metrics \<Rightarrow> tensor \<Rightarrow> tensor \<Rightarrow> error + (pyfloat \<times> pyfloat \<times> pyfloat)" where
  "similarity mt reference candidate =
     (if snd reference = [] \<or> snd candidate = [] then Inl ValueError
      else
        let r = normalised reference; c = normalised candidate in
        bindE (larger_of (spearman_of mt) c r) (\<lambda>sp.
        bindE (larger_of (ssim_of mt) c r) (\<lambda>ss.
        bindE (larger_of (hog_pearson_of mt) c r) (\<lambda>p.
        Inr (p, ss, sp)))))"

section \<open>Notions used in the statements\<close>

text \<open>
  A record of the result table: (rand_layer, (pearson, ssim, spearman), action).
  \<open>adds s recs s'\<close>: the five lists of \<open>s'\<close> are those of \<open>s\<close> followed by the
  components of \<open>recs\<close>, in order.
\<close>

type_synonym entry = "int \<times> (pyfloat \<times> pyfloat \<times> pyfloat) \<times> int"

definition adds :: "'w state \<Rightarrow> entry list \<Rightarrow> 'w state \<Rightarrow> bool" where
  "adds s recs s' \<longleftrightarrow>
     model_list s' = model_list s @ map fst recs \<and>
     pearson_list s' = pearson_list s @ map (\<lambda>r. fst (fst (snd r))) recs \<and>
     ssim_list s' = ssim_list s @ map (\<lambda>r. fst (snd (fst (snd r)))) recs \<and>
     spearman_list s' = spearman_list s @ map (\<lambda>r. snd (snd (fst (snd r)))) recs \<and>
     action_list s' = action_list s @ map (\<lambda>r. snd (snd r)) recs"

text \<open>
  \<open>fixed s s'\<close>: from \<open>s\<close> to \<open>s'\<close> no existing buffer was written (the heap only grew),
  and the networks, the loaded model and the current frames are the same.
\<close>

definition fixed :: "'w state \<Rightarrow> 'w state \<Rightarrow> bool" where
  "fixed s s' \<longleftrightarrow>
     prefix (heap s) (heap s') \<and> networks s' = networks s \<and> model s' = model s \<and>
     stacked_frames s' = stacked_frames s"

text \<open>The calls made from \<open>s\<close> to \<open>s'\<close>.\<close>

definition new_calls :: "'w state \<Rightarrow> 'w state \<Rightarrow> event list" where
  "new_calls s s' = drop (length (calls s)) (calls s')"

text \<open>Mask generation inside the RISE analyzer, as opposed to a call made by the script.\<close>

fun is_generate :: "event \<Rightarrow> bool" where
  "is_generate (GenerateMasks k) = True"
| "is_generate _ = False"

text \<open>
  \<open>quiet approach s\<close>: no analyzer will draw masks when it is called, because the approach
  is not RISE or because every analyzer has its masks.
\<close>

definition quiet :: "string \<Rightarrow> 'w state \<Rightarrow> bool" where
  "quiet approach s \<longleftrightarrow>
     approach \<noteq> ''rise'' \<or>
     6 \<le> length (analyzers s) \<and> list_all masks_generated (take 6 (analyzers s))"

text \<open>
  The calls of one policy-driven step before the environment is advanced, for the frames
  \<open>fr\<close> (shape and pixels) and the chosen action: the prediction on the frames with a
  batch axis, the six explanations of the frames without it, and the two random draws.
\<close>

definition step_calls :: "string \<Rightarrow> nat \<Rightarrow> tensor \<Rightarrow> int \<Rightarrow> event list" where
  "step_calls approach m fr action =
     [Predict m (1 # fst fr, snd fr)] @
     map (\<lambda>k. Explain approach k (filter (\<lambda>n. n \<noteq> 1) (fst fr), snd fr) (Some action)) [0..<6] @
     [RandUniform [84, 84], RandNormal [84, 84]]"

text \<open>
  \<open>compared mt ref action labels s s'\<close>: the records added from \<open>s\<close> to \<open>s'\<close> are, in
  order, one per label, each with the scores of some candidate against the reference
  \<open>ref\<close> and each with the action \<open>action\<close>.
\<close>

definition compared :: "metrics \<Rightarrow> tensor \<Rightarrow> int \<Rightarrow> int list \<Rightarrow> 'w state \<Rightarrow> 'w state \<Rightarrow> bool" where
  "compared mt ref action labels s s' \<longleftrightarrow>
     (\<exists>scs. length scs = length labels \<and>
            list_all (\<lambda>sc. \<exists>cand. similarity mt ref cand = Inr sc) scs \<and>
            adds s (map (\<lambda>(l, sc). (l, sc, action)) (zip labels scs)) s')"

text \<open>
  \<open>outcome mt approach ref action labels evs s s'\<close>: what a part of a policy-driven step
  has done between \<open>s\<close> and \<open>s'\<close>. It added the records of \<open>labels\<close>, wrote no
  existing object, and the calls it made are \<open>evs\<close>, besides mask generation inside an
  analyzer; when \<open>s\<close> is quiet there is none, and the analyzers are as they were.
\<close>

definition outcome ::
  "metrics \<Rightarrow> string \<Rightarrow> tensor \<Rightarrow> int \<Rightarrow> int list \<Rightarrow> event list \<Rightarrow> 'w state \<Rightarrow> 'w state \<Rightarrow> bool" where
  "outcome mt approach ref action labels evs s s' \<longleftrightarrow>
     compared mt ref action labels s s' \<and> fixed s s' \<and>
     length (analyzers s') = length (analyzers s) \<and>
     prefix (calls s) (calls s') \<and>
     filter (\<lambda>e. \<not> is_generate e) (new_calls s s') = evs \<and>
     (quiet approach s \<longrightarrow> analyzers s' = analyzers s \<and> new_calls s s' = evs)"

text \<open>The two progress lines printed in every tenth pass of the loop (lines 328-330).\<close>

definition progress_prints :: "('w, 'kw) ext \<Rightarrow> nat \<Rightarrow> 'w state \<Rightarrow> event list" where
  "progress_prints x i s =
     (if i mod 10 = 0
      then [Print [PInt (int i)], Print [PReal (default_timer x (world s))]]
      else [])"

text \<open>
  The records of one policy-driven step with the given action and seven score triples, and
  the records of an episode, step after step.
\<close>

definition step_entries :: "int \<Rightarrow> (pyfloat \<times> pyfloat \<times> pyfloat) list \<Rightarrow> entry list" where
  "step_entries action scs = map (\<lambda>(l, sc). (l, sc, action)) (zip [1, 2, 3, 4, 5, 6, 7] scs)"

definition episode_entries :: "(int \<times> (pyfloat \<times> pyfloat \<times> pyfloat) list) list \<Rightarrow> entry list" where
  "episode_entries sts = concat (map (\<lambda>(a, scs). step_entries a scs) sts)"

text \<open>Kinds of calls.\<close>

fun is_step :: "event \<Rightarrow> bool" where
  "is_step (WrapperStep a) = True"
| "is_step _ = False"

fun is_sample :: "event \<Rightarrow> bool" where
  "is_sample Sample = True"
| "is_sample _ = False"

fun is_predict :: "event \<Rightarrow> bool" where
  "is_predict (Predict m t) = True"
| "is_predict _ = False"

fun is_explain :: "event \<Rightarrow> bool" where
  "is_explain (Explain a k t sel) = True"
| "is_explain _ = False"

text \<open>The current frames, when bound, are an array of the heap.\<close>

definition frames_ok :: "'w state \<Rightarrow> bool" where
  "frames_ok s = (case stacked_frames s of None \<Rightarrow> True | Some f \<Rightarrow> buf f < length (heap s))"

fun is_init :: "event \<Rightarrow> bool" where
  "is_init (InitLayer m i) = True"
| "is_init _ = False"

fun is_print :: "event \<Rightarrow> bool" where
  "is_print (Print ps) = True"
| "is_print _ = False"

text \<open>The calls of the episode loop, as opposed to preparation, printing and saving.\<close>

fun in_episode :: "event \<Rightarrow> bool" where
  "in_episode Sample = True"
| "in_episode (Predict m t) = True"
| "in_episode (Explain a k t sel) = True"
| "in_episode (GenerateMasks k) = True"
| "in_episode (RandUniform sh) = True"
| "in_episode (RandNormal sh) = True"
| "in_episode (WrapperStep a) = True"
| "in_episode _ = False"

text \<open>The table of a list of records, column by column.\<close>

definition table_of :: "entry list \<Rightarrow> data_frame" where
  "table_of recs =
     \<lparr>columns =
        [(''rand_layer'', map (\<lambda>r. CInt (fst r)) recs),
         (''pearson'', map (\<lambda>r. CFloat (fst (fst (snd r)))) recs),
         (''ssim'', map (\<lambda>r. CFloat (fst (snd (fst (snd r))))) recs),
         (''spearman'', map (\<lambda>r. CFloat (snd (snd (fst (snd r))))) recs),
         (''action'', map (\<lambda>r. CInt (snd (snd r))) recs)],
      nrows = length recs\<rparr>"

text \<open>
  What \<^verbatim>\<open>check_models\<close> prints for two networks: for each of the layers 1, 2, 3, 5 and 6
  the layer number, whether the kernels are equal and whether the biases are equal.
\<close>

definition check_lines :: "network \<Rightarrow> network \<Rightarrow> event list" where
  "check_lines n1 n0 =
     concat (map (\<lambda>i. [Print [PStr ''layer '', PInt (int i)],
                        Print [PBool (snd (n1 ! i ! 0) = snd (n0 ! i ! 0))],
                        Print [PBool (snd (n1 ! i ! 1) = snd (n0 ! i ! 1))]])
                 [1, 2, 3, 5, 6])"

text \<open>
  Two networks of one architecture, as far as \<^verbatim>\<open>check_models\<close> looks: the layers 1, 2,
  3, 5 and 6 exist and have a kernel and a bias each, of the same shapes in both networks.
\<close>

definition comparable :: "network \<Rightarrow> network \<Rightarrow> bool" where
  "comparable n1 n0 \<longleftrightarrow>
     6 < length n1 \<and> 6 < length n0 \<and>
     list_all (\<lambda>i. 2 \<le> length (n1 ! i) \<and> 2 \<le> length (n0 ! i) \<and>
                    fst (n1 ! i ! 0) = fst (n0 ! i ! 0) \<and> fst (n1 ! i ! 1) = fst (n0 ! i ! 1))
              [1, 2, 3, 5, 6]"

text \<open>The layer indices re-initialised along the chain, in order (lines 220, 227, 234, 241, 248).\<close>

definition chain_layers :: "nat list" where
  "chain_layers = [6, 5, 3, 2, 1]"

section \<open>What the collaborators are given and what they return\<close>

text \<open>\<^verbatim>\<open>np.squeeze\<close> on a shape with its pixels: the axes of length one are dropped.\<close>

definition squeezed :: "tensor \<Rightarrow> tensor" where
  "squeezed t = (filter (\<lambda>n. n \<noteq> 1) (fst t), snd t)"

text \<open>
  The library call behind the callable of an approach (lines 252-318) for a network, the
  masks its analyzer holds, an input and a \<^verbatim>\<open>neuron_selection\<close>: which routine is called,
  with which arguments, in which world, and what comes back. For RISE this is the call made
  by an analyzer that has its masks (as in \<open>generate_rise_prediction\<close>, which is modelled
  from the spec).
\<close>

definition explained ::
  "('w, 'kw) ext \<Rightarrow> string \<Rightarrow> 'kw \<Rightarrow> network \<Rightarrow> tensor option \<Rightarrow> tensor \<Rightarrow> int option \<Rightarrow> 'w \<Rightarrow>
   error + (tensor \<times> 'w)" where
  "explained x approach kw net masks inp sel w =
     (if approach = ''noise'' then
        explanation x ''generate_greydanus_explanation'' kw net inp sel w
      else if approach = ''occl'' then
        explanation x ''generate_occlusion_explanation'' kw net inp sel w
      else if approach = ''rise'' then
        (case masks of None \<Rightarrow> Inl ExternalError
         | Some m \<Rightarrow> rise_saliency x kw net m inp sel w)
      else if approach = ''lime'' then
        bindE (lime_explanation x kw net inp sel w) (\<lambda>(ts, w').
          if length ts \<le> 2 then Inl IndexError else Inr (ts ! 2, w'))
      else if approach = ''sarfa'' then
        explanation x ''generate_sarfa_explanation'' kw net inp sel w
      else Inl UnboundLocalError)"

text \<open>The masks that analyzer \<open>k\<close> of a state holds, as pixels.\<close>

definition held :: "'w state \<Rightarrow> nat \<Rightarrow> tensor option" where
  "held s k = map_option (read (heap s)) (rise_masks (analyzers s ! k))"

text \<open>
  \<open>explains x approach kw s k\<close>: the call of the \<open>k\<close>-th callable in state \<open>s\<close>, on the
  network of the \<open>k\<close>-th analyzer with the masks it holds.
\<close>

definition explains ::
  "('w, 'kw) ext \<Rightarrow> string \<Rightarrow> 'kw \<Rightarrow> 'w state \<Rightarrow> nat \<Rightarrow> tensor \<Rightarrow> int option \<Rightarrow> 'w \<Rightarrow>
   error + (tensor \<times> 'w)" where
  "explains x approach kw s k inp sel w =
     explained x approach kw (networks s ! amodel (analyzers s ! k)) (held s k) inp sel w"

text \<open>
  \<open>settled approach s\<close>: no analyzer will draw masks when it is called, because the approach
  is not RISE, or because each of the six analyzers has its flag set and holds masks that
  are an array of the heap.
\<close>

definition settled :: "string \<Rightarrow> 'w state \<Rightarrow> bool" where
  "settled approach s \<longleftrightarrow>
     approach \<noteq> ''rise'' \<or>
     6 \<le> length (analyzers s) \<and>
     list_all (\<lambda>a. masks_generated a \<and>
                 (case rise_masks a of None \<Rightarrow> False | Some m \<Rightarrow> buf m < length (heap s)))
       (take 6 (analyzers s))"

text \<open>
  \<open>sharing m s\<close>: each of the six analyzers of \<open>s\<close> holds the array \<open>m\<close> as its masks and has
  its flag set, and \<open>m\<close> is an array of the heap.
\<close>

definition sharing :: "ndarray \<Rightarrow> 'w state \<Rightarrow> bool" where
  "sharing m s \<longleftrightarrow>
     6 \<le> length (analyzers s) \<and> buf m < length (heap s) \<and>
     list_all (\<lambda>a. rise_masks a = Some m \<and> masks_generated a) (take 6 (analyzers s))"

section \<open>Runs in which no collaborator fails\<close>

text \<open>
  \<open>total_metrics\<close>: the four metric routines return a score on every input.
  \<open>benign\<close>: no library call raises; the loaded network has seven layers of which 1, 2, 3,
  5 and 6 carry a kernel and a bias; re-initialisation keeps the shapes of a layer; a
  prediction is not empty, and neither is an explanation or a random map.
\<close>

definition total_metrics :: "metrics \<Rightarrow> bool" where
  "total_metrics mt \<longleftrightarrow>
     (\<forall>a b. \<not> isl (spearmanr mt a b)) \<and> (\<forall>d a b. \<not> isl (ssim mt d a b)) \<and>
     (\<forall>c sh a. \<not> isl (hog mt c sh a)) \<and> (\<forall>a b. \<not> isl (pearsonr mt a b))"

definition trainable :: "network \<Rightarrow> bool" where
  "trainable net \<longleftrightarrow> 6 < length net \<and> list_all (\<lambda>i. 2 \<le> length (net ! i)) [1, 2, 3, 5, 6]"

definition benign :: "('w, 'kw) ext \<Rightarrow> bool" where
  "benign x \<longleftrightarrow>
     (\<forall>e w. \<not> isl (io x e w)) \<and>
     (\<forall>f w. case load_model x f w of Inl e \<Rightarrow> False | Inr r \<Rightarrow> trainable (fst r)) \<and>
     (\<forall>l w. case initializer x l w of Inl e \<Rightarrow> False | Inr r \<Rightarrow> map fst (fst r) = map fst l) \<and>
     (\<forall>n t. case predict x n t of Inl e \<Rightarrow> False | Inr out \<Rightarrow> snd out \<noteq> []) \<and>
     (\<forall>m kw n t sel w. case explanation x m kw n t sel w of
                          Inl e \<Rightarrow> False | Inr r \<Rightarrow> snd (fst r) \<noteq> []) \<and>
     (\<forall>kw n t sel w. case lime_explanation x kw n t sel w of
                        Inl e \<Rightarrow> False | Inr r \<Rightarrow> 2 < length (fst r) \<and> snd (fst r ! 2) \<noteq> []) \<and>
     (\<forall>kw t w. \<not> isl (generate_masks x kw t w)) \<and>
     (\<forall>kw n m t sel w. case rise_saliency x kw n m t sel w of
                          Inl e \<Rightarrow> False | Inr r \<Rightarrow> snd (fst r) \<noteq> []) \<and>
     (\<forall>w. \<not> isl (sample x w)) \<and> (\<forall>a w. \<not> isl (wrapper_step x a w)) \<and>
     (\<forall>sh w. fst (random_rand x sh w) \<noteq> []) \<and> (\<forall>sh w. fst (random_normal x sh w) \<noteq> [])"

text \<open>
  \<open>ready approach s\<close>: the approach is one of the five, and with RISE the six analyzers
  exist and one that has its flag set holds masks.
\<close>

definition ready :: "string \<Rightarrow> 'w state \<Rightarrow> bool" where
  "ready approach s \<longleftrightarrow>
     approach \<in> set [''noise'', ''occl'', ''rise'', ''lime'', ''sarfa''] \<and>
     6 \<le> length (analyzers s) \<and>
     list_all (\<lambda>a. \<not> masks_generated a \<or> rise_masks a \<noteq> None) (analyzers s)"

text \<open>\<open>balanced s\<close>: the five lists of \<open>s\<close> have one length.\<close>

definition balanced :: "'w state \<Rightarrow> bool" where
  "balanced s \<longleftrightarrow>
     length (pearson_list s) = length (model_list s) \<and>
     length (ssim_list s) = length (model_list s) \<and>
     length (spearman_list s) = length (model_list s) \<and>
     length (action_list s) = length (model_list s)"

section \<open>A small world for examples\<close>

text \<open>
  Collaborators that never fail, over a world without state: a network of seven layers
  with a kernel and a bias each, an initializer that adds one to every weight, maps of two
  pixels, and metrics that return constants.
\<close>

definition still_world :: "(unit, unit) ext" where
  "still_world =
     \<lparr>isdir = (\<lambda>p w. True),
      io = (\<lambda>e w. Inr w),
      load_model = (\<lambda>f w. Inr (replicate 7 [([1], [0]), ([1], [0])], w)),
      initializer = (\<lambda>l w. Inr (map (\<lambda>t. (fst t, map (\<lambda>v. v + 1) (snd t))) l, w)),
      predict = (\<lambda>n t. Inr ([1, 2], [0, 1])),
      explanation = (\<lambda>m kw n t sel w. Inr (([2], [0, 1]), w)),
      lime_explanation = (\<lambda>kw n t sel w. Inr ([t, t, ([2], [0, 1])], w)),
      generate_masks = (\<lambda>kw t w. Inr (([1], [1]), w)),
      rise_saliency = (\<lambda>kw n m t sel w. Inr (([2], [0, 1]), w)),
      sample = (\<lambda>w. Inr (0, w)),
      wrapper_step = (\<lambda>a w. Inr (([1], [0]), w)),
      random_rand = (\<lambda>sh w. ([0, 1], w)),
      random_normal = (\<lambda>sh w. ([1, 0], w)),
      default_timer = (\<lambda>w. 0)\<rparr>"

definition flat_metrics :: metrics where
  "flat_metrics =
     \<lparr>spearmanr = (\<lambda>a b. Inr (Num 0)),
      ssim = (\<lambda>d a b. Inr (Num 0)),
      hog = (\<lambda>c sh a. Inr []),
      pearsonr = (\<lambda>a b. Inr NaN)\<rparr>"

text \<open>
  A state inside an episode: the frames are bound to an array of the heap, the six
  analyzers exist, no record has been added yet.
\<close>

definition mid_state :: "unit state" where
  "mid_state =
     \<lparr>world = (), heap = [[0]], networks = [replicate 7 [([1], [0]), ([1], [0])]],
      calls = [], model = 0, analyzers = replicate 6 (explainer 0),
      pearson_list = [], ssim_list = [], spearman_list = [], model_list = [],
      action_list = [], stacked_frames = Some \<lparr>buf = 0, shape = [1]\<rparr>\<rparr>"

section \<open>Basic facts\<close>

lemma bindE_Inl [simp]: "bindE (Inl e) f = Inl e"
  by (simp add: bindE_def)

lemma bindE_Inr [simp]: "bindE (Inr x) f = f x"
  by (simp add: bindE_def)

lemma bindE_eq_Inr: "bindE m f = Inr y \<longleftrightarrow> (\<exists>x. m = Inr x \<and> f x = Inr y)"
  by (cases m) simp_all

lemma py_max_Num: "py_max (Num a) (Num b) = Num (max a b)"
  by (simp add: py_max_def max_def)

lemma vals_alloc_new: "alloc h xs sh = (h', a) \<Longrightarrow> vals h' a = xs"
  by (auto simp: alloc_def vals_def)

lemma vals_alloc_old: "alloc h xs sh = (h', a) \<Longrightarrow> buf b < length h \<Longrightarrow> vals h' b = vals h b"
  by (auto simp: alloc_def vals_def nth_append)

lemma alloc_prefix: "alloc h xs sh = (h', a) \<Longrightarrow> prefix h h'"
  by (auto simp: alloc_def)

lemma prefix_vals: "prefix h h' \<Longrightarrow> buf b < length h \<Longrightarrow> vals h' b = vals h b"
  by (auto simp: prefix_def vals_def nth_append)

lemma normalise_image_unfold:
  "vals h img \<noteq> [] \<Longrightarrow>
   normalise_image h img =
     (let xs = vals h img; ys = map (\<lambda>x. x - Min (set xs)) xs in
      if Max (set ys) \<noteq> 0
      then Inr (h @ [ys, map (\<lambda>y. y / Max (set ys)) ys], \<lparr>buf = Suc (length h), shape = shape img\<rparr>)
      else Inr (h @ [ys], \<lparr>buf = length h, shape = shape img\<rparr>))"
  by (simp add: normalise_image_def np_min_def np_max_def np_sub_scalar_def np_div_scalar_def
      alloc_def vals_def Let_def)

lemma normalise_image_empty: "vals h img = [] \<Longrightarrow> normalise_image h img = Inl ValueError"
  by (simp add: normalise_image_def np_min_def)

lemma Max_shift:
  fixes xs :: "real list"
  assumes "xs \<noteq> []"
  shows "Max (set (map (\<lambda>x. x - c) xs)) = Max (set xs) - c"
proof -
  have "Max ((\<lambda>x. x - c) ` set xs) = Max (set xs) - c"
    using assms by (intro mono_Max_commute[symmetric]) (auto simp: mono_def)
  then show ?thesis by simp
qed

lemma Min_shift:
  fixes xs :: "real list"
  assumes "xs \<noteq> []"
  shows "Min (set (map (\<lambda>x. x - c) xs)) = Min (set xs) - c"
proof -
  have "Min ((\<lambda>x. x - c) ` set xs) = Min (set xs) - c"
    using assms by (intro mono_Min_commute[symmetric]) (auto simp: mono_def)
  then show ?thesis by simp
qed

section \<open>Normalisation\<close>

lemma fold_fmin:
  "fold (\<lambda>y m. if fless y m then y else m) (map Fin xs) (Fin a) = Fin (fold min xs a)"
  by (induction xs arbitrary: a) (auto simp: min_def)

lemma fold_fmax:
  "fold (\<lambda>y m. if fless m y then y else m) (map Fin xs) (Fin a) = Fin (fold max xs a)"
  by (induction xs arbitrary: a) (auto simp: max_def)

lemma np_min64_fin:
  assumes "vals64 h a = map Fin xs" and "xs \<noteq> []"
  shows "np_min64 h a = Inr (Fin (Min (set xs)))"
proof -
  from assms(2) obtain x xs' where xs: "xs = x # xs'" by (cases xs) auto
  have "Min (set (x # xs')) = fold min xs' x" by (rule Min.set_eq_fold)
  then show ?thesis
    by (auto simp: np_min64_def assms(1) xs fold_fmin)
qed

lemma np_max64_fin:
  assumes "vals64 h a = map Fin xs" and "xs \<noteq> []"
  shows "np_max64 h a = Inr (Fin (Max (set xs)))"
proof -
  from assms(2) obtain x xs' where xs: "xs = x # xs'" by (cases xs) auto
  have "Max (set (x # xs')) = fold max xs' x" by (rule Max.set_eq_fold)
  then show ?thesis
    by (auto simp: np_max64_def assms(1) xs fold_fmax)
qed

lemma exact64_sound: "sound_format exact64"
  by (simp add: sound_format_def exact64_def mono_def)

lemma fl_fin:
  assumes "- fmax fm \<le> rnd fm y" and "rnd fm y \<le> fmax fm"
  shows "fl fm y = Fin (rnd fm y)"
  using assms by (simp add: fl_def)

lemma normalise_image_f64_result:
  assumes sf: "sound_format fm"
    and fin: "vals64 h img = map Fin xs" and ne: "xs \<noteq> []"
    and rep: "\<forall>v \<in> set xs. rnd fm v = v"
    and nov: "Max (set xs) - Min (set xs) \<le> fmax fm"
  shows "\<exists>h' out ys. normalise_image_f64 fm h img = Inr (h', out) \<and> shape out = shape img \<and>
     prefix h h' \<and> length h \<le> buf out \<and> buf out < length h' \<and>
     vals64 h' out = map Fin ys \<and> length ys = length xs \<and>
     (if Max (set xs) \<noteq> Min (set xs)
      then length h' = length h + 2 \<and> buf out = length h + 1 \<and>
           ys = map (\<lambda>v. rnd fm (rnd fm (v - Min (set xs)) /
                              rnd fm (Max (set xs) - Min (set xs)))) xs \<and>
           (\<forall>y \<in> set ys. 0 \<le> y \<and> y \<le> 1) \<and> 0 \<in> set ys \<and> 1 \<in> set ys
      else h' = h @ [map (\<lambda>v. Fin 0) xs] \<and> buf out = length h)"
proof -
  define mn where "mn = Min (set xs)"
  define mx where "mx = Max (set xs)"
  define r where "r = rnd fm"
  define F where "F = fmax fm"
  define ds where "ds = map (\<lambda>v. r (v - mn)) xs"
  from sf have mono: "\<And>a b. a \<le> b \<Longrightarrow> r a \<le> r b" and r0: "r 0 = 0" and r1: "r 1 = 1"
    and F1: "1 \<le> F" and rF: "r F = F"
    and sub0: "\<And>a b. r a = a \<Longrightarrow> r b = b \<Longrightarrow> r (a - b) = 0 \<Longrightarrow> a = b"
    unfolding sound_format_def r_def F_def mono_def by blast+
  have mn_in: "mn \<in> set xs" and mx_in: "mx \<in> set xs"
    using ne by (simp_all add: mn_def mx_def)
  have lo: "\<And>v. v \<in> set xs \<Longrightarrow> mn \<le> v" and hi: "\<And>v. v \<in> set xs \<Longrightarrow> v \<le> mx"
    by (simp_all add: mn_def mx_def)
  have F0: "0 \<le> F" using F1 by simp
  have d_lo: "0 \<le> r (v - mn)" if "v \<in> set xs" for v
    using mono[of 0 "v - mn"] lo[OF that] by (simp add: r0)
  have d_hi: "r (v - mn) \<le> r (mx - mn)" if "v \<in> set xs" for v
    using mono[of "v - mn" "mx - mn"] hi[OF that] by simp
  have nov': "mx - mn \<le> F" using nov by (simp add: mn_def mx_def F_def)
  have M_le: "r (mx - mn) \<le> F"
    using mono[OF nov'] by (simp add: rF)
  have sub: "fsub fm (Fin v) (Fin mn) = Fin (r (v - mn))" if "v \<in> set xs" for v
  proof -
    have "- F \<le> r (v - mn)" using d_lo[OF that] F0 by simp
    moreover have "r (v - mn) \<le> F" using d_hi[OF that] M_le by simp
    ultimately show ?thesis by (simp add: fl_fin r_def F_def)
  qed
  have mn64: "np_min64 h img = Inr (Fin mn)"
    unfolding mn_def by (rule np_min64_fin[OF fin ne])
  define h1 where "h1 = h @ [map Fin ds]"
  define image1 where "image1 = \<lparr>buf = length h, shape = shape img\<rparr>"
  have ms: "map (\<lambda>v. fsub fm v (Fin mn)) (map Fin xs) = map Fin ds"
    by (simp add: ds_def sub del: fsub.simps)
  have s1: "np_sub_scalar64 fm h img (Fin mn) = (h1, image1)"
    unfolding np_sub_scalar64_def fin ms by (simp add: alloc64_def h1_def image1_def)
  have v1: "vals64 h1 image1 = map Fin ds"
    by (simp add: vals64_def h1_def image1_def)
  have dne: "ds \<noteq> []" using ne by (simp add: ds_def)
  have maxd: "Max (set ds) = r (mx - mn)"
  proof (rule Max_eqI)
    show "finite (set ds)" by simp
    show "\<And>y. y \<in> set ds \<Longrightarrow> y \<le> r (mx - mn)" using d_hi by (auto simp: ds_def)
    show "r (mx - mn) \<in> set ds" using mx_in by (auto simp: ds_def)
  qed
  have mx64: "np_max64 h1 image1 = Inr (Fin (r (mx - mn)))"
    using np_max64_fin[OF v1 dne] by (simp add: maxd)
  have unf: "normalise_image_f64 fm h img =
      (if r (mx - mn) \<noteq> 0
       then Inr (np_div_scalar64 fm h1 image1 (Fin (r (mx - mn))))
       else Inr (h1, image1))"
    by (simp add: normalise_image_f64_def mn64 s1 mx64)
  show ?thesis
  proof (cases "mx = mn")
    case True
    have "\<And>v. v \<in> set xs \<Longrightarrow> v = mn" using lo hi True by force
    then have "ds = map (\<lambda>v. 0) xs" by (simp add: ds_def r0)
    then have h1': "h1 = h @ [map (\<lambda>v. Fin 0) xs]" by (simp add: h1_def comp_def)
    from True have "r (mx - mn) = 0" by (simp add: r0)
    with unf have "normalise_image_f64 fm h img = Inr (h1, image1)" by simp
    with True h1' show ?thesis
      apply (intro exI[of _ h1] exI[of _ image1] exI[of _ "map (\<lambda>v. 0) xs"])
      by (simp add: image1_def vals64_def mn_def[symmetric] mx_def[symmetric] comp_def)
  next
    case False
    have rmn: "r mn = mn" and rmx: "r mx = mx"
      using rep mn_in mx_in by (simp_all add: r_def)
    have Mnz: "r (mx - mn) \<noteq> 0" using sub0[OF rmx rmn] False by blast
    have Mpos: "0 < r (mx - mn)" using d_lo[OF mx_in] Mnz by simp
    define M where "M = r (mx - mn)"
    define ys where "ys = map (\<lambda>v. r (r (v - mn) / M)) xs"
    have q_lo: "0 \<le> r (r (v - mn) / M)" if "v \<in> set xs" for v
      using mono[of 0 "r (v - mn) / M"] d_lo[OF that] Mpos by (simp add: r0 M_def)
    have q_hi: "r (r (v - mn) / M) \<le> 1" if "v \<in> set xs" for v
      using mono[of "r (v - mn) / M" 1] d_hi[OF that] Mpos by (simp add: r1 M_def)
    have dv: "fdiv fm (Fin (r (v - mn))) (Fin M) = Fin (r (r (v - mn) / M))" if "v \<in> set xs" for v
    proof -
      have "- F \<le> r (r (v - mn) / M)" using q_lo[OF that] F0 by simp
      moreover have "r (r (v - mn) / M) \<le> F" using q_hi[OF that] F1 by simp
      ultimately show ?thesis using Mpos by (simp add: fl_fin r_def F_def M_def)
    qed
    define h2 where "h2 = h1 @ [map Fin ys]"
    define out where "out = \<lparr>buf = length h1, shape = shape img\<rparr>"
    have md: "map (\<lambda>v. fdiv fm v (Fin M)) (map Fin ds) = map Fin ys"
      by (simp add: ys_def ds_def dv del: fdiv.simps)
    have d2: "np_div_scalar64 fm h1 image1 (Fin M) = (h2, out)"
      unfolding np_div_scalar64_def v1 md by (simp add: alloc64_def h2_def out_def image1_def)
    from unf Mnz d2 have res: "normalise_image_f64 fm h img = Inr (h2, out)" by (simp add: M_def)
    have z: "0 \<in> set ys"
    proof -
      have "(\<lambda>v. r (r (v - mn) / M)) mn \<in> set ys" unfolding ys_def set_map using mn_in by (rule imageI)
      then show ?thesis by (simp add: r0)
    qed
    have o: "1 \<in> set ys"
    proof -
      have "(\<lambda>v. r (r (v - mn) / M)) mx \<in> set ys" unfolding ys_def set_map using mx_in by (rule imageI)
      then show ?thesis using Mpos by (simp add: M_def r1)
    qed
    have rng: "\<forall>y \<in> set ys. 0 \<le> y \<and> y \<le> 1" using q_lo q_hi by (auto simp: ys_def)
    have v2: "vals64 h2 out = map Fin ys" by (simp add: vals64_def h2_def out_def)
    from False res z o rng v2 show ?thesis
      apply (intro exI[of _ h2] exI[of _ out] exI[of _ ys])
      by (simp add: h2_def h1_def out_def mn_def[symmetric] mx_def[symmetric] ys_def M_def r_def)
  qed
qed

text \<open>
  On finite float64 input the subtraction can overflow: with the pixels \<open>-2\<^sup>1\<^sup>0\<^sup>2\<^sup>3\<close>, \<open>0\<close>
  and \<open>2\<^sup>1\<^sup>0\<^sup>2\<^sup>3\<close> the largest difference is an infinity and the result is \<open>[0, 0, nan]\<close>.
\<close>

lemma overflow_gives_nan:
  "normalise_image_f64 exact64 [[Fin (- (2 ^ 1023)), Fin 0, Fin (2 ^ 1023)]] \<lparr>buf = 0, shape = [3]\<rparr>
     = Inr ([[Fin (- (2 ^ 1023)), Fin 0, Fin (2 ^ 1023)],
             [Fin 0, Fin (2 ^ 1023), PosInf],
             [Fin 0, Fin 0, NotANumber]], \<lparr>buf = 2, shape = [3]\<rparr>)"
  by (simp add: normalise_image_f64_def np_min64_def np_max64_def np_sub_scalar64_def
      np_div_scalar64_def alloc64_def vals64_def fl_def exact64_def)

text \<open>
  Without rounding, and when the subtraction does not overflow, the function over float64
  values returns what the function over real pixels returns.
\<close>

lemma normalise_image_idealised:
  assumes id: "\<And>y. rnd fm y = y" and one: "1 \<le> fmax fm"
    and v: "buf img < length h" and ne: "vals h img \<noteq> []"
    and nov: "Max (set (vals h img)) - Min (set (vals h img)) \<le> fmax fm"
  shows "\<exists>h' out h64. normalise_image h img = Inr (h', out) \<and>
     normalise_image_f64 fm (map (map Fin) h) img = Inr (h64, out) \<and>
     vals64 h64 out = map Fin (vals h' out)"
proof -
  define xs where "xs = vals h img"
  have sf: "sound_format fm"
    using id one by (simp add: sound_format_def mono_def)
  have fin: "vals64 (map (map Fin) h) img = map Fin xs"
    using v by (simp add: vals64_def vals_def xs_def)
  have xne: "xs \<noteq> []" using ne by (simp add: xs_def)
  have rep: "\<forall>v \<in> set xs. rnd fm v = v" by (simp add: id)
  have nov': "Max (set xs) - Min (set xs) \<le> fmax fm" using nov by (simp add: xs_def)
  from normalise_image_f64_result[OF sf fin xne rep nov'] obtain h64 out ys where
    f: "normalise_image_f64 fm (map (map Fin) h) img = Inr (h64, out)"
    and sh: "shape out = shape img" and vo: "vals64 h64 out = map Fin ys"
    and c: "if Max (set xs) \<noteq> Min (set xs)
      then buf out = length (map (map Fin) h) + 1 \<and>
           ys = map (\<lambda>v. rnd fm (rnd fm (v - Min (set xs)) /
                              rnd fm (Max (set xs) - Min (set xs)))) xs
      else h64 = map (map Fin) h @ [map (\<lambda>v. Fin 0) xs] \<and> buf out = length (map (map Fin) h)"
    by (auto split: if_splits)
  define zs where "zs = map (\<lambda>x. x - Min (set xs)) xs"
  have mz: "Max (set zs) = Max (set xs) - Min (set xs)"
    unfolding zs_def by (rule Max_shift[OF xne])
  note u = normalise_image_unfold[OF ne, unfolded Let_def, folded xs_def, folded zs_def, unfolded mz]
  show ?thesis
  proof (cases "Max (set xs) = Min (set xs)")
    case True
    with c have bo: "buf out = length h" and h64: "h64 = map (map Fin) h @ [map (\<lambda>v. Fin 0) xs]"
      by simp_all
    have o: "out = \<lparr>buf = length h, shape = shape img\<rparr>" using bo sh by (cases out) simp
    from True u have r: "normalise_image h img = Inr (h @ [zs], out)" by (simp add: o)
    have "\<And>x. x \<in> set xs \<Longrightarrow> x = Min (set xs)"
    proof -
      fix x assume "x \<in> set xs"
      then have "Min (set xs) \<le> x" "x \<le> Max (set xs)" by simp_all
      with True show "x = Min (set xs)" by simp
    qed
    then have z0: "zs = map (\<lambda>x. 0) xs" by (simp add: zs_def)
    have "vals64 h64 out = map Fin (vals (h @ [zs]) out)"
      by (simp add: vals64_def vals_def h64 o z0 comp_def nth_append)
    with r f show ?thesis by blast
  next
    case False
    with c have bo: "buf out = Suc (length h)"
      and ys: "ys = map (\<lambda>v. (v - Min (set xs)) / (Max (set xs) - Min (set xs))) xs"
      by (simp_all add: id)
    have o: "out = \<lparr>buf = Suc (length h), shape = shape img\<rparr>" using bo sh by (cases out) simp
    from False u have r: "normalise_image h img =
        Inr (h @ [zs, map (\<lambda>y. y / (Max (set xs) - Min (set xs))) zs], out)" by (simp add: o)
    have "map Fin ys =
        map Fin (vals (h @ [zs, map (\<lambda>y. y / (Max (set xs) - Min (set xs))) zs]) out)"
      by (simp add: ys vals_def o zs_def comp_def nth_append)
    with vo have "vals64 h64 out =
        map Fin (vals (h @ [zs, map (\<lambda>y. y / (Max (set xs) - Min (set xs))) zs]) out)"
      by simp
    with r f show ?thesis by blast
  qed
qed

text \<open>
  C6 (as amended). The input is a non-empty float64 array of finite values whose range
  \<open>max - min\<close> is at most the largest finite number, so that the subtraction does not
  overflow. The function returns a new array of the same shape and leaves every existing
  buffer as it was. When the array is not constant, each pixel \<open>v\<close> becomes the rounded
  quotient of the rounded \<open>v - min\<close> and the rounded \<open>max - min\<close>: all values are finite and
  lie in \<open>[0, 1]\<close>, at least one pixel is \<open>0\<close> and at least one is \<open>1\<close>, and two arrays were
  allocated. When the array is constant, the result is the array produced by the
  subtraction of the minimum, all zeros, and it is the only array allocated: the division
  is not performed.
\<close>

theorem normalise_image_f64_minmax:
  assumes sf: "sound_format fm"
    and fin: "vals64 h img = map Fin xs" and ne: "xs \<noteq> []"
    and rep: "\<forall>v \<in> set xs. rnd fm v = v"
    and nov: "Max (set xs) - Min (set xs) \<le> fmax fm"
  shows "\<exists>h' out ys. normalise_image_f64 fm h img = Inr (h', out) \<and> shape out = shape img \<and>
     prefix h h' \<and> length h \<le> buf out \<and> buf out < length h' \<and>
     vals64 h' out = map Fin ys \<and> length ys = length xs \<and>
     (if Max (set xs) \<noteq> Min (set xs)
      then length h' = length h + 2 \<and> buf out = length h + 1 \<and>
           ys = map (\<lambda>v. rnd fm (rnd fm (v - Min (set xs)) /
                              rnd fm (Max (set xs) - Min (set xs)))) xs \<and>
           (\<forall>y \<in> set ys. 0 \<le> y \<and> y \<le> 1) \<and> 0 \<in> set ys \<and> 1 \<in> set ys
      else h' = h @ [map (\<lambda>v. Fin 0) xs] \<and> buf out = length h)"
  using normalise_image_f64_result[OF sf fin ne rep nov] .

theorem normalise_image_f64_minmax_witness:
  "sound_format exact64 \<and>
   (\<exists>h' out. normalise_image_f64 exact64 [[Fin 2, Fin 4, Fin 3]] \<lparr>buf = 0, shape = [3]\<rparr> = Inr (h', out) \<and>
      vals64 h' out = [Fin 0, Fin 1, Fin (1 / 2)] \<and> buf out = 2 \<and> length h' = 3)"
proof -
  have v: "vals64 [[Fin 2, Fin 4, Fin 3]] \<lparr>buf = 0, shape = [3]\<rparr> = map Fin [2, 4, 3]"
    by (simp add: vals64_def)
  have ne: "[2, 4, 3 :: real] \<noteq> []" by simp
  have rep: "\<forall>v \<in> set [2, 4, 3 :: real]. rnd exact64 v = v" by (simp add: exact64_def)
  have nov: "Max (set [2, 4, 3 :: real]) - Min (set [2, 4, 3]) \<le> fmax exact64"
    by (simp add: exact64_def)
  from normalise_image_f64_minmax[OF exact64_sound v ne rep nov] exact64_sound
  show ?thesis by (auto simp: exact64_def)
qed

text \<open>
  The claim asks for exactly one pixel at \<open>0\<close>. The array \<open>[0, 0, 1]\<close> has range one and
  is its own normalisation: two pixels are \<open>0\<close>.
\<close>

theorem two_pixels_attain_zero:
  "normalise_image_f64 exact64 [[Fin 0, Fin 0, Fin 1]] \<lparr>buf = 0, shape = [3]\<rparr>
     = Inr ([[Fin 0, Fin 0, Fin 1], [Fin 0, Fin 0, Fin 1], [Fin 0, Fin 0, Fin 1]],
            \<lparr>buf = 2, shape = [3]\<rparr>) \<and>
   length (filter (\<lambda>v. v = Fin 0) [Fin 0, Fin 0, Fin 1]) = 2"
  by (simp add: normalise_image_f64_def np_min64_def np_max64_def np_sub_scalar64_def
      np_div_scalar64_def alloc64_def vals64_def fl_def exact64_def)

section \<open>The similarity evaluator\<close>

lemma normalise_image_result:
  assumes "normalise_image h img = Inr (h', out)"
  shows "prefix h h' \<and> buf out < length h' \<and> shape out = shape img \<and>
         vals h' out = minmax (vals h img) \<and> vals h img \<noteq> []"
proof (cases "vals h img = []")
  case True
  with assms show ?thesis by (simp add: normalise_image_empty)
next
  case False
  from assms normalise_image_unfold[OF False] False show ?thesis
    by (auto simp: Let_def minmax_def vals_def nth_append split: if_splits)
qed

lemma map_sum_bindE: "map_sum id f (bindE m g) = bindE m (\<lambda>x. map_sum id f (g x))"
  by (cases m) simp_all

lemma bindE_assoc: "bindE (bindE m f) g = bindE m (\<lambda>x. bindE (f x) g)"
  by (cases m) simp_all

lemma calc_sim_frame:
  assumes "calc_sim mt h l r acc = Inr (h', acc')"
  shows "prefix h h'"
proof -
  obtain pl sl spl where acc: "acc = (pl, sl, spl)" by (cases acc) auto
  from assms obtain h1 la where n1: "normalise_image h l = Inr (h1, la)"
    by (auto simp: calc_sim_def acc bindE_eq_Inr)
  from assms n1 obtain h2 ra where n2: "normalise_image h1 r = Inr (h2, ra)"
    by (auto simp: calc_sim_def acc bindE_eq_Inr)
  have p1: "prefix h h1" and p2: "prefix h1 h2"
    using normalise_image_result[OF n1] normalise_image_result[OF n2] by simp_all
  have "prefix h2 h'"
    using assms n1 n2
    by (auto simp: calc_sim_def acc bindE_eq_Inr np_rsub_scalar_def flatten_def hog_call_def
        alloc_def Let_def split: prod.splits)
  with p1 p2 show ?thesis by (meson prefix_order.order_trans)
qed

lemma calc_sim_unfold:
  assumes n1: "normalise_image h l = Inr (h1, la)"
    and n2: "normalise_image h1 r = Inr (h2, ra)"
    and vl: "buf l < length h" and vr: "buf r < length h"
  shows "map_sum id snd (calc_sim mt h l r (pl, sl, spl)) =
         map_sum id (\<lambda>(p, ss, sp). (pl @ [p], sl @ [ss], spl @ [sp]))
           (similarity mt (read h l) (read h r))"
proof -
  note r1 = normalise_image_result[OF n1] and r2 = normalise_image_result[OF n2]
  have vr1: "buf r < length h1" using r1 vr by (auto simp: prefix_def)
  have e1: "vals h1 r = vals h r" using r1 vr by (simp add: prefix_vals)
  have la2: "buf la < length h2" using r1 r2 by (auto simp: prefix_def)
  have ra2: "buf ra < length h2" using r2 by simp
  have L: "h2 ! buf la = minmax (vals h l)"
    using prefix_vals[of h1 h2 la] r1 r2 by (simp add: vals_def)
  have R: "h2 ! buf ra = minmax (vals h r)"
    using r2 e1 by (simp add: vals_def)
  have ne: "vals h l \<noteq> []" "vals h r \<noteq> []" using r1 r2 e1 by simp_all
  have sh: "shape la = shape l" "shape ra = shape r" using r1 r2 by simp_all
  note defs = calc_sim_def n1 n2 np_rsub_scalar_def flatten_def hog_call_def alloc_def
        vals_def nth_append Let_def map_sum_bindE L R sh similarity_def larger_of_def
        spearman_of_def ssim_of_def hog_pearson_of_def normalised_def complement_def read_def
        bindE_assoc
  show ?thesis
  proof (cases "hog mt (3, 3) (shape l) (minmax (h ! buf l))")
    case (Inl e)
    then show ?thesis using ne la2 ra2 by (simp add: defs)
  next
    case (Inr hl)
    then show ?thesis using ne la2 ra2 by (simp add: defs)
  qed
qed

lemma normalise_image_ok:
  assumes "vals h img \<noteq> []"
  obtains h' out where "normalise_image h img = Inr (h', out)"
  using normalise_image_unfold[OF assms] by (auto simp: Let_def split: if_splits)

lemma calc_sim_similarity:
  assumes vl: "buf l < length h" and vr: "buf r < length h"
  shows "map_sum id snd (calc_sim mt h l r (pl, sl, spl)) =
           map_sum id (\<lambda>(p, ss, sp). (pl @ [p], sl @ [ss], spl @ [sp]))
             (similarity mt (read h l) (read h r))"
proof (cases "vals h l = []")
    case True
    then show ?thesis
      by (simp add: calc_sim_def normalise_image_empty similarity_def read_def)
  next
    case False
    then obtain h1 la where n1: "normalise_image h l = Inr (h1, la)"
      by (rule normalise_image_ok)
    have e1: "vals h1 r = vals h r"
      using normalise_image_result[OF n1] vr by (simp add: prefix_vals)
    show ?thesis
    proof (cases "vals h r = []")
      case True
      with False e1 show ?thesis
        by (simp add: calc_sim_def n1 normalise_image_empty similarity_def read_def)
    next
      case False
      with e1 obtain h2 ra where n2: "normalise_image h1 r = Inr (h2, ra)"
        using normalise_image_ok[of h1 r] by auto
      show ?thesis by (rule calc_sim_unfold[OF n1 n2 vl vr])
    qed
qed

text \<open>
  C4. For two maps held in the heap, \<open>calc_sim\<close> fails or succeeds as \<open>similarity\<close> does
  on their pixels, and on success appends to each of the three lists the score that
  \<open>similarity\<close> gives: both maps are min-max normalised independently (unless the maximum is
  zero after the subtraction), each of Spearman, SSIM and Pearson-of-HOG (cell size three
  by three) is computed for the normalised candidate and for its complement, and the
  larger of the two is kept. On two numbers \<open>py_max\<close> is the larger in signed comparison.
\<close>

theorem calc_sim_scores:
  assumes vl: "buf l < length h" and vr: "buf r < length h"
  shows "map_sum id snd (calc_sim mt h l r (pl, sl, spl)) =
           map_sum id (\<lambda>(p, ss, sp). (pl @ [p], sl @ [ss], spl @ [sp]))
             (similarity mt (read h l) (read h r)) \<and>
         (\<forall>a b. py_max (Num a) (Num b) = Num (max a b))"
  using calc_sim_similarity[OF vl vr] by (simp add: py_max_Num)

theorem calc_sim_scores_witness:
  "buf \<lparr>buf = 0, shape = [2]\<rparr> < length [[0, 2], [1, 3, 5 :: real]] \<and>
   buf \<lparr>buf = 1, shape = [3]\<rparr> < length [[0, 2], [1, 3, 5 :: real]] \<and>
   map_sum id snd (calc_sim
      \<lparr>spearmanr = (\<lambda>a b. Inr (Num (sum_list a - sum_list b))),
       ssim = (\<lambda>d a b. Inr (Num (d + hd a))),
       hog = (\<lambda>pc sh xs. Inr xs),
       pearsonr = (\<lambda>a b. Inr (if a = b then NaN else Num (hd a)))\<rparr>
      [[0, 2], [1, 3, 5]] \<lparr>buf = 0, shape = [2]\<rparr> \<lparr>buf = 1, shape = [3]\<rparr> ([], [], []))
   = Inr ([Num 1], [Num 2], [Num (1 / 2)])"
  using calc_sim_scores [of "\<lparr>buf = 0, shape = [2]\<rparr>" "[[0, 2], [1, 3, 5]]" "\<lparr>buf = 1, shape = [3]\<rparr>"
      "\<lparr>spearmanr = (\<lambda>a b. Inr (Num (sum_list a - sum_list b))),
       ssim = (\<lambda>d a b. Inr (Num (d + hd a))),
       hog = (\<lambda>pc sh xs. Inr xs),
       pearsonr = (\<lambda>a b. Inr (if a = b then NaN else Num (hd a)))\<rparr>" "[]" "[]" "[]"]
  by (simp add: similarity_def read_def vals_def normalised_def minmax_def larger_of_def
      spearman_of_def ssim_of_def hog_pearson_of_def complement_def py_max_def)

section \<open>The steps of the episode\<close>

lemma adds_Nil: "adds s [] s' \<longleftrightarrow>
   model_list s' = model_list s \<and> pearson_list s' = pearson_list s \<and> ssim_list s' = ssim_list s \<and>
   spearman_list s' = spearman_list s \<and> action_list s' = action_list s"
  by (simp add: adds_def)

lemma adds_trans: "adds s r1 s1 \<Longrightarrow> adds s1 r2 s2 \<Longrightarrow> adds s (r1 @ r2) s2"
  by (simp add: adds_def)

lemma fixed_refl: "fixed s s"
  by (simp add: fixed_def)

lemma fixed_trans: "fixed s s1 \<Longrightarrow> fixed s1 s2 \<Longrightarrow> fixed s s2"
  unfolding fixed_def by (metis prefix_order.order_trans)

lemma fixed_read: "fixed s s' \<Longrightarrow> buf a < length (heap s) \<Longrightarrow> read (heap s') a = read (heap s) a"
  by (simp add: fixed_def read_def prefix_vals)

lemma fixed_valid: "fixed s s' \<Longrightarrow> buf a < length (heap s) \<Longrightarrow> buf a < length (heap s')"
  by (auto simp: fixed_def prefix_def)

lemma generate_rise_prediction_result:
  assumes "generate_rise_prediction x kw k inp sel s = Inr (t, s1)"
  shows "fixed s s1 \<and> adds s [] s1 \<and> length (analyzers s1) = length (analyzers s) \<and>
    (if masks_generated (analyzers s ! k)
     then heap s1 = heap s \<and> calls s1 = calls s \<and> analyzers s1 = analyzers s
     else \<exists>m sh. heap s1 = heap s @ [m] \<and> calls s1 = calls s @ [GenerateMasks k] \<and>
            analyzers s1 = (analyzers s)[k := (analyzers s ! k)
              \<lparr>rise_masks := Some \<lparr>buf = length (heap s), shape = sh\<rparr>, masks_generated := True\<rparr>])"
  using assms
  by (fastforce simp: generate_rise_prediction_def bindE_eq_Inr fixed_def adds_Nil returned_def
      new_array_def alloc_def emit_def split: if_splits option.splits prod.splits)

lemma saliency_fn_result:
  assumes "saliency_fn x approach kw k a sel s = Inr (r, s1)"
  shows "fixed s s1 \<and> adds s [] s1 \<and> length (analyzers s1) = length (analyzers s) \<and>
    buf r < length (heap s1) \<and> length (heap s) \<le> buf r \<and>
    vals (heap s1) r = vals (heap s1) (squeeze r) \<and>
    (if approach = ''rise'' \<and> \<not> masks_generated (analyzers s ! k)
     then calls s1 = calls s @ [Explain approach k (read (heap s) a) sel, GenerateMasks k] \<and>
          (\<exists>sh. analyzers s1 = (analyzers s)[k := (analyzers s ! k)
              \<lparr>rise_masks := Some \<lparr>buf = length (heap s), shape = sh\<rparr>, masks_generated := True\<rparr>]) \<and>
          length (heap s) < length (heap s1)
     else calls s1 = calls s @ [Explain approach k (read (heap s) a) sel] \<and>
          analyzers s1 = analyzers s)"
proof -
  define s0 where "s0 = emit (Explain approach k (read (heap s) a) sel) s"
  have s0: "heap s0 = heap s" "calls s0 = calls s @ [Explain approach k (read (heap s) a) sel]"
    "analyzers s0 = analyzers s" "fixed s s0" "adds s [] s0"
    by (simp_all add: s0_def emit_def fixed_def adds_Nil)
  define inner where "inner =
        (if approach = ''noise'' then
           bindE (explanation x ''generate_greydanus_explanation'' kw
                    (networks s ! amodel (analyzers s ! k)) (read (heap s) a) sel (world s0))
             (\<lambda>(t, w). Inr (t, s0\<lparr>world := w\<rparr>))
         else if approach = ''occl'' then
           bindE (explanation x ''generate_occlusion_explanation'' kw
                    (networks s ! amodel (analyzers s ! k)) (read (heap s) a) sel (world s0))
             (\<lambda>(t, w). Inr (t, s0\<lparr>world := w\<rparr>))
         else if approach = ''rise'' then
           generate_rise_prediction x kw k (read (heap s) a) sel s0
         else if approach = ''lime'' then
           bindE (lime_explanation x kw (networks s ! amodel (analyzers s ! k))
                    (read (heap s) a) sel (world s0)) (\<lambda>(ts, w).
             if length ts \<le> 2 then Inl IndexError else Inr (ts ! 2, s0\<lparr>world := w\<rparr>))
         else if approach = ''sarfa'' then
           bindE (explanation x ''generate_sarfa_explanation'' kw
                    (networks s ! amodel (analyzers s ! k)) (read (heap s) a) sel (world s0))
             (\<lambda>(t, w). Inr (t, s0\<lparr>world := w\<rparr>))
         else Inl UnboundLocalError)"
  have sf: "saliency_fn x approach kw k a sel s = bindE inner (\<lambda>(t, s1). Inr (returned t s1))"
    unfolding saliency_fn_def Let_def inner_def s0_def by (rule refl)
  obtain t s' where inner: "inner = Inr (t, s')" and ret: "returned t s' = (r, s1)"
    using assms unfolding sf by (cases inner) auto
  have ret': "fixed s' s1 \<and> adds s' [] s1 \<and> analyzers s1 = analyzers s' \<and> calls s1 = calls s' \<and>
      buf r < length (heap s1) \<and> length (heap s') < length (heap s1) \<and> buf r = length (heap s')"
    using ret by (auto simp: returned_def new_array_def alloc_def fixed_def adds_Nil)
  have sq: "vals (heap s1) r = vals (heap s1) (squeeze r)"
    by (simp add: vals_def squeeze_def)
  show ?thesis
  proof (cases "approach = ''rise''")
    case True
    with inner have g: "generate_rise_prediction x kw k (read (heap s) a) sel s0 = Inr (t, s')"
      by (simp add: inner_def)
    note gr = generate_rise_prediction_result[OF g]
    from gr s0 have "length (heap s) \<le> length (heap s')"
      by (auto simp: fixed_def prefix_def)
    with gr s0 ret' sq True show ?thesis
      by (auto simp: adds_Nil intro: fixed_trans dest: fixed_valid split: if_splits)
  next
    case False
    with inner have "fixed s0 s' \<and> adds s0 [] s' \<and> analyzers s' = analyzers s0 \<and> calls s' = calls s0"
      by (auto simp: inner_def bindE_eq_Inr fixed_def adds_Nil split: if_splits)
    moreover from this s0 have "length (heap s) \<le> length (heap s')"
      by (auto simp: fixed_def prefix_def)
    ultimately show ?thesis using s0 ret' sq False
      by (auto simp: adds_Nil intro: fixed_trans)
  qed
qed

lemma calc_sim_call_result:
  assumes c: "calc_sim_call mt og cand s = Inr s'"
    and vo: "buf og < length (heap s)" and vc: "buf cand < length (heap s)"
  shows "\<exists>sc. similarity mt (read (heap s) og) (read (heap s) cand) = Inr sc \<and>
           adds s [(l, sc, a)] (s'\<lparr>model_list := model_list s' @ [l],
                                   action_list := action_list s' @ [a]\<rparr>) \<and>
           fixed s s' \<and> calls s' = calls s \<and> analyzers s' = analyzers s \<and>
           model_list s' = model_list s \<and> action_list s' = action_list s"
proof -
  from c obtain h pl sl spl where
    cs: "calc_sim mt (heap s) og cand (pearson_list s, ssim_list s, spearman_list s) = Inr (h, pl, sl, spl)"
    and s': "s' = s\<lparr>heap := h, pearson_list := pl, ssim_list := sl, spearman_list := spl\<rparr>"
    by (auto simp: calc_sim_call_def bindE_eq_Inr)
  have pf: "prefix (heap s) h" using calc_sim_frame[OF cs] .
  from calc_sim_similarity[OF vo vc, of mt "pearson_list s" "ssim_list s" "spearman_list s"] cs
  obtain sc where sim: "similarity mt (read (heap s) og) (read (heap s) cand) = Inr sc"
    and l: "pl = pearson_list s @ [fst sc]" "sl = ssim_list s @ [fst (snd sc)]"
      "spl = spearman_list s @ [snd (snd sc)]"
    by (cases "similarity mt (read (heap s) og) (read (heap s) cand)") (auto simp: split_beta)
  show ?thesis
    using sim l pf by (auto simp: s' adds_def fixed_def)
qed

lemma variant_block_result:
  assumes vb: "variant_block x mt approach kw k og inp action s = Inr s'"
    and vo: "buf og < length (heap s)"
  shows "\<exists>cand sc. similarity mt (read (heap s) og) cand = Inr sc \<and>
           adds s [(int k, sc, action)] s' \<and> fixed s s' \<and>
           length (analyzers s') = length (analyzers s) \<and>
           prefix (calls s) (calls s') \<and>
           filter (\<lambda>e. \<not> is_generate e) (new_calls s s') =
             [Explain approach k (read (heap s) inp) (Some action)] \<and>
           (approach \<noteq> ''rise'' \<or> masks_generated (analyzers s ! k) \<longrightarrow>
              analyzers s' = analyzers s \<and>
              calls s' = calls s @ [Explain approach k (read (heap s) inp) (Some action)])"
proof -
  from vb obtain r s1 s2 where
    sf: "saliency_fn x approach kw k inp (Some action) s = Inr (r, s1)"
    and cs: "calc_sim_call mt og (squeeze r) s1 = Inr s2"
    and s': "s' = s2\<lparr>action_list := action_list s2 @ [action],
                     model_list := model_list s2 @ [int k]\<rparr>"
    by (auto simp: variant_block_def bindE_eq_Inr Let_def)
  note a = saliency_fn_result[OF sf]
  have f1: "fixed s s1" using a by simp
  have vo1: "buf og < length (heap s1)" using fixed_valid[OF f1 vo] .
  have vr: "buf (squeeze r) < length (heap s1)" using a by (simp add: squeeze_def)
  from calc_sim_call_result[OF cs vo1 vr, of "int k" action]
  obtain sc where sim: "similarity mt (read (heap s1) og) (read (heap s1) (squeeze r)) = Inr sc"
    and ad: "adds s1 [(int k, sc, action)] (s2\<lparr>model_list := model_list s2 @ [int k],
                                   action_list := action_list s2 @ [action]\<rparr>)"
    and f2: "fixed s1 s2" and rest: "calls s2 = calls s1" "analyzers s2 = analyzers s1"
    by blast
  have ro: "read (heap s1) og = read (heap s) og" using fixed_read[OF f1 vo] .
  have ad': "adds s [(int k, sc, action)] s'"
    using a ad by (simp add: adds_def s')
  have fx: "fixed s s'" using fixed_trans[OF f1 f2] by (simp add: s' fixed_def)
  have calls': "calls s' = calls s1" "analyzers s' = analyzers s1"
    using rest by (simp_all add: s')
  show ?thesis
    apply (rule exI[of _ "read (heap s1) (squeeze r)"], rule exI[of _ sc])
    using sim ro ad' fx a calls'
    by (auto simp: new_calls_def split: if_splits)
qed

lemma baseline_block_result:
  assumes bb: "baseline_block mt e drawn label og action s = Inr s'"
    and vo: "buf og < length (heap s)"
  shows "\<exists>cand sc. similarity mt (read (heap s) og) cand = Inr sc \<and>
           adds s [(label, sc, action)] s' \<and> fixed s s' \<and>
           analyzers s' = analyzers s \<and> calls s' = calls s @ [e]"
proof -
  obtain pixels w where d: "drawn = (pixels, w)" by (cases drawn)
  obtain test s1 where r: "returned ([84, 84], pixels) (emit e (s\<lparr>world := w\<rparr>)) = (test, s1)"
    by (cases "returned ([84, 84], pixels) (emit e (s\<lparr>world := w\<rparr>))")
  from bb d r obtain s2 where
    cs: "calc_sim_call mt og test s1 = Inr s2"
    and s': "s' = s2\<lparr>action_list := action_list s2 @ [action],
                     model_list := model_list s2 @ [label]\<rparr>"
    by (auto simp: baseline_block_def bindE_eq_Inr Let_def)
  have r': "fixed s s1" "adds s [] s1" "analyzers s1 = analyzers s" "calls s1 = calls s @ [e]"
    "buf test < length (heap s1)"
    using r by (auto simp: returned_def new_array_def alloc_def emit_def fixed_def adds_Nil)
  have vo1: "buf og < length (heap s1)" using fixed_valid[OF r'(1) vo] .
  from calc_sim_call_result[OF cs vo1 r'(5), of label action]
  obtain sc where sim: "similarity mt (read (heap s1) og) (read (heap s1) test) = Inr sc"
    and ad: "adds s1 [(label, sc, action)] (s2\<lparr>model_list := model_list s2 @ [label],
                                   action_list := action_list s2 @ [action]\<rparr>)"
    and f2: "fixed s1 s2" and rest: "calls s2 = calls s1" "analyzers s2 = analyzers s1"
    by blast
  have ro: "read (heap s1) og = read (heap s) og" using fixed_read[OF r'(1) vo] .
  have ad': "adds s [(label, sc, action)] s'"
    using r'(2) ad by (simp add: adds_def s')
  have fx: "fixed s s'" using fixed_trans[OF r'(1) f2] by (simp add: s' fixed_def)
  show ?thesis
    apply (rule exI[of _ "read (heap s1) test"], rule exI[of _ sc])
    using sim ro ad' fx r' rest by (simp add: s')
qed

lemma new_calls_trans:
  "prefix (calls s) (calls s1) \<Longrightarrow> prefix (calls s1) (calls s2) \<Longrightarrow>
   new_calls s s2 = new_calls s s1 @ new_calls s1 s2"
  by (auto simp: new_calls_def prefix_def)

lemma new_calls_append: "calls s' = calls s @ evs \<Longrightarrow> new_calls s s' = evs"
  by (simp add: new_calls_def)

lemma compared_snoc:
  assumes "compared mt ref action ls s s1" and "similarity mt ref cand = Inr sc"
    and "adds s1 [(l, sc, action)] s2"
  shows "compared mt ref action (ls @ [l]) s s2"
proof -
  from assms(1) obtain scs where scs: "length scs = length ls"
    "list_all (\<lambda>sc. \<exists>cand. similarity mt ref cand = Inr sc) scs"
    "adds s (map (\<lambda>(l, sc). (l, sc, action)) (zip ls scs)) s1"
    by (auto simp: compared_def)
  have "adds s (map (\<lambda>(l, sc). (l, sc, action)) (zip (ls @ [l]) (scs @ [sc]))) s2"
    using adds_trans[OF scs(3) assms(3)] scs(1) by simp
  moreover have "\<exists>cand. similarity mt ref cand = Inr sc" using assms(2) by blast
  ultimately show ?thesis
    using scs unfolding compared_def by (intro exI[of _ "scs @ [sc]"]) auto
qed

lemma quiet_generated:
  "quiet approach s \<Longrightarrow> k < 6 \<Longrightarrow> approach \<noteq> ''rise'' \<or> masks_generated (analyzers s ! k)"
  by (auto simp: quiet_def list_all_length)

lemma outcome_variant:
  assumes o: "outcome mt approach ref action ls evs s sa"
    and vb: "variant_block x mt approach kw k og inp action sa = Inr sb"
    and vo: "buf og < length (heap sa)" and ro: "read (heap sa) og = ref"
    and vi: "buf inp < length (heap s)" and k: "k < 6"
  shows "outcome mt approach ref action (ls @ [int k])
           (evs @ [Explain approach k (read (heap s) inp) (Some action)]) s sb"
proof -
  from variant_block_result[OF vb vo] obtain cand sc where
    sim: "similarity mt (read (heap sa) og) cand = Inr sc"
    and ad: "adds sa [(int k, sc, action)] sb" and fx: "fixed sa sb"
    and la: "length (analyzers sb) = length (analyzers sa)"
    and pc: "prefix (calls sa) (calls sb)"
    and fl: "filter (\<lambda>e. \<not> is_generate e) (new_calls sa sb) =
             [Explain approach k (read (heap sa) inp) (Some action)]"
    and q: "approach \<noteq> ''rise'' \<or> masks_generated (analyzers sa ! k) \<longrightarrow>
              analyzers sb = analyzers sa \<and>
              calls sb = calls sa @ [Explain approach k (read (heap sa) inp) (Some action)]"
    by blast
  from o have c: "compared mt ref action ls s sa" and f0: "fixed s sa"
    and l0: "length (analyzers sa) = length (analyzers s)" and p0: "prefix (calls s) (calls sa)"
    and fl0: "filter (\<lambda>e. \<not> is_generate e) (new_calls s sa) = evs"
    and q0: "quiet approach s \<longrightarrow> analyzers sa = analyzers s \<and> new_calls s sa = evs"
    by (simp_all add: outcome_def)
  have ri: "read (heap sa) inp = read (heap s) inp" using fixed_read[OF f0 vi] .
  have c': "compared mt ref action (ls @ [int k]) s sb"
    using compared_snoc[OF c _ ad] sim ro by simp
  have nc: "new_calls s sb = new_calls s sa @ new_calls sa sb"
    using new_calls_trans[OF p0 pc] .
  have "quiet approach s \<longrightarrow> analyzers sb = analyzers s \<and>
      new_calls s sb = evs @ [Explain approach k (read (heap s) inp) (Some action)]"
  proof
    assume qs: "quiet approach s"
    with q0 have e: "analyzers sa = analyzers s" "new_calls s sa = evs" by simp_all
    from quiet_generated[OF qs k] e have "approach \<noteq> ''rise'' \<or> masks_generated (analyzers sa ! k)"
      by simp
    with q have "analyzers sb = analyzers sa"
      "calls sb = calls sa @ [Explain approach k (read (heap sa) inp) (Some action)]" by simp_all
    with e nc ri show "analyzers sb = analyzers s \<and>
      new_calls s sb = evs @ [Explain approach k (read (heap s) inp) (Some action)]"
      by (simp add: new_calls_append)
  qed
  with c' fixed_trans[OF f0 fx] la l0 p0 pc nc fl fl0 ri show ?thesis
    unfolding outcome_def by (auto intro: prefix_order.order_trans)
qed

lemma outcome_baseline:
  assumes o: "outcome mt approach ref action ls evs s sa"
    and bb: "baseline_block mt e drawn label og action sa = Inr sb"
    and vo: "buf og < length (heap sa)" and ro: "read (heap sa) og = ref"
    and ng: "\<not> is_generate e"
  shows "outcome mt approach ref action (ls @ [label]) (evs @ [e]) s sb"
proof -
  from baseline_block_result[OF bb vo] obtain cand sc where
    sim: "similarity mt (read (heap sa) og) cand = Inr sc"
    and ad: "adds sa [(label, sc, action)] sb" and fx: "fixed sa sb"
    and an: "analyzers sb = analyzers sa" and cl: "calls sb = calls sa @ [e]"
    by blast
  from o have c: "compared mt ref action ls s sa" and f0: "fixed s sa"
    and l0: "length (analyzers sa) = length (analyzers s)" and p0: "prefix (calls s) (calls sa)"
    and fl0: "filter (\<lambda>e. \<not> is_generate e) (new_calls s sa) = evs"
    and q0: "quiet approach s \<longrightarrow> analyzers sa = analyzers s \<and> new_calls s sa = evs"
    by (simp_all add: outcome_def)
  have c': "compared mt ref action (ls @ [label]) s sb"
    using compared_snoc[OF c _ ad] sim ro by simp
  have pc: "prefix (calls sa) (calls sb)" using cl by simp
  have nc: "new_calls s sb = new_calls s sa @ [e]"
    using new_calls_trans[OF p0 pc] new_calls_append[OF cl] by simp
  from c' fixed_trans[OF f0 fx] an l0 p0 pc nc fl0 q0 ng show ?thesis
    unfolding outcome_def by (auto intro: prefix_order.order_trans)
qed

lemma policy_step_result:
  assumes ps: "policy_step x mt approach kw s = Inr (action, s')"
    and fr: "stacked_frames s = Some frames" and vf: "buf frames < length (heap s)"
  shows "\<exists>out og. predict x (networks s ! model s) (read (heap s) (expand_dims0 frames)) = Inr out \<and>
      np_argmax (snd out) = Inr action \<and> buf og < length (heap s') \<and>
      length (heap s) \<le> buf og \<and>
      outcome mt approach (read (heap s') og) action [1, 2, 3, 4, 5, 6, 7]
        (step_calls approach (model s) (read (heap s) frames) action) s s'"
proof -
  from ps fr obtain out where
    pr: "predict x (networks s ! model s) (read (heap s) (expand_dims0 frames)) = Inr out"
    by (auto simp: policy_step_def Let_def bindE_eq_Inr)
  obtain outp s0 where
    ret: "returned out (emit (Predict (model s) (read (heap s) (expand_dims0 frames))) s) = (outp, s0)"
    by (cases "returned out (emit (Predict (model s) (read (heap s) (expand_dims0 frames))) s)")
  from ps obtain r s1 s2 s3 s4 s5 s6 s7 where
    am: "np_argmax (vals (heap s0) (squeeze outp)) = Inr action"
    and sf: "saliency_fn x approach kw 0 (squeeze (expand_dims0 frames)) (Some action) s0 = Inr (r, s1)"
    and v1: "variant_block x mt approach kw 1 (squeeze r) (squeeze (expand_dims0 frames)) action s1 = Inr s2"
    and v2: "variant_block x mt approach kw 2 (squeeze r) (squeeze (expand_dims0 frames)) action s2 = Inr s3"
    and v3: "variant_block x mt approach kw 3 (squeeze r) (squeeze (expand_dims0 frames)) action s3 = Inr s4"
    and v4: "variant_block x mt approach kw 4 (squeeze r) (squeeze (expand_dims0 frames)) action s4 = Inr s5"
    and v5: "variant_block x mt approach kw 5 (squeeze r) (squeeze (expand_dims0 frames)) action s5 = Inr s6"
    and b6: "baseline_block mt (RandUniform [84, 84]) (random_rand x [84, 84] (world s6))
               6 (squeeze r) action s6 = Inr s7"
    and b7: "baseline_block mt (RandNormal [84, 84]) (random_normal x [84, 84] (world s7))
               7 (squeeze r) action s7 = Inr s'"
    by (auto simp: policy_step_def fr Let_def pr ret bindE_eq_Inr)
  define inp0 where "inp0 = read (heap s) (expand_dims0 frames)"
  define my_input where "my_input = squeeze (expand_dims0 frames)"
  note pr = pr[folded inp0_def] and ret = ret[folded inp0_def]
    and sf = sf[folded my_input_def] and v1 = v1[folded my_input_def]
    and v2 = v2[folded my_input_def] and v3 = v3[folded my_input_def]
    and v4 = v4[folded my_input_def] and v5 = v5[folded my_input_def]
  define og where "og = squeeze r"
  define ref where "ref = read (heap s1) og"
  define inp where "inp = read (heap s) my_input"
  have vi: "buf my_input < length (heap s)"
    using vf by (simp add: my_input_def squeeze_def expand_dims0_def)
  have out: "vals (heap s0) (squeeze outp) = snd out"
    using ret by (auto simp: returned_def new_array_def alloc_def emit_def vals_def squeeze_def)
  \<comment> \<open>the prediction\<close>
  have o0: "outcome mt approach ref action [] [Predict (model s) inp0] s s0"
    using ret
    by (auto simp: outcome_def compared_def adds_Nil fixed_def returned_def new_array_def
        alloc_def emit_def new_calls_def)
  \<comment> \<open>the explanation of the original model\<close>
  note a = saliency_fn_result[OF sf]
  have f01: "fixed s0 s1" using a by simp
  have vi0: "buf my_input < length (heap s0)"
    using o0 vi by (auto simp: outcome_def dest: fixed_valid)
  have ri0: "read (heap s0) my_input = inp"
    using o0 vi by (auto simp: outcome_def inp_def dest: fixed_read)
  have o1: "outcome mt approach ref action [] [Predict (model s) inp0, Explain approach 0 inp (Some action)] s s1"
  proof -
    from o0 have f0: "fixed s s0" and l0: "length (analyzers s0) = length (analyzers s)"
      and p0: "prefix (calls s) (calls s0)"
      and fl0: "filter (\<lambda>e. \<not> is_generate e) (new_calls s s0) = [Predict (model s) inp0]"
      and q0: "quiet approach s \<longrightarrow> analyzers s0 = analyzers s \<and> new_calls s s0 = [Predict (model s) inp0]"
      and ad0: "adds s [] s0"
      by (simp_all add: outcome_def compared_def)
    have pc: "prefix (calls s0) (calls s1)" using a by (auto split: if_splits)
    have nc: "new_calls s s1 = new_calls s s0 @ new_calls s0 s1"
      using new_calls_trans[OF p0 pc] .
    have fl: "filter (\<lambda>e. \<not> is_generate e) (new_calls s0 s1) = [Explain approach 0 inp (Some action)]"
      using a ri0 by (auto simp: new_calls_def split: if_splits)
    have ad: "adds s [] s1" using ad0 a by (simp add: adds_Nil)
    have "quiet approach s \<longrightarrow> analyzers s1 = analyzers s \<and>
        new_calls s s1 = [Predict (model s) inp0, Explain approach 0 inp (Some action)]"
    proof
      assume qs: "quiet approach s"
      with q0 have e: "analyzers s0 = analyzers s" "new_calls s s0 = [Predict (model s) inp0]"
        by simp_all
      from quiet_generated[OF qs, of 0] e
      have "approach \<noteq> ''rise'' \<or> masks_generated (analyzers s0 ! 0)" by simp
      with a ri0 have "analyzers s1 = analyzers s0"
        "calls s1 = calls s0 @ [Explain approach 0 inp (Some action)]"
        by (auto split: if_splits)
      with e nc show "analyzers s1 = analyzers s \<and>
        new_calls s s1 = [Predict (model s) inp0, Explain approach 0 inp (Some action)]"
        by (simp add: new_calls_append)
    qed
    with ad fixed_trans[OF f0 f01] a l0 p0 pc nc fl fl0 show ?thesis
      unfolding outcome_def compared_def by (auto intro: prefix_order.order_trans)
  qed
  have vo1: "buf og < length (heap s1)" using a by (simp add: og_def squeeze_def)
  have lo: "length (heap s) \<le> buf og"
  proof -
    from o0 have "length (heap s) \<le> length (heap s0)"
      by (auto simp: outcome_def fixed_def prefix_def)
    with a show ?thesis by (simp add: og_def squeeze_def)
  qed
  \<comment> \<open>the seven comparisons\<close>
  note step = outcome_variant[where og = og and inp = my_input and ref = ref, OF _ _ _ _ vi,
      folded inp_def]
  have fx: "\<And>t. outcome mt approach ref action ls evs s t \<Longrightarrow> fixed s1 t \<Longrightarrow>
      buf og < length (heap t) \<and> read (heap t) og = ref" for ls evs
    using vo1 by (auto simp: ref_def dest: fixed_valid fixed_read)
  have v1': "variant_block x mt approach kw 1 og my_input action s1 = Inr s2"
    and v2': "variant_block x mt approach kw 2 og my_input action s2 = Inr s3"
    and v3': "variant_block x mt approach kw 3 og my_input action s3 = Inr s4"
    and v4': "variant_block x mt approach kw 4 og my_input action s4 = Inr s5"
    and v5': "variant_block x mt approach kw 5 og my_input action s5 = Inr s6"
    and b6': "baseline_block mt (RandUniform [84, 84]) (random_rand x [84, 84] (world s6))
               6 og action s6 = Inr s7"
    and b7': "baseline_block mt (RandNormal [84, 84]) (random_normal x [84, 84] (world s7))
               7 og action s7 = Inr s'"
    using v1 v2 v3 v4 v5 b6 b7 by (simp_all add: og_def)
  have f12: "fixed s1 s2" using variant_block_result[OF v1' vo1] by blast
  have vo2: "buf og < length (heap s2)" using fixed_valid[OF f12 vo1] .
  have f23: "fixed s2 s3" using variant_block_result[OF v2' vo2] by blast
  have vo3: "buf og < length (heap s3)" using fixed_valid[OF f23 vo2] .
  have f34: "fixed s3 s4" using variant_block_result[OF v3' vo3] by blast
  have vo4: "buf og < length (heap s4)" using fixed_valid[OF f34 vo3] .
  have f45: "fixed s4 s5" using variant_block_result[OF v4' vo4] by blast
  have vo5: "buf og < length (heap s5)" using fixed_valid[OF f45 vo4] .
  have f56: "fixed s5 s6" using variant_block_result[OF v5' vo5] by blast
  have vo6: "buf og < length (heap s6)" using fixed_valid[OF f56 vo5] .
  have f67: "fixed s6 s7" using baseline_block_result[OF b6' vo6] by blast
  have vo7: "buf og < length (heap s7)" using fixed_valid[OF f67 vo6] .
  have f78: "fixed s7 s'" using baseline_block_result[OF b7' vo7] by blast
  have vo8: "buf og < length (heap s')" using fixed_valid[OF f78 vo7] .
  have r2: "read (heap s2) og = ref" using fixed_read[OF f12 vo1] by (simp add: ref_def)
  have r3: "read (heap s3) og = ref" using fixed_read[OF f23 vo2] r2 by simp
  have r4: "read (heap s4) og = ref" using fixed_read[OF f34 vo3] r3 by simp
  have r5: "read (heap s5) og = ref" using fixed_read[OF f45 vo4] r4 by simp
  have r6: "read (heap s6) og = ref" using fixed_read[OF f56 vo5] r5 by simp
  have r7: "read (heap s7) og = ref" using fixed_read[OF f67 vo6] r6 by simp
  have r8: "read (heap s') og = ref" using fixed_read[OF f78 vo7] r7 by simp
  have o2: "outcome mt approach ref action ([] @ [int 1])
      ([Predict (model s) inp0, Explain approach 0 inp (Some action)] @
       [Explain approach 1 inp (Some action)]) s s2"
    by (rule step[OF o1 v1' vo1]) (simp_all add: ref_def)
  have o3: "outcome mt approach ref action (([] @ [int 1]) @ [int 2])
      (([Predict (model s) inp0, Explain approach 0 inp (Some action)] @
       [Explain approach 1 inp (Some action)]) @ [Explain approach 2 inp (Some action)]) s s3"
    by (rule step[OF o2 v2' vo2 r2]) simp
  have o4: "outcome mt approach ref action ((([] @ [int 1]) @ [int 2]) @ [int 3])
      ((([Predict (model s) inp0, Explain approach 0 inp (Some action)] @
       [Explain approach 1 inp (Some action)]) @ [Explain approach 2 inp (Some action)]) @
       [Explain approach 3 inp (Some action)]) s s4"
    by (rule step[OF o3 v3' vo3 r3]) simp
  have o5: "outcome mt approach ref action (((([] @ [int 1]) @ [int 2]) @ [int 3]) @ [int 4])
      (((([Predict (model s) inp0, Explain approach 0 inp (Some action)] @
       [Explain approach 1 inp (Some action)]) @ [Explain approach 2 inp (Some action)]) @
       [Explain approach 3 inp (Some action)]) @ [Explain approach 4 inp (Some action)]) s s5"
    by (rule step[OF o4 v4' vo4 r4]) simp
  have o6: "outcome mt approach ref action
      ((((([] @ [int 1]) @ [int 2]) @ [int 3]) @ [int 4]) @ [int 5])
      ((((([Predict (model s) inp0, Explain approach 0 inp (Some action)] @
       [Explain approach 1 inp (Some action)]) @ [Explain approach 2 inp (Some action)]) @
       [Explain approach 3 inp (Some action)]) @ [Explain approach 4 inp (Some action)]) @
       [Explain approach 5 inp (Some action)]) s s6"
    by (rule step[OF o5 v5' vo5 r5]) simp
  have o7: "outcome mt approach ref action
      (((((([] @ [int 1]) @ [int 2]) @ [int 3]) @ [int 4]) @ [int 5]) @ [6])
      (((((([Predict (model s) inp0, Explain approach 0 inp (Some action)] @
       [Explain approach 1 inp (Some action)]) @ [Explain approach 2 inp (Some action)]) @
       [Explain approach 3 inp (Some action)]) @ [Explain approach 4 inp (Some action)]) @
       [Explain approach 5 inp (Some action)]) @ [RandUniform [84, 84]]) s s7"
    by (rule outcome_baseline[OF o6 b6' vo6 r6]) simp
  have o8: "outcome mt approach ref action
      ((((((([] @ [int 1]) @ [int 2]) @ [int 3]) @ [int 4]) @ [int 5]) @ [6]) @ [7])
      ((((((([Predict (model s) inp0, Explain approach 0 inp (Some action)] @
       [Explain approach 1 inp (Some action)]) @ [Explain approach 2 inp (Some action)]) @
       [Explain approach 3 inp (Some action)]) @ [Explain approach 4 inp (Some action)]) @
       [Explain approach 5 inp (Some action)]) @ [RandUniform [84, 84]]) @
       [RandNormal [84, 84]]) s s'"
    by (rule outcome_baseline[OF o7 b7' vo7 r7]) simp
  have sc: "step_calls approach (model s) (read (heap s) frames) action =
      [Predict (model s) inp0, Explain approach 0 inp (Some action),
       Explain approach 1 inp (Some action), Explain approach 2 inp (Some action),
       Explain approach 3 inp (Some action), Explain approach 4 inp (Some action),
       Explain approach 5 inp (Some action), RandUniform [84, 84], RandNormal [84, 84]]"
    by (simp add: step_calls_def inp0_def inp_def my_input_def read_def vals_def squeeze_def
        expand_dims0_def upt_rec[of 0] upt_rec[of 1] upt_rec[of 2] upt_rec[of 3] upt_rec[of 4]
        upt_rec[of 5] numeral_eq_Suc)
  from o8 have "outcome mt approach (read (heap s') og) action [1, 2, 3, 4, 5, 6, 7]
        (step_calls approach (model s) (read (heap s) frames) action) s s'"
    by (simp add: sc r8)
  with pr am out vo8 lo show ?thesis
    by (auto simp: inp0_def)
qed

lemma loop_body_unfold:
  "loop_body x mt game approach kw i s =
     bindE (if i < 4 then warm_up x game approach kw i (s\<lparr>calls := calls s @ progress_prints x i s\<rparr>)
            else policy_step x mt approach kw (s\<lparr>calls := calls s @ progress_prints x i s\<rparr>))
       (\<lambda>(action, s1).
      bindE (wrapper_step x action (world s1)) (\<lambda>(t, w).
      case returned t (emit (WrapperStep action) (s1\<lparr>world := w\<rparr>)) of (frames, s2) \<Rightarrow>
      Inr (s2\<lparr>stacked_frames := Some frames\<rparr>)))"
proof -
  have "(if i mod 10 = 0
         then emit (Print [PReal (default_timer x (world s))]) (emit (Print [PInt (int i)]) s)
         else s) = s\<lparr>calls := calls s @ progress_prints x i s\<rparr>"
    by (simp add: progress_prints_def emit_def)
  then show ?thesis
    by (simp add: loop_body_def Let_def)
qed

lemma env_step_result:
  assumes "bindE (wrapper_step x action (world s1)) (\<lambda>(t, w).
      case returned t (emit (WrapperStep action) (s1\<lparr>world := w\<rparr>)) of (frames, s2) \<Rightarrow>
      Inr (s2\<lparr>stacked_frames := Some frames\<rparr>)) = Inr s'"
  shows "adds s1 [] s' \<and> calls s' = calls s1 @ [WrapperStep action] \<and>
     analyzers s' = analyzers s1 \<and> prefix (heap s1) (heap s') \<and> networks s' = networks s1 \<and>
     model s' = model s1 \<and> frames_ok s' \<and> stacked_frames s' \<noteq> None"
  using assms
  by (auto simp: bindE_eq_Inr returned_def new_array_def alloc_def emit_def adds_Nil
      frames_ok_def)

lemma outcome_after_prints:
  assumes o: "outcome mt approach ref action ls evs (s\<lparr>calls := calls s @ pr\<rparr>) s1"
    and ng: "list_all (\<lambda>e. \<not> is_generate e) pr"
  shows "outcome mt approach ref action ls (pr @ evs) s s1"
proof -
  let ?s0 = "s\<lparr>calls := calls s @ pr\<rparr>"
  have p0: "prefix (calls s) (calls ?s0)" by simp
  from o have p1: "prefix (calls ?s0) (calls s1)" by (simp add: outcome_def)
  have nc: "new_calls s s1 = pr @ new_calls ?s0 s1"
    using new_calls_trans[OF p0 p1] by (simp add: new_calls_def)
  have fp: "filter (\<lambda>e. \<not> is_generate e) pr = pr"
    using ng by (simp add: list_all_iff)
  have q: "quiet approach ?s0 = quiet approach s" by (simp add: quiet_def)
  from o have "compared mt ref action ls s s1"
    by (simp add: outcome_def compared_def adds_def)
  moreover from o have "fixed s s1" by (simp add: outcome_def fixed_def)
  ultimately show ?thesis
    using o p1 nc fp q unfolding outcome_def
    by (auto simp: prefix_def)
qed

lemma progress_prints_not_generate: "list_all (\<lambda>e. \<not> is_generate e) (progress_prints x i s)"
  by (simp add: progress_prints_def)

lemma loop_body_policy:
  assumes lb: "loop_body x mt game approach kw i s = Inr s'" and i: "4 \<le> i"
    and fr: "stacked_frames s = Some frames" and vf: "buf frames < length (heap s)"
  shows "\<exists>out og action s1.
      predict x (networks s ! model s) (read (heap s) (expand_dims0 frames)) = Inr out \<and>
      np_argmax (snd out) = Inr action \<and> buf og < length (heap s1) \<and>
      outcome mt approach (read (heap s1) og) action [1, 2, 3, 4, 5, 6, 7]
        (progress_prints x i s @ step_calls approach (model s) (read (heap s) frames) action) s s1 \<and>
      adds s1 [] s' \<and> calls s' = calls s1 @ [WrapperStep action] \<and>
      analyzers s' = analyzers s1 \<and> prefix (heap s1) (heap s') \<and> networks s' = networks s1 \<and>
      model s' = model s1 \<and> frames_ok s' \<and> stacked_frames s' \<noteq> None"
proof -
  let ?s0 = "s\<lparr>calls := calls s @ progress_prints x i s\<rparr>"
  from lb i obtain action s1 where
    ps: "policy_step x mt approach kw ?s0 = Inr (action, s1)"
    and st: "bindE (wrapper_step x action (world s1)) (\<lambda>(t, w).
      case returned t (emit (WrapperStep action) (s1\<lparr>world := w\<rparr>)) of (frames, s2) \<Rightarrow>
      Inr (s2\<lparr>stacked_frames := Some frames\<rparr>)) = Inr s'"
    unfolding loop_body_unfold by (auto simp: bindE_eq_Inr)
  have fr0: "stacked_frames ?s0 = Some frames" and vf0: "buf frames < length (heap ?s0)"
    using fr vf by simp_all
  from policy_step_result[OF ps fr0 vf0] obtain out og where
    pr: "predict x (networks s ! model s) (read (heap s) (expand_dims0 frames)) = Inr out"
    and am: "np_argmax (snd out) = Inr action" and vo: "buf og < length (heap s1)"
    and o: "outcome mt approach (read (heap s1) og) action [1, 2, 3, 4, 5, 6, 7]
        (step_calls approach (model s) (read (heap s) frames) action) ?s0 s1"
    by auto
  note o' = outcome_after_prints[OF o progress_prints_not_generate]
  from env_step_result[OF st] pr am vo o' show ?thesis by blast
qed

lemma warm_up_plain:
  assumes wu: "warm_up x game approach kw i s = Inr (action, s1)"
    and nr: "\<not> (approach = ''rise'' \<and> i = 3)"
  shows "action = (if game = ''breakout'' then 1 else 0) \<and> adds s [] s1 \<and> fixed s s1 \<and>
         heap s1 = heap s \<and> analyzers s1 = analyzers s \<and> calls s1 = calls s @ [Sample]"
  using assms
  by (auto simp: warm_up_def bindE_eq_Inr Let_def emit_def adds_Nil fixed_def split: if_splits)

lemma share_masks_nth:
  "k < length (analyzers s) \<Longrightarrow> 0 < k \<Longrightarrow>
   analyzers (share_masks k s) ! j =
     (if j = k then (analyzers s ! k)\<lparr>rise_masks := rise_masks (analyzers s ! 0), masks_generated := True\<rparr>
      else analyzers s ! j)"
  by (simp add: share_masks_def nth_list_update)

lemma share_all:
  fixes s :: "'w state"
  assumes len: "6 \<le> length (analyzers s)"
  defines "s' \<equiv> share_masks 5 (share_masks 4 (share_masks 3 (share_masks 2 (share_masks 1 s))))"
  shows "length (analyzers s') = length (analyzers s) \<and> analyzers s' ! 0 = analyzers s ! 0 \<and>
    (\<forall>k. 0 < k \<and> k < 6 \<longrightarrow> rise_masks (analyzers s' ! k) = rise_masks (analyzers s ! 0) \<and>
         masks_generated (analyzers s' ! k) \<and> amodel (analyzers s' ! k) = amodel (analyzers s ! k)) \<and>
    heap s' = heap s \<and> calls s' = calls s \<and> networks s' = networks s \<and> model s' = model s \<and>
    stacked_frames s' = stacked_frames s \<and> adds s [] s'"
proof -
  have "k = 1 \<or> k = 2 \<or> k = 3 \<or> k = 4 \<or> k = 5" if "0 < k" "k < 6" for k :: nat
    using that by arith
  then show ?thesis
    using len unfolding s'_def
    by (auto simp: share_masks_def nth_list_update adds_Nil)
qed

lemma warm_up_rise:
  assumes wu: "warm_up x game ''rise'' kw 3 s = Inr (action, s1)"
  shows "action = (if game = ''breakout'' then 1 else 0) \<and> adds s [] s1 \<and> fixed s s1 \<and>
     length (analyzers s1) = length (analyzers s) \<and>
     (\<exists>frames. stacked_frames s = Some frames \<and>
        calls s1 = calls s @ [Sample, Explain ''rise'' 0 (read (heap s) frames) None] @
                     (if masks_generated (analyzers s ! 0) then [] else [GenerateMasks 0])) \<and>
     (6 \<le> length (analyzers s) \<longrightarrow>
        masks_generated (analyzers s1 ! 0) \<and>
        (if masks_generated (analyzers s ! 0) then analyzers s1 ! 0 = analyzers s ! 0
         else \<exists>sh. rise_masks (analyzers s1 ! 0) = Some \<lparr>buf = length (heap s), shape = sh\<rparr>) \<and>
        (\<forall>k. 0 < k \<and> k < 6 \<longrightarrow> rise_masks (analyzers s1 ! k) = rise_masks (analyzers s1 ! 0) \<and>
           masks_generated (analyzers s1 ! k) \<and> amodel (analyzers s1 ! k) = amodel (analyzers s ! k)))"
proof -
  from wu obtain sampled w where sm: "sample x (world s) = Inr (sampled, w)"
    by (auto simp: warm_up_def bindE_eq_Inr)
  define sa where "sa = emit Sample (s\<lparr>world := w\<rparr>)"
  from wu sm have act: "action = (if game = ''breakout'' then 1 else 0)"
    and rw: "rise_warm_up x ''rise'' kw sa = Inr s1"
    by (auto simp: warm_up_def bindE_eq_Inr Let_def sa_def)
  have sa: "heap sa = heap s" "analyzers sa = analyzers s" "calls sa = calls s @ [Sample]"
    "stacked_frames sa = stacked_frames s" "fixed s sa" "adds s [] sa"
    by (simp_all add: sa_def emit_def fixed_def adds_Nil)
  from rw obtain frames og sb where fr: "stacked_frames sa = Some frames"
    and sf: "saliency_fn x ''rise'' kw 0 frames None sa = Inr (og, sb)"
    and s1: "s1 = share_masks 5 (share_masks 4 (share_masks 3 (share_masks 2 (share_masks 1 sb))))"
    by (auto simp: rise_warm_up_def bindE_eq_Inr split: option.splits)
  note a = saliency_fn_result[OF sf]
  have lb: "length (analyzers sb) = length (analyzers s)" using a sa by simp
  have base: "adds s [] s1 \<and> fixed s s1 \<and> length (analyzers s1) = length (analyzers s) \<and>
      calls s1 = calls sb"
    using a sa fixed_trans[of s sa sb]
    by (auto simp: s1 share_masks_def adds_Nil fixed_def)
  have cl: "calls sb = calls s @ [Sample, Explain ''rise'' 0 (read (heap s) frames) None] @
                     (if masks_generated (analyzers s ! 0) then [] else [GenerateMasks 0])"
    using a sa by (auto split: if_splits)
  have an: "6 \<le> length (analyzers s) \<longrightarrow>
        masks_generated (analyzers s1 ! 0) \<and>
        (if masks_generated (analyzers s ! 0) then analyzers s1 ! 0 = analyzers s ! 0
         else \<exists>sh. rise_masks (analyzers s1 ! 0) = Some \<lparr>buf = length (heap s), shape = sh\<rparr>) \<and>
        (\<forall>k. 0 < k \<and> k < 6 \<longrightarrow> rise_masks (analyzers s1 ! k) = rise_masks (analyzers s1 ! 0) \<and>
           masks_generated (analyzers s1 ! k) \<and> amodel (analyzers s1 ! k) = amodel (analyzers s ! k))"
  proof
    assume len: "6 \<le> length (analyzers s)"
    then have len': "6 \<le> length (analyzers sb)" using lb by simp
    note sh = share_all[OF len', folded s1]
    have zero: "masks_generated (analyzers sb ! 0) \<and>
        (if masks_generated (analyzers s ! 0) then analyzers sb ! 0 = analyzers s ! 0
         else \<exists>sh. rise_masks (analyzers sb ! 0) = Some \<lparr>buf = length (heap s), shape = sh\<rparr>)"
    proof -
      have pos: "0 < length (analyzers s)" using len by linarith
      show ?thesis using a sa pos by (auto split: if_splits)
    qed
    have keep: "amodel (analyzers sb ! k) = amodel (analyzers s ! k)" if "0 < k" for k
      using a sa that by (auto simp: nth_list_update split: if_splits)
    from sh zero keep show "masks_generated (analyzers s1 ! 0) \<and>
        (if masks_generated (analyzers s ! 0) then analyzers s1 ! 0 = analyzers s ! 0
         else \<exists>sh. rise_masks (analyzers s1 ! 0) = Some \<lparr>buf = length (heap s), shape = sh\<rparr>) \<and>
        (\<forall>k. 0 < k \<and> k < 6 \<longrightarrow> rise_masks (analyzers s1 ! k) = rise_masks (analyzers s1 ! 0) \<and>
           masks_generated (analyzers s1 ! k) \<and> amodel (analyzers s1 ! k) = amodel (analyzers s ! k))"
      by simp
  qed
  from act base cl an fr sa show ?thesis by simp
qed

lemma loop_body_policy_summary:
  assumes lb: "loop_body x mt game approach kw i s = Inr s'" and i: "4 \<le> i"
    and fo: "frames_ok s"
  shows "\<exists>action frames out ref scs.
      stacked_frames s = Some frames \<and>
      predict x (networks s ! model s) (read (heap s) (expand_dims0 frames)) = Inr out \<and>
      np_argmax (snd out) = Inr action \<and>
      length scs = 7 \<and> list_all (\<lambda>sc. \<exists>cand. similarity mt ref cand = Inr sc) scs \<and>
      adds s (step_entries action scs) s' \<and>
      prefix (heap s) (heap s') \<and> networks s' = networks s \<and> model s' = model s \<and>
      frames_ok s' \<and> stacked_frames s' \<noteq> None \<and>
      length (analyzers s') = length (analyzers s) \<and> prefix (calls s) (calls s') \<and>
      filter (\<lambda>e. \<not> is_generate e) (new_calls s s') =
        progress_prints x i s @ step_calls approach (model s) (read (heap s) frames) action @
        [WrapperStep action] \<and>
      (quiet approach s \<longrightarrow> analyzers s' = analyzers s \<and>
         new_calls s s' =
           progress_prints x i s @ step_calls approach (model s) (read (heap s) frames) action @
           [WrapperStep action])"
proof -
  from lb i obtain frames where fr: "stacked_frames s = Some frames"
    unfolding loop_body_unfold
    by (cases "stacked_frames s") (auto simp: policy_step_def)
  from fo fr have vf: "buf frames < length (heap s)" by (simp add: frames_ok_def)
  from loop_body_policy[OF lb i fr vf] obtain out og action s1 where
    pr: "predict x (networks s ! model s) (read (heap s) (expand_dims0 frames)) = Inr out"
    and am: "np_argmax (snd out) = Inr action"
    and o: "outcome mt approach (read (heap s1) og) action [1, 2, 3, 4, 5, 6, 7]
        (progress_prints x i s @ step_calls approach (model s) (read (heap s) frames) action) s s1"
    and ad1: "adds s1 [] s'" and cl: "calls s' = calls s1 @ [WrapperStep action]"
    and an: "analyzers s' = analyzers s1" and ph: "prefix (heap s1) (heap s')"
    and nm: "networks s' = networks s1" "model s' = model s1"
    and fo': "frames_ok s'" "stacked_frames s' \<noteq> None"
    by blast
  let ?evs = "progress_prints x i s @ step_calls approach (model s) (read (heap s) frames) action"
  from o have c: "compared mt (read (heap s1) og) action [1, 2, 3, 4, 5, 6, 7] s s1"
    by (simp add: outcome_def)
  then obtain scs where scs0: "length scs = length [1 :: int, 2, 3, 4, 5, 6, 7]"
    "list_all (\<lambda>sc. \<exists>cand. similarity mt (read (heap s1) og) cand = Inr sc) scs"
    "adds s (map (\<lambda>(l, sc). (l, sc, action)) (zip [1, 2, 3, 4, 5, 6, 7] scs)) s1"
    unfolding compared_def by blast
  then have scs: "length scs = 7"
    "list_all (\<lambda>sc. \<exists>cand. similarity mt (read (heap s1) og) cand = Inr sc) scs"
    "adds s (step_entries action scs) s1"
    by (simp_all add: step_entries_def)
  from o have f: "fixed s s1" and la: "length (analyzers s1) = length (analyzers s)"
    and pc: "prefix (calls s) (calls s1)"
    and fl: "filter (\<lambda>e. \<not> is_generate e) (new_calls s s1) = ?evs"
    and q: "quiet approach s \<longrightarrow> analyzers s1 = analyzers s \<and> new_calls s s1 = ?evs"
    by (simp_all add: outcome_def)
  have pc': "prefix (calls s1) (calls s')" using cl by simp
  have nc: "new_calls s s' = new_calls s s1 @ [WrapperStep action]"
    using new_calls_trans[OF pc pc'] new_calls_append[OF cl] by simp
  have ad: "adds s (step_entries action scs) s'"
    using adds_trans[OF scs(3) ad1] by simp
  have "prefix (heap s) (heap s')" "networks s' = networks s" "model s' = model s"
    using f ph nm by (auto simp: fixed_def intro: prefix_order.order_trans)
  moreover have "prefix (calls s) (calls s')"
    using pc pc' by (rule prefix_order.order_trans)
  ultimately show ?thesis
    using fr pr am scs(1,2) ad fo' an la nc fl q
    by (intro exI[of _ action] exI[of _ frames] exI[of _ out] exI[of _ "read (heap s1) og"]
        exI[of _ scs]) simp
qed

lemma loop_body_warm:
  assumes lb: "loop_body x mt game approach kw i s = Inr s'" and i: "i < 4"
  shows "adds s [] s' \<and> prefix (heap s) (heap s') \<and> networks s' = networks s \<and>
     model s' = model s \<and> frames_ok s' \<and> stacked_frames s' \<noteq> None \<and>
     length (analyzers s') = length (analyzers s) \<and> prefix (calls s) (calls s') \<and>
     filter (\<lambda>e. \<not> is_generate e \<and> \<not> is_explain e) (new_calls s s') =
       progress_prints x i s @ [Sample, WrapperStep (if game = ''breakout'' then 1 else 0)] \<and>
     (\<not> (approach = ''rise'' \<and> i = 3) \<longrightarrow> analyzers s' = analyzers s \<and>
        new_calls s s' =
          progress_prints x i s @ [Sample, WrapperStep (if game = ''breakout'' then 1 else 0)])"
proof -
  let ?s0 = "s\<lparr>calls := calls s @ progress_prints x i s\<rparr>"
  let ?a = "if game = ''breakout'' then 1 else 0 :: int"
  from lb i obtain action s1 where
    wu: "warm_up x game approach kw i ?s0 = Inr (action, s1)"
    and st: "bindE (wrapper_step x action (world s1)) (\<lambda>(t, w).
      case returned t (emit (WrapperStep action) (s1\<lparr>world := w\<rparr>)) of (frames, s2) \<Rightarrow>
      Inr (s2\<lparr>stacked_frames := Some frames\<rparr>)) = Inr s'"
    unfolding loop_body_unfold by (auto simp: bindE_eq_Inr)
  note e = env_step_result[OF st]
  have pp: "filter (\<lambda>e. \<not> is_generate e \<and> \<not> is_explain e) (progress_prints x i s)
        = progress_prints x i s"
    by (simp add: progress_prints_def)
  have main: "action = ?a \<and> adds ?s0 [] s1 \<and> fixed ?s0 s1 \<and>
      length (analyzers s1) = length (analyzers s) \<and> prefix (calls ?s0) (calls s1) \<and>
      filter (\<lambda>e. \<not> is_generate e \<and> \<not> is_explain e) (new_calls ?s0 s1) = [Sample] \<and>
      (\<not> (approach = ''rise'' \<and> i = 3) \<longrightarrow> analyzers s1 = analyzers s \<and>
         calls s1 = calls ?s0 @ [Sample])"
  proof (cases "approach = ''rise'' \<and> i = 3")
    case True
    with wu have wu': "warm_up x game ''rise'' kw 3 ?s0 = Inr (action, s1)" by simp
    from warm_up_rise[OF wu'] True show ?thesis
      by (auto simp: new_calls_def)
  next
    case False
    from warm_up_plain[OF wu False] False show ?thesis
      by (auto simp: new_calls_def)
  qed
  have p0: "prefix (calls s) (calls ?s0)" by simp
  from main have p1: "prefix (calls ?s0) (calls s1)" by simp
  from e have p2: "prefix (calls s1) (calls s')" by simp
  have nc: "new_calls s s' = progress_prints x i s @ new_calls ?s0 s1 @ [WrapperStep action]"
    using new_calls_trans[OF p0 p1] new_calls_trans[OF prefix_order.order_trans[OF p0 p1] p2]
      new_calls_append[of s' s1 "[WrapperStep action]"] e
    by (simp add: new_calls_def)
  have "adds s [] s'" using main e by (simp add: adds_Nil)
  moreover have "prefix (heap s) (heap s')" "networks s' = networks s" "model s' = model s"
    using main e by (auto simp: fixed_def intro: prefix_order.order_trans)
  moreover have "prefix (calls s) (calls s')"
    using p0 p1 p2 by (meson prefix_order.order_trans)
  ultimately show ?thesis
    using main e nc pp by (auto simp: new_calls_append)
qed

section \<open>Progress under benign collaborators\<close>

lemma not_isl_Inr: "\<not> isl m \<Longrightarrow> \<exists>v. m = Inr v"
  by (cases m) simp_all

lemma similarity_total:
  assumes tm: "total_metrics mt" and r: "snd r \<noteq> []" and c: "snd c \<noteq> []"
  shows "\<exists>sc. similarity mt r c = Inr sc"
proof -
  have sp: "\<And>a b. \<exists>v. spearmanr mt a b = Inr v" and ss: "\<And>d a b. \<exists>v. ssim mt d a b = Inr v"
    and hg: "\<And>c sh a. \<exists>v. hog mt c sh a = Inr v" and pe: "\<And>a b. \<exists>v. pearsonr mt a b = Inr v"
    using tm by (auto simp: total_metrics_def intro: not_isl_Inr)
  have hp: "\<exists>v. hog_pearson_of mt a b = Inr v" for a b
  proof -
    from hg obtain ha where 1: "hog mt (3, 3) (fst a) (snd a) = Inr ha" by blast
    from hg obtain hb where 2: "hog mt (3, 3) (fst b) (snd b) = Inr hb" by blast
    from pe obtain v where "pearsonr mt ha hb = Inr v" by blast
    with 1 2 show ?thesis by (simp add: hog_pearson_of_def)
  qed
  have lo: "\<exists>v. larger_of f a b = Inr v" if "\<And>a b. \<exists>v. f a b = Inr v" for f a b
  proof -
    from that obtain u where 1: "f a b = Inr u" by blast
    from that obtain v where 2: "f (complement a) b = Inr v" by blast
    from 1 2 show ?thesis by (simp add: larger_of_def)
  qed
  have 1: "\<exists>v. larger_of (spearman_of mt) a b = Inr v" for a b
    by (rule lo) (simp add: spearman_of_def sp)
  have 2: "\<exists>v. larger_of (ssim_of mt) a b = Inr v" for a b
    by (rule lo) (simp add: ssim_of_def ss)
  have 3: "\<exists>v. larger_of (hog_pearson_of mt) a b = Inr v" for a b
    by (rule lo) (rule hp)
  obtain v1 where v1: "larger_of (spearman_of mt) (normalised c) (normalised r) = Inr v1"
    using 1 by blast
  obtain v2 where v2: "larger_of (ssim_of mt) (normalised c) (normalised r) = Inr v2"
    using 2 by blast
  obtain v3 where v3: "larger_of (hog_pearson_of mt) (normalised c) (normalised r) = Inr v3"
    using 3 by blast
  from r c v1 v2 v3 show ?thesis by (simp add: similarity_def Let_def)
qed

lemma calc_sim_call_total:
  assumes tm: "total_metrics mt"
    and vo: "buf og < length (heap s)" and vc: "buf cand < length (heap s)"
    and no: "vals (heap s) og \<noteq> []" and nc: "vals (heap s) cand \<noteq> []"
  shows "\<exists>s'. calc_sim_call mt og cand s = Inr s'"
proof -
  from similarity_total[OF tm, of "read (heap s) og" "read (heap s) cand"] no nc
  obtain sc where sim: "similarity mt (read (heap s) og) (read (heap s) cand) = Inr sc"
    by (auto simp: read_def)
  from calc_sim_similarity[OF vo vc, of mt "pearson_list s" "ssim_list s" "spearman_list s"] sim
  obtain v where "calc_sim mt (heap s) og cand (pearson_list s, ssim_list s, spearman_list s) = Inr v"
    by (cases "calc_sim mt (heap s) og cand (pearson_list s, ssim_list s, spearman_list s)") auto
  then show ?thesis by (simp add: calc_sim_call_def split_beta)
qed

lemma benignD:
  assumes "benign x"
  shows "\<not> isl (io x e w)"
    and "case load_model x f w of Inl e \<Rightarrow> False | Inr r \<Rightarrow> trainable (fst r)"
    and "case initializer x l w of Inl e \<Rightarrow> False | Inr r \<Rightarrow> map fst (fst r) = map fst l"
    and "case predict x n t of Inl e \<Rightarrow> False | Inr out \<Rightarrow> snd out \<noteq> []"
    and "case explanation x m kw n t sel w of Inl e \<Rightarrow> False | Inr r \<Rightarrow> snd (fst r) \<noteq> []"
    and "case lime_explanation x kw n t sel w of
           Inl e \<Rightarrow> False | Inr r \<Rightarrow> 2 < length (fst r) \<and> snd (fst r ! 2) \<noteq> []"
    and "\<not> isl (generate_masks x kw t w)"
    and "case rise_saliency x kw n mk t sel w of Inl e \<Rightarrow> False | Inr r \<Rightarrow> snd (fst r) \<noteq> []"
    and "\<not> isl (sample x w)" and "\<not> isl (wrapper_step x a w)"
    and "fst (random_rand x sh w) \<noteq> []" and "fst (random_normal x sh w) \<noteq> []"
  using assms unfolding benign_def by fast+

lemma benign_explanation:
  assumes "benign x"
  shows "\<exists>t w'. explanation x m kw n inp sel w = Inr (t, w') \<and> snd t \<noteq> []"
  using benignD(5)[OF assms, of m kw n inp sel w]
  by (cases "explanation x m kw n inp sel w") auto

lemma benign_lime:
  assumes "benign x"
  shows "\<exists>ts w'. lime_explanation x kw n inp sel w = Inr (ts, w') \<and> 2 < length ts \<and> snd (ts ! 2) \<noteq> []"
  using benignD(6)[OF assms, of kw n inp sel w]
  by (cases "lime_explanation x kw n inp sel w") auto

lemma benign_rise:
  assumes "benign x"
  shows "\<exists>t w'. rise_saliency x kw n mk inp sel w = Inr (t, w') \<and> snd t \<noteq> []"
  using benignD(8)[OF assms, of kw n mk inp sel w]
  by (cases "rise_saliency x kw n mk inp sel w") auto

lemma benign_masks:
  assumes "benign x"
  shows "\<exists>t w'. generate_masks x kw inp w = Inr (t, w')"
  using benignD(7)[OF assms, of kw inp w]
  by (cases "generate_masks x kw inp w") auto

lemma benign_predict:
  assumes "benign x"
  shows "\<exists>out. predict x n inp = Inr out \<and> snd out \<noteq> []"
  using benignD(4)[OF assms, of n inp]
  by (cases "predict x n inp") auto

lemma benign_sample:
  assumes "benign x"
  shows "\<exists>a w'. sample x w = Inr (a, w')"
  using benignD(9)[OF assms, of w]
  by (cases "sample x w") auto

lemma benign_step:
  assumes "benign x"
  shows "\<exists>t w'. wrapper_step x a w = Inr (t, w')"
  using benignD(10)[OF assms, of a w]
  by (cases "wrapper_step x a w") auto

lemma benign_io:
  assumes "benign x"
  shows "\<exists>w'. io x e w = Inr w'"
  using benignD(1)[OF assms, of e w]
  by (cases "io x e w") auto

lemma io_call_total:
  assumes "benign x"
  shows "\<exists>s'. io_call x e s = Inr s' \<and> s' = emit e (s\<lparr>world := world s'\<rparr>)"
  using benign_io[OF assms, of e "world s"]
  by (auto simp: io_call_def emit_def)

lemma ready_nth:
  "ready approach s \<Longrightarrow> k < 6 \<Longrightarrow>
   k < length (analyzers s) \<and> (masks_generated (analyzers s ! k) \<longrightarrow> rise_masks (analyzers s ! k) \<noteq> None)"
  by (auto simp: ready_def list_all_length)

lemma ready_update:
  assumes "ready approach s" and "length (analyzers s') = length (analyzers s)"
    and "\<And>j. j < length (analyzers s) \<Longrightarrow>
           \<not> masks_generated (analyzers s' ! j) \<or> rise_masks (analyzers s' ! j) \<noteq> None"
  shows "ready approach s'"
  using assms by (auto simp: ready_def list_all_length)

lemma generate_rise_prediction_total:
  assumes b: "benign x" and rd: "ready approach s" and k: "k < 6"
  shows "\<exists>t s1. generate_rise_prediction x kw k inp sel s = Inr (t, s1) \<and> snd t \<noteq> []"
proof -
  from ready_nth[OF rd k] have kl: "k < length (analyzers s)"
    and mk: "masks_generated (analyzers s ! k) \<longrightarrow> rise_masks (analyzers s ! k) \<noteq> None"
    by simp_all
  show ?thesis
  proof (cases "masks_generated (analyzers s ! k)")
    case True
    with mk obtain m where m: "rise_masks (analyzers s ! k) = Some m" by auto
    from benign_rise[OF b] obtain t w' where
      "rise_saliency x kw (networks s ! amodel (analyzers s ! k)) (read (heap s) m) inp sel (world s)
         = Inr (t, w')" "snd t \<noteq> []" by blast
    with True m show ?thesis by (simp add: generate_rise_prediction_def)
  next
    case False
    from benign_masks[OF b] obtain tm w1 where gm: "generate_masks x kw inp (world s) = Inr (tm, w1)"
      by blast
    obtain masks s1 where r: "returned tm (emit (GenerateMasks k) (s\<lparr>world := w1\<rparr>)) = (masks, s1)"
      by (cases "returned tm (emit (GenerateMasks k) (s\<lparr>world := w1\<rparr>))")
    have an: "analyzers s1 = analyzers s"
      using r by (auto simp: returned_def new_array_def alloc_def emit_def)
    define s2 where "s2 = s1\<lparr>analyzers := (analyzers s1)[k := (analyzers s1 ! k)
                      \<lparr>rise_masks := Some masks, masks_generated := True\<rparr>]\<rparr>"
    have rm: "rise_masks (analyzers s2 ! k) = Some masks"
      using kl an by (simp add: s2_def)
    from benign_rise[OF b] obtain t w' where
      "rise_saliency x kw (networks s2 ! amodel (analyzers s2 ! k)) (read (heap s2) masks) inp sel (world s2)
         = Inr (t, w')" "snd t \<noteq> []" by blast
    with False gm r rm show ?thesis
      by (simp add: generate_rise_prediction_def s2_def[symmetric])
  qed
qed

lemma saliency_fn_total:
  assumes b: "benign x" and rd: "ready approach s" and k: "k < 6"
  shows "\<exists>r s1. saliency_fn x approach kw k a sel s = Inr (r, s1) \<and> vals (heap s1) r \<noteq> [] \<and>
           ready approach s1"
proof -
  define s0 where "s0 = emit (Explain approach k (read (heap s) a) sel) s"
  have rd0: "ready approach s0" using rd by (simp add: s0_def emit_def ready_def)
  have ap: "approach = ''noise'' \<or> approach = ''occl'' \<or> approach = ''rise'' \<or>
      approach = ''lime'' \<or> approach = ''sarfa''"
    using rd by (auto simp: ready_def)
  have ret: "\<exists>r s1. returned t s' = (r, s1) \<and> vals (heap s1) r = snd t" for t and s' :: "'a state"
    by (simp add: returned_def new_array_def alloc_def vals_def)
  have "\<exists>r s1. saliency_fn x approach kw k a sel s = Inr (r, s1) \<and> vals (heap s1) r \<noteq> []"
  proof -
    consider "approach = ''noise''" | "approach = ''occl''" | "approach = ''rise''"
      | "approach = ''lime''" | "approach = ''sarfa''" using ap by blast
    then show ?thesis
    proof cases
      case 1
      from benign_explanation[OF b] obtain t w' where
        "explanation x ''generate_greydanus_explanation'' kw (networks s ! amodel (analyzers s ! k))
           (read (heap s) a) sel (world s0) = Inr (t, w')" "snd t \<noteq> []" by blast
      with 1 ret[of t "s0\<lparr>world := w'\<rparr>"] show ?thesis
        unfolding saliency_fn_def Let_def s0_def[symmetric] by auto
    next
      case 2
      from benign_explanation[OF b] obtain t w' where
        "explanation x ''generate_occlusion_explanation'' kw (networks s ! amodel (analyzers s ! k))
           (read (heap s) a) sel (world s0) = Inr (t, w')" "snd t \<noteq> []" by blast
      with 2 ret[of t "s0\<lparr>world := w'\<rparr>"] show ?thesis
        unfolding saliency_fn_def Let_def s0_def[symmetric] by auto
    next
      case 3
      from generate_rise_prediction_total[OF b rd0 k] obtain t s' where
        "generate_rise_prediction x kw k (read (heap s) a) sel s0 = Inr (t, s')" "snd t \<noteq> []"
        by blast
      with 3 ret[of t s'] show ?thesis
        unfolding saliency_fn_def Let_def s0_def[symmetric] by auto
    next
      case 4
      from benign_lime[OF b] obtain ts w' where
        "lime_explanation x kw (networks s ! amodel (analyzers s ! k))
           (read (heap s) a) sel (world s0) = Inr (ts, w')" "2 < length ts" "snd (ts ! 2) \<noteq> []"
        by blast
      with 4 ret[of "ts ! 2" "s0\<lparr>world := w'\<rparr>"] show ?thesis
        unfolding saliency_fn_def Let_def s0_def[symmetric] by auto
    next
      case 5
      from benign_explanation[OF b] obtain t w' where
        "explanation x ''generate_sarfa_explanation'' kw (networks s ! amodel (analyzers s ! k))
           (read (heap s) a) sel (world s0) = Inr (t, w')" "snd t \<noteq> []" by blast
      with 5 ret[of t "s0\<lparr>world := w'\<rparr>"] show ?thesis
        unfolding saliency_fn_def Let_def s0_def[symmetric] by auto
    qed
  qed
  then obtain r s1 where sf: "saliency_fn x approach kw k a sel s = Inr (r, s1)"
    and ne: "vals (heap s1) r \<noteq> []" by blast
  note res = saliency_fn_result[OF sf]
  from ready_nth[OF rd k] have kl: "k < length (analyzers s)" by simp
  have "ready approach s1"
  proof (rule ready_update[OF rd])
    show "length (analyzers s1) = length (analyzers s)" using res by simp
  next
    fix j assume j: "j < length (analyzers s)"
    from rd j have old: "\<not> masks_generated (analyzers s ! j) \<or> rise_masks (analyzers s ! j) \<noteq> None"
      by (auto simp: ready_def list_all_length)
    from res old j kl show "\<not> masks_generated (analyzers s1 ! j) \<or> rise_masks (analyzers s1 ! j) \<noteq> None"
      by (cases "j = k") (auto simp: nth_list_update split: if_splits)
  qed
  with sf ne show ?thesis by blast
qed

lemma variant_block_total:
  assumes b: "benign x" and tm: "total_metrics mt" and rd: "ready approach s" and k: "k < 6"
    and vo: "buf og < length (heap s)" and no: "vals (heap s) og \<noteq> []"
  shows "\<exists>s'. variant_block x mt approach kw k og inp action s = Inr s' \<and> ready approach s'"
proof -
  from saliency_fn_total[OF b rd k] obtain r s1 where
    sf: "saliency_fn x approach kw k inp (Some action) s = Inr (r, s1)"
    and ne: "vals (heap s1) r \<noteq> []" and rd1: "ready approach s1" by blast
  note res = saliency_fn_result[OF sf]
  have f: "fixed s s1" using res by simp
  have vo1: "buf og < length (heap s1)" using fixed_valid[OF f vo] .
  have no1: "vals (heap s1) og \<noteq> []"
    using fixed_read[OF f vo] no by (simp add: read_def)
  have vr: "buf (squeeze r) < length (heap s1)" using res by (simp add: squeeze_def)
  have nr: "vals (heap s1) (squeeze r) \<noteq> []" using res ne by simp
  from calc_sim_call_total[OF tm vo1 vr no1 nr] obtain s2 where
    cs: "calc_sim_call mt og (squeeze r) s1 = Inr s2" by blast
  from calc_sim_call_result[OF cs vo1 vr, of 0 0] have an: "analyzers s2 = analyzers s1" by blast
  have "ready approach (s2\<lparr>action_list := action_list s2 @ [action],
      model_list := model_list s2 @ [int k]\<rparr>)"
    using rd1 an by (simp add: ready_def)
  with sf cs show ?thesis
    by (simp add: variant_block_def Let_def)
qed

lemma baseline_block_total:
  assumes tm: "total_metrics mt" and rd: "ready approach s"
    and vo: "buf og < length (heap s)" and no: "vals (heap s) og \<noteq> []"
    and px: "fst drawn \<noteq> []"
  shows "\<exists>s'. baseline_block mt e drawn label og action s = Inr s' \<and> ready approach s'"
proof -
  obtain pixels w where d: "drawn = (pixels, w)" by (cases drawn)
  obtain test s1 where r: "returned ([84, 84], pixels) (emit e (s\<lparr>world := w\<rparr>)) = (test, s1)"
    by (cases "returned ([84, 84], pixels) (emit e (s\<lparr>world := w\<rparr>))")
  have r': "fixed s s1" "analyzers s1 = analyzers s" "buf test < length (heap s1)"
    "vals (heap s1) test = pixels"
    using r by (auto simp: returned_def new_array_def alloc_def emit_def fixed_def vals_def)
  have vo1: "buf og < length (heap s1)" using fixed_valid[OF r'(1) vo] .
  have no1: "vals (heap s1) og \<noteq> []"
    using fixed_read[OF r'(1) vo] no by (simp add: read_def)
  have nt: "vals (heap s1) test \<noteq> []" using r' px d by simp
  from calc_sim_call_total[OF tm vo1 r'(3) no1 nt] obtain s2 where
    cs: "calc_sim_call mt og test s1 = Inr s2" by blast
  from calc_sim_call_result[OF cs vo1 r'(3), of 0 0] have an: "analyzers s2 = analyzers s1" by blast
  have "ready approach (s2\<lparr>action_list := action_list s2 @ [action],
      model_list := model_list s2 @ [label]\<rparr>)"
    using rd an r' by (simp add: ready_def)
  with d r cs show ?thesis
    by (simp add: baseline_block_def Let_def)
qed

lemma policy_step_total:
  assumes b: "benign x" and tm: "total_metrics mt" and rd: "ready approach s"
    and fr: "stacked_frames s = Some frames"
  shows "\<exists>action s'. policy_step x mt approach kw s = Inr (action, s') \<and> ready approach s'"
proof -
  from benign_predict[OF b] obtain out where
    pr: "predict x (networks s ! model s) (read (heap s) (expand_dims0 frames)) = Inr out"
    and on: "snd out \<noteq> []" by blast
  obtain outp s0 where
    ret: "returned out (emit (Predict (model s) (read (heap s) (expand_dims0 frames))) s) = (outp, s0)"
    by (cases "returned out (emit (Predict (model s) (read (heap s) (expand_dims0 frames))) s)")
  have out: "vals (heap s0) (squeeze outp) = snd out" and rd0: "ready approach s0"
    using ret rd
    by (auto simp: returned_def new_array_def alloc_def emit_def vals_def squeeze_def ready_def)
  obtain action where am: "np_argmax (vals (heap s0) (squeeze outp)) = Inr action"
    using on out by (simp add: np_argmax_def)
  let ?inp = "squeeze (expand_dims0 frames)"
  have six: "(0::nat) < 6" "(1::nat) < 6" "(2::nat) < 6" "(3::nat) < 6" "(4::nat) < 6" "(5::nat) < 6"
    by simp_all
  from saliency_fn_total[OF b rd0 six(1), of kw ?inp "Some action"] obtain r s1 where
    sf: "saliency_fn x approach kw 0 ?inp (Some action) s0 = Inr (r, s1)"
    and ne: "vals (heap s1) r \<noteq> []" and rd1: "ready approach s1" by blast
  note res = saliency_fn_result[OF sf]
  let ?og = "squeeze r"
  have vo1: "buf ?og < length (heap s1)" using res by (simp add: squeeze_def)
  have no1: "vals (heap s1) ?og \<noteq> []" using res ne by simp
  have keep: "buf ?og < length (heap t) \<and> vals (heap t) ?og \<noteq> []"
    if "fixed sa t" "buf ?og < length (heap sa)" "vals (heap sa) ?og \<noteq> []" for sa t :: "'a state"
    using that fixed_valid[of sa t ?og] fixed_read[of sa t ?og] by (simp add: read_def)
  from variant_block_total[OF b tm rd1 six(2) vo1 no1, of kw ?inp action] obtain s2 where
    v1: "variant_block x mt approach kw 1 ?og ?inp action s1 = Inr s2" and rd2: "ready approach s2"
    by blast
  have k2: "buf ?og < length (heap s2) \<and> vals (heap s2) ?og \<noteq> []"
    using variant_block_result[OF v1 vo1] keep[OF _ vo1 no1] by blast
  from variant_block_total[OF b tm rd2 six(3) conjunct1[OF k2] conjunct2[OF k2], of kw ?inp action]
  obtain s3 where
    v2: "variant_block x mt approach kw 2 ?og ?inp action s2 = Inr s3" and rd3: "ready approach s3"
    by blast
  have k3: "buf ?og < length (heap s3) \<and> vals (heap s3) ?og \<noteq> []"
    using variant_block_result[OF v2 conjunct1[OF k2]] keep[of s2 s3] k2 by blast
  from variant_block_total[OF b tm rd3 six(4) conjunct1[OF k3] conjunct2[OF k3], of kw ?inp action]
  obtain s4 where
    v3: "variant_block x mt approach kw 3 ?og ?inp action s3 = Inr s4" and rd4: "ready approach s4"
    by blast
  have k4: "buf ?og < length (heap s4) \<and> vals (heap s4) ?og \<noteq> []"
    using variant_block_result[OF v3 conjunct1[OF k3]] keep[of s3 s4] k3 by blast
  from variant_block_total[OF b tm rd4 six(5) conjunct1[OF k4] conjunct2[OF k4], of kw ?inp action]
  obtain s5 where
    v4: "variant_block x mt approach kw 4 ?og ?inp action s4 = Inr s5" and rd5: "ready approach s5"
    by blast
  have k5: "buf ?og < length (heap s5) \<and> vals (heap s5) ?og \<noteq> []"
    using variant_block_result[OF v4 conjunct1[OF k4]] keep[of s4 s5] k4 by blast
  from variant_block_total[OF b tm rd5 six(6) conjunct1[OF k5] conjunct2[OF k5], of kw ?inp action]
  obtain s6 where
    v5: "variant_block x mt approach kw 5 ?og ?inp action s5 = Inr s6" and rd6: "ready approach s6"
    by blast
  have k6: "buf ?og < length (heap s6) \<and> vals (heap s6) ?og \<noteq> []"
    using variant_block_result[OF v5 conjunct1[OF k5]] keep[of s5 s6] k5 by blast
  from baseline_block_total[OF tm rd6 conjunct1[OF k6] conjunct2[OF k6] benignD(11)[OF b]]
  obtain s7 where
    b6: "baseline_block mt (RandUniform [84, 84]) (random_rand x [84, 84] (world s6))
               6 ?og action s6 = Inr s7" and rd7: "ready approach s7"
    by blast
  have k7: "buf ?og < length (heap s7) \<and> vals (heap s7) ?og \<noteq> []"
    using baseline_block_result[OF b6 conjunct1[OF k6]] keep[of s6 s7] k6 by blast
  from baseline_block_total[OF tm rd7 conjunct1[OF k7] conjunct2[OF k7] benignD(12)[OF b]]
  obtain s8 where
    b7: "baseline_block mt (RandNormal [84, 84]) (random_normal x [84, 84] (world s7))
               7 ?og action s7 = Inr s8" and rd8: "ready approach s8"
    by blast
  from pr ret am sf v1 v2 v3 v4 v5 b6 b7 rd8 show ?thesis
    by (simp add: policy_step_def fr Let_def)
qed

lemma share_masks_ready:
  assumes rd: "ready approach s" and g0: "masks_generated (analyzers s ! 0)"
  shows "ready approach (share_masks k s)"
proof -
  from rd have "6 \<le> length (analyzers s)" by (simp add: ready_def)
  then have len: "0 < length (analyzers s)" by linarith
  with rd g0 have m0: "rise_masks (analyzers s ! 0) \<noteq> None"
    by (auto simp: ready_def list_all_length)
  show ?thesis
  proof (rule ready_update[OF rd])
    show "length (analyzers (share_masks k s)) = length (analyzers s)"
      by (simp add: share_masks_def)
  next
    fix j assume j: "j < length (analyzers s)"
    from rd j have old: "\<not> masks_generated (analyzers s ! j) \<or> rise_masks (analyzers s ! j) \<noteq> None"
      by (auto simp: ready_def list_all_length)
    show "\<not> masks_generated (analyzers (share_masks k s) ! j) \<or>
          rise_masks (analyzers (share_masks k s) ! j) \<noteq> None"
    proof (cases "k < length (analyzers s)")
      case True
      with old m0 show ?thesis by (cases "j = k") (auto simp: share_masks_def nth_list_update)
    next
      case False
      then have "(analyzers s)[k := (analyzers s ! k)
             \<lparr>rise_masks := rise_masks (analyzers s ! 0), masks_generated := True\<rparr>] = analyzers s"
        by (simp add: list_update_beyond)
      with old show ?thesis by (simp add: share_masks_def)
    qed
  qed
qed

lemma share_masks_zero:
  "0 < k \<Longrightarrow> analyzers (share_masks k s) ! 0 = analyzers s ! 0"
  by (simp add: share_masks_def)

lemma share_masks_fields:
  "heap (share_masks k s) = heap s" "stacked_frames (share_masks k s) = stacked_frames s"
  by (simp_all add: share_masks_def)

lemma warm_up_total:
  assumes b: "benign x" and rd: "ready approach s"
    and fr: "i < 3 \<or> stacked_frames s \<noteq> None"
  shows "\<exists>action s1. warm_up x game approach kw i s = Inr (action, s1) \<and> ready approach s1"
proof -
  from benign_sample[OF b] obtain sampled w where sm: "sample x (world s) = Inr (sampled, w)"
    by blast
  define sa where "sa = emit Sample (s\<lparr>world := w\<rparr>)"
  have rda: "ready approach sa" and fa: "stacked_frames sa = stacked_frames s"
    using rd by (simp_all add: sa_def emit_def ready_def)
  show ?thesis
  proof (cases "approach = ''rise'' \<and> i = 3")
    case False
    with sm rda show ?thesis
      by (auto simp: warm_up_def Let_def sa_def[symmetric])
  next
    case True
    with fr fa obtain frames where f: "stacked_frames sa = Some frames" by auto
    have z: "(0::nat) < 6" by simp
    from saliency_fn_total[OF b rda z, of kw frames None] obtain r sb where
      sf: "saliency_fn x approach kw 0 frames None sa = Inr (r, sb)"
      and rdb: "ready approach sb" by blast
    note res = saliency_fn_result[OF sf]
    from rda have "6 \<le> length (analyzers sa)" by (simp add: ready_def)
    then have len: "0 < length (analyzers sa)" by linarith
    have g0: "masks_generated (analyzers sb ! 0)"
    proof (cases "masks_generated (analyzers sa ! 0)")
      case True
      with res show ?thesis by (auto split: if_splits)
    next
      case False
      with res True len show ?thesis by (auto split: if_splits)
    qed
    have r1: "ready approach (share_masks 1 sb)" using share_masks_ready[OF rdb g0] .
    have g1: "masks_generated (analyzers (share_masks 1 sb) ! 0)"
      using g0 by (simp add: share_masks_zero)
    have r2: "ready approach (share_masks 2 (share_masks 1 sb))" using share_masks_ready[OF r1 g1] .
    have g2: "masks_generated (analyzers (share_masks 2 (share_masks 1 sb)) ! 0)"
      using g1 by (simp add: share_masks_zero)
    have r3: "ready approach (share_masks 3 (share_masks 2 (share_masks 1 sb)))"
      using share_masks_ready[OF r2 g2] .
    have g3: "masks_generated (analyzers (share_masks 3 (share_masks 2 (share_masks 1 sb))) ! 0)"
      using g2 by (simp add: share_masks_zero)
    have r4: "ready approach (share_masks 4 (share_masks 3 (share_masks 2 (share_masks 1 sb))))"
      using share_masks_ready[OF r3 g3] .
    have g4: "masks_generated
        (analyzers (share_masks 4 (share_masks 3 (share_masks 2 (share_masks 1 sb)))) ! 0)"
      using g3 by (simp add: share_masks_zero)
    have r5: "ready approach
        (share_masks 5 (share_masks 4 (share_masks 3 (share_masks 2 (share_masks 1 sb)))))"
      using share_masks_ready[OF r4 g4] .
    from True sm f sf r5 show ?thesis
      by (auto simp: warm_up_def Let_def sa_def[symmetric] rise_warm_up_def)
  qed
qed

lemma loop_body_total:
  assumes b: "benign x" and tm: "total_metrics mt" and rd: "ready approach s"
    and fr: "i < 3 \<or> stacked_frames s \<noteq> None"
  shows "\<exists>s'. loop_body x mt game approach kw i s = Inr s' \<and> ready approach s'"
proof -
  let ?s0 = "s\<lparr>calls := calls s @ progress_prints x i s\<rparr>"
  have rd0: "ready approach ?s0" using rd by (simp add: ready_def)
  have fr0: "i < 3 \<or> stacked_frames ?s0 \<noteq> None" using fr by simp
  have "\<exists>action s1. (if i < 4 then warm_up x game approach kw i ?s0
            else policy_step x mt approach kw ?s0) = Inr (action, s1) \<and> ready approach s1"
  proof (cases "i < 4")
    case True
    with warm_up_total[OF b rd0 fr0] show ?thesis by simp
  next
    case False
    with fr0 obtain frames where "stacked_frames ?s0 = Some frames" by auto
    from policy_step_total[OF b tm rd0 this] False show ?thesis by simp
  qed
  then obtain action s1 where
    st: "(if i < 4 then warm_up x game approach kw i ?s0
            else policy_step x mt approach kw ?s0) = Inr (action, s1)"
    and rd1: "ready approach s1" by blast
  from benign_step[OF b] obtain t w where ws: "wrapper_step x action (world s1) = Inr (t, w)"
    by blast
  obtain frames s2 where ret: "returned t (emit (WrapperStep action) (s1\<lparr>world := w\<rparr>)) = (frames, s2)"
    by (cases "returned t (emit (WrapperStep action) (s1\<lparr>world := w\<rparr>))")
  have "ready approach (s2\<lparr>stacked_frames := Some frames\<rparr>)"
    using ret rd1 by (auto simp: returned_def new_array_def alloc_def emit_def ready_def)
  with st ws ret show ?thesis
    unfolding loop_body_unfold by auto
qed

lemma loop_body_frames:
  assumes "loop_body x mt game approach kw i s = Inr s'"
  shows "frames_ok s' \<and> stacked_frames s' \<noteq> None"
proof -
  let ?m = "if i < 4 then warm_up x game approach kw i (s\<lparr>calls := calls s @ progress_prints x i s\<rparr>)
            else policy_step x mt approach kw (s\<lparr>calls := calls s @ progress_prints x i s\<rparr>)"
  from assms obtain p where p: "?m = Inr p"
    unfolding loop_body_unfold by (cases ?m) simp_all
  obtain action s1 where ps: "p = (action, s1)" by (cases p)
  from assms p ps have
    "bindE (wrapper_step x action (world s1)) (\<lambda>(t, w).
      case returned t (emit (WrapperStep action) (s1\<lparr>world := w\<rparr>)) of (frames, s2) \<Rightarrow>
      Inr (s2\<lparr>stacked_frames := Some frames\<rparr>)) = Inr s'"
    unfolding loop_body_unfold by simp
  from env_step_result[OF this] show ?thesis by simp
qed

lemma run_loop_total_bound:
  assumes b: "benign x" and tm: "total_metrics mt"
  shows "ready approach s \<Longrightarrow> stacked_frames s \<noteq> None \<Longrightarrow>
         \<exists>s'. run_loop x mt game approach kw js s = Inr s'"
proof (induction js arbitrary: s)
  case Nil
  show ?case by simp
next
  case (Cons i js)
  from loop_body_total[OF b tm Cons.prems(1), of i game kw] Cons.prems(2)
  obtain s1 where lb: "loop_body x mt game approach kw i s = Inr s1" and rd1: "ready approach s1"
    by blast
  from loop_body_frames[OF lb] have "stacked_frames s1 \<noteq> None" by simp
  from Cons.IH[OF rd1 this] lb show ?case by simp
qed

lemma run_loop_total:
  assumes b: "benign x" and tm: "total_metrics mt" and rd: "ready approach s"
  shows "\<exists>s'. run_loop x mt game approach kw [0..<n] s = Inr s'"
proof (cases n)
  case 0
  then show ?thesis by simp
next
  case (Suc m)
  have up: "[0..<n] = 0 # [1..<n]" using Suc by (simp add: upt_rec)
  from loop_body_total[OF b tm rd, of 0 game kw]
  obtain s1 where lb: "loop_body x mt game approach kw 0 s = Inr s1" and rd1: "ready approach s1"
    by auto
  from loop_body_frames[OF lb] have "stacked_frames s1 \<noteq> None" by simp
  from run_loop_total_bound[OF b tm rd1 this, of game kw "[1..<n]"] lb up show ?thesis by simp
qed

lemma still_world_benign: "benign still_world"
  by (simp add: benign_def still_world_def trainable_def)

lemma flat_metrics_total: "total_metrics flat_metrics"
  by (simp add: total_metrics_def flat_metrics_def)

lemma mid_state_ready: "ready ''occl'' mid_state" "ready ''rise'' mid_state"
  by (simp_all add: ready_def mid_state_def explainer_def list_all_iff)

lemma mid_state_frames: "frames_ok mid_state" "stacked_frames mid_state \<noteq> None"
  by (simp_all add: frames_ok_def mid_state_def)

lemma calc_sim_total:
  assumes tm: "total_metrics mt"
    and vl: "buf l < length h" and vr: "buf r < length h"
    and nl: "vals h l \<noteq> []" and nr: "vals h r \<noteq> []"
  shows "\<exists>h' acc'. calc_sim mt h l r acc = Inr (h', acc')"
proof -
  obtain pl sl spl where acc: "acc = (pl, sl, spl)" by (cases acc)
  from similarity_total[OF tm, of "read h l" "read h r"] nl nr
  obtain sc where sim: "similarity mt (read h l) (read h r) = Inr sc"
    by (auto simp: read_def)
  from calc_sim_similarity[OF vl vr, of mt pl sl spl] sim acc show ?thesis
    by (cases "calc_sim mt h l r acc") auto
qed

section \<open>A policy-driven step\<close>

text \<open>
  C9. \<open>calc_sim\<close> only allocates: every buffer that existed before the call is unchanged
  after it, so both arguments hold the pixels they held. \<open>normalise_image\<close> returns an
  array that did not exist before. In a policy-driven step the reference map is allocated
  in the step, and the pixels it holds at the end of the step are those against which each
  of the seven records was computed.
\<close>

theorem calc_sim_leaves_arguments:
  "(calc_sim mt h l r acc = Inr (h', acc') \<and> buf l < length h \<and> buf r < length h \<longrightarrow>
      prefix h h' \<and> read h' l = read h l \<and> read h' r = read h r) \<and>
   (normalise_image h l = Inr (hn, out) \<longrightarrow> prefix h hn \<and> length h \<le> buf out) \<and>
   (policy_step x mt approach kw s = Inr (action, s') \<and> frames_ok s \<longrightarrow>
      (\<exists>og. length (heap s) \<le> buf og \<and> buf og < length (heap s') \<and> prefix (heap s) (heap s') \<and>
            compared mt (read (heap s') og) action [1, 2, 3, 4, 5, 6, 7] s s'))"
proof -
  have 1: "prefix h h' \<and> read h' l = read h l \<and> read h' r = read h r"
    if a: "calc_sim mt h l r acc = Inr (h', acc') \<and> buf l < length h \<and> buf r < length h"
  proof -
    from a have p: "prefix h h'" using calc_sim_frame by blast
    with a show ?thesis by (simp add: read_def prefix_vals)
  qed
  have 2: "prefix h hn \<and> length h \<le> buf out" if n: "normalise_image h l = Inr (hn, out)"
  proof -
    from normalise_image_result[OF n] have ne: "vals h l \<noteq> []" and p: "prefix h hn" by simp_all
    from n normalise_image_unfold[OF ne] have "length h \<le> buf out"
      by (auto simp: Let_def split: if_splits)
    with p show ?thesis by simp
  qed
  have 3: "\<exists>og. length (heap s) \<le> buf og \<and> buf og < length (heap s') \<and> prefix (heap s) (heap s') \<and>
            compared mt (read (heap s') og) action [1, 2, 3, 4, 5, 6, 7] s s'"
    if a: "policy_step x mt approach kw s = Inr (action, s') \<and> frames_ok s"
  proof -
    from a obtain frames where fr: "stacked_frames s = Some frames"
      by (cases "stacked_frames s") (auto simp: policy_step_def)
    with a have vf: "buf frames < length (heap s)" by (simp add: frames_ok_def)
    from a have ps: "policy_step x mt approach kw s = Inr (action, s')" by simp
    from policy_step_result[OF ps fr vf] show ?thesis
      by (auto simp: outcome_def fixed_def)
  qed
  from 1 2 3 show ?thesis by blast
qed

theorem calc_sim_leaves_arguments_witness:
  "(\<exists>h' acc'. calc_sim flat_metrics [[0, 1], [3, 2]] \<lparr>buf = 0, shape = [2]\<rparr> \<lparr>buf = 1, shape = [2]\<rparr>
        ([], [], []) = Inr (h', acc') \<and>
      read h' \<lparr>buf = 0, shape = [2]\<rparr> = ([2], [0, 1]) \<and>
      read h' \<lparr>buf = 1, shape = [2]\<rparr> = ([2], [3, 2])) \<and>
   (\<exists>h1 out. normalise_image [[0, 1], [3, 2]] \<lparr>buf = 0, shape = [2]\<rparr> = Inr (h1, out) \<and>
      2 \<le> buf out) \<and>
   (\<exists>action s'. policy_step still_world flat_metrics ''occl'' () mid_state = Inr (action, s') \<and>
     frames_ok mid_state \<and>
     (\<exists>og. 1 \<le> buf og \<and> buf og < length (heap s') \<and>
           compared flat_metrics (read (heap s') og) action [1, 2, 3, 4, 5, 6, 7] mid_state s'))"
proof -
  let ?h = "[[0, 1], [3, 2 :: real]]"
  let ?l = "\<lparr>buf = 0, shape = [2 :: nat]\<rparr>" and ?r = "\<lparr>buf = 1, shape = [2 :: nat]\<rparr>"
  from calc_sim_total[OF flat_metrics_total, of ?l ?h ?r "([], [], [])"]
  obtain h' acc' where cs: "calc_sim flat_metrics ?h ?l ?r ([], [], []) = Inr (h', acc')"
    by (auto simp: vals_def)
  from normalise_image_ok[of ?h ?l]
  obtain h1 out where n: "normalise_image ?h ?l = Inr (h1, out)"
    by (auto simp: vals_def)
  from policy_step_total[OF still_world_benign flat_metrics_total mid_state_ready(1), of _ "()"]
  obtain action s' where
    ps: "policy_step still_world flat_metrics ''occl'' () mid_state = Inr (action, s')"
    by (auto simp: mid_state_def)
  note inst = calc_sim_leaves_arguments[where x = still_world and mt = flat_metrics
      and approach = "''occl''" and kw = "()" and s = mid_state and action = action and s' = s'
      and h = ?h and l = ?l and r = ?r and acc = "([], [], [])" and h' = h' and acc' = acc'
      and hn = h1 and out = out]
  from inst cs have 1: "read h' ?l = ([2], [0, 1]) \<and> read h' ?r = ([2], [3, 2])"
    by (simp add: read_def vals_def)
  from inst n have 2: "2 \<le> buf out" by simp
  from inst ps mid_state_frames(1)
  have 3: "\<exists>og. length (heap mid_state) \<le> buf og \<and> buf og < length (heap s') \<and>
           prefix (heap mid_state) (heap s') \<and>
           compared flat_metrics (read (heap s') og) action [1, 2, 3, 4, 5, 6, 7] mid_state s'"
    by blast
  have hl: "length (heap mid_state) = 1" by (simp add: mid_state_def)
  from 3 hl have three: "\<exists>og. 1 \<le> buf og \<and> buf og < length (heap s') \<and>
           compared flat_metrics (read (heap s') og) action [1, 2, 3, 4, 5, 6, 7] mid_state s'"
    by auto
  have A: "\<exists>h' acc'. calc_sim flat_metrics ?h ?l ?r ([], [], []) = Inr (h', acc') \<and>
      read h' ?l = ([2], [0, 1]) \<and> read h' ?r = ([2], [3, 2])"
    using cs 1 by blast
  have B: "\<exists>h1 out. normalise_image ?h ?l = Inr (h1, out) \<and> 2 \<le> buf out"
    using n 2 by blast
  have C: "\<exists>action s'. policy_step still_world flat_metrics ''occl'' () mid_state = Inr (action, s') \<and>
     frames_ok mid_state \<and>
     (\<exists>og. 1 \<le> buf og \<and> buf og < length (heap s') \<and>
           compared flat_metrics (read (heap s') og) action [1, 2, 3, 4, 5, 6, 7] mid_state s')"
    using ps mid_state_frames(1) three by blast
  from A B C show ?thesis by (intro conjI)
qed

section \<open>The cascade\<close>

lemma weights_equal_result:
  assumes "weights_equal m1 m0 i j s = Inr b"
  shows "b = (snd (networks s ! m1 ! i ! j) = snd (networks s ! m0 ! i ! j))"
  using assms
  by (auto simp: weights_equal_def get_layer_def get_weight_def all_equal_def bindE_eq_Inr
      split: if_splits)

lemma weights_equal_emit [simp]:
  "weights_equal m1 m0 i j (emit e s) = weights_equal m1 m0 i j s"
  by (simp add: weights_equal_def get_layer_def get_weight_def emit_def)

lemma check_layer_result:
  assumes "check_layer m1 m0 i s = Inr s'"
  shows "s' = s\<lparr>calls := calls s @
      (if i \<noteq> 4 then [Print [PStr ''layer '', PInt (int i)],
            Print [PBool (snd (networks s ! m1 ! i ! 0) = snd (networks s ! m0 ! i ! 0))],
            Print [PBool (snd (networks s ! m1 ! i ! 1) = snd (networks s ! m0 ! i ! 1))]]
       else [])\<rparr>"
proof (cases "i = 4")
  case True
  with assms show ?thesis by (simp add: check_layer_def)
next
  case False
  with assms obtain b0 b1 where
    0: "weights_equal m1 m0 i 0 s = Inr b0" and 1: "weights_equal m1 m0 i 1 s = Inr b1"
    and s': "s' = emit (Print [PBool b1]) (emit (Print [PBool b0])
        (emit (Print [PStr ''layer '', PInt (int i)]) s))"
    by (auto simp: check_layer_def Let_def bindE_eq_Inr)
  from weights_equal_result[OF 0] weights_equal_result[OF 1] s' False show ?thesis
    by (simp add: emit_def)
qed

lemma weights_equal_total:
  assumes "i < length (networks s ! m1)" "i < length (networks s ! m0)"
    "j < length (networks s ! m1 ! i)" "j < length (networks s ! m0 ! i)"
    "fst (networks s ! m1 ! i ! j) = fst (networks s ! m0 ! i ! j)"
  shows "weights_equal m1 m0 i j s =
           Inr (snd (networks s ! m1 ! i ! j) = snd (networks s ! m0 ! i ! j))"
  using assms
  by (simp add: weights_equal_def get_layer_def get_weight_def all_equal_def)

lemma check_layer_total:
  assumes "i = 4 \<or> (i < length (networks s ! m1) \<and> i < length (networks s ! m0) \<and>
      2 \<le> length (networks s ! m1 ! i) \<and> 2 \<le> length (networks s ! m0 ! i) \<and>
      fst (networks s ! m1 ! i ! 0) = fst (networks s ! m0 ! i ! 0) \<and>
      fst (networks s ! m1 ! i ! 1) = fst (networks s ! m0 ! i ! 1))"
  shows "\<exists>s'. check_layer m1 m0 i s = Inr s'"
proof (cases "i = 4")
  case True
  then show ?thesis by (simp add: check_layer_def)
next
  case False
  with assms have a: "i < length (networks s ! m1)" "i < length (networks s ! m0)"
    "0 < length (networks s ! m1 ! i)" "0 < length (networks s ! m0 ! i)"
    "1 < length (networks s ! m1 ! i)" "1 < length (networks s ! m0 ! i)"
    "fst (networks s ! m1 ! i ! 0) = fst (networks s ! m0 ! i ! 0)"
    "fst (networks s ! m1 ! i ! 1) = fst (networks s ! m0 ! i ! 1)"
    by auto
  from weights_equal_total[OF a(1,2,3,4,7)] weights_equal_total[OF a(1,2,5,6,8)] False
  show ?thesis by (simp add: check_layer_def Let_def)
qed

lemma upt_1_7: "[1..<7] = [1, 2, 3, 4, 5, 6 :: nat]"
  by (simp add: upt_rec)

lemma check_models_unfold: "check_models m1 m0 s = check_layers m1 m0 [1, 2, 3, 4, 5, 6] s"
  unfolding check_models_def upt_1_7 by (rule refl)

lemma check_models_result:
  assumes "check_models m1 m0 s = Inr s'"
  shows "s' = s\<lparr>calls := calls s @ check_lines (networks s ! m1) (networks s ! m0)\<rparr>"
proof -
  from assms obtain s1 s2 s3 s4 s5 where
    1: "check_layer m1 m0 1 s = Inr s1" and 2: "check_layer m1 m0 2 s1 = Inr s2"
    and 3: "check_layer m1 m0 3 s2 = Inr s3" and 4: "check_layer m1 m0 4 s3 = Inr s4"
    and 5: "check_layer m1 m0 5 s4 = Inr s5" and 6: "check_layer m1 m0 6 s5 = Inr s'"
    unfolding check_models_unfold by (auto simp: bindE_eq_Inr)
  note r = check_layer_result[OF 1] check_layer_result[OF 2] check_layer_result[OF 3]
    check_layer_result[OF 4] check_layer_result[OF 5] check_layer_result[OF 6]
  have n: "networks s1 = networks s" "networks s2 = networks s" "networks s3 = networks s"
    "networks s4 = networks s" "networks s5 = networks s"
    using r by simp_all
  from r(6) show ?thesis
    unfolding r(5) r(4) r(3) r(2) r(1) by (simp add: check_lines_def n [unfolded r])
qed

lemma check_models_total:
  assumes "comparable (networks s ! m1) (networks s ! m0)"
  shows "\<exists>s'. check_models m1 m0 s = Inr s'"
proof -
  have ok: "\<exists>s'. check_layer m1 m0 i t = Inr s'"
    if "networks t = networks s" "i \<in> {1, 2, 3, 4, 5, 6}" for i and t :: "'a state"
    using assms that by (intro check_layer_total) (auto simp: comparable_def)
  from ok[of s 1] obtain s1 where 1: "check_layer m1 m0 1 s = Inr s1" by auto
  have n1: "networks s1 = networks s" using check_layer_result[OF 1] by simp
  from ok[OF n1, of 2] obtain s2 where 2: "check_layer m1 m0 2 s1 = Inr s2" by auto
  have n2: "networks s2 = networks s" using check_layer_result[OF 2] n1 by simp
  from ok[OF n2, of 3] obtain s3 where 3: "check_layer m1 m0 3 s2 = Inr s3" by auto
  have n3: "networks s3 = networks s" using check_layer_result[OF 3] n2 by simp
  from ok[OF n3, of 4] obtain s4 where 4: "check_layer m1 m0 4 s3 = Inr s4" by auto
  have n4: "networks s4 = networks s" using check_layer_result[OF 4] n3 by simp
  from ok[OF n4, of 5] obtain s5 where 5: "check_layer m1 m0 5 s4 = Inr s5" by auto
  have n5: "networks s5 = networks s" using check_layer_result[OF 5] n4 by simp
  from ok[OF n5, of 6] obtain s6 where 6: "check_layer m1 m0 6 s5 = Inr s6" by auto
  from 1 2 3 4 5 6 show ?thesis unfolding check_models_unfold by simp
qed

lemma derive_result:
  assumes d: "derive x prev idx s = Inr (m, s')" and pv: "prev < length (networks s)"
  shows "m = length (networks s) \<and> idx < length (networks s ! prev) \<and>
    (\<exists>l' w. initializer x (networks s ! prev ! idx) (world s) = Inr (l', w) \<and>
       networks s' = networks s @ [(networks s ! prev)[idx := l']] \<and>
       calls s' = calls s @ InitLayer m idx #
         check_lines ((networks s ! prev)[idx := l']) (networks s ! prev)) \<and>
    analyzers s' = analyzers s @ [explainer m] \<and> adds s [] s' \<and> heap s' = heap s \<and>
    stacked_frames s' = stacked_frames s \<and> model s' = model s"
proof -
  let ?n = "length (networks s)"
  let ?s1 = "s\<lparr>networks := networks s @ [networks s ! prev]\<rparr>"
  have cm: "copy_model prev s = (?n, ?s1)" by (simp add: copy_model_def)
  from d cm have m: "m = ?n" by (auto simp: derive_def bindE_eq_Inr)
  from d cm obtain l s2 s3 where
    gl: "get_layer ?n idx ?s1 = Inr l" and il: "init_layer x l ?s1 = Inr s2"
    and ck: "check_models ?n prev s2 = Inr s3"
    and s': "s' = s3\<lparr>analyzers := analyzers s3 @ [explainer ?n]\<rparr>"
    by (auto simp: derive_def bindE_eq_Inr)
  from gl have l: "l = (?n, idx)" and ix: "idx < length (networks s ! prev)"
    by (auto simp: get_layer_def split: if_splits)
  from il l obtain l' w where
    ini: "initializer x (networks s ! prev ! idx) (world s) = Inr (l', w)"
    and s2: "s2 = emit (InitLayer ?n idx)
          (?s1\<lparr>world := w, networks := (networks ?s1)[?n := (networks ?s1 ! ?n)[idx := l']]\<rparr>)"
    by (auto simp: init_layer_def bindE_eq_Inr)
  have n2: "networks s2 = networks s @ [(networks s ! prev)[idx := l']]"
    by (simp add: s2 emit_def)
  have at: "networks s2 ! ?n = (networks s ! prev)[idx := l']" "networks s2 ! prev = networks s ! prev"
    using pv by (simp_all add: n2 nth_append)
  note cr = check_models_result[OF ck]
  from cr at have s3: "s3 = s2\<lparr>calls := calls s2 @
      check_lines ((networks s ! prev)[idx := l']) (networks s ! prev)\<rparr>" by simp
  show ?thesis
    using m ix ini
    by (auto simp: s' s3 s2 emit_def adds_Nil)
qed

lemma comparable_update:
  assumes "trainable net" and "map fst l' = map fst (net ! idx)"
  shows "comparable (net[idx := l']) net"
proof -
  from assms(1) have len: "6 < length net" by (simp add: trainable_def)
  have same: "length l' = length (net ! idx)" "\<And>j. j < length l' \<Longrightarrow> fst (l' ! j) = fst (net ! idx ! j)"
    using assms(2) by (metis length_map, metis length_map nth_map)
  have "2 \<le> length (net[idx := l'] ! i) \<and> 2 \<le> length (net ! i) \<and>
      fst (net[idx := l'] ! i ! 0) = fst (net ! i ! 0) \<and>
      fst (net[idx := l'] ! i ! 1) = fst (net ! i ! 1)"
    if "i \<in> {1, 2, 3, 5, 6}" for i
  proof -
    from that assms(1) have two: "2 \<le> length (net ! i)" and il: "i < length net"
      using len by (auto simp: trainable_def)
    show ?thesis
    proof (cases "i = idx")
      case True
      with two same(1) have "2 \<le> length l'" by simp
      then have "0 < length l'" "1 < length l'" by linarith+
      with same(2) have "fst (l' ! 0) = fst (net ! idx ! 0)" "fst (l' ! 1) = fst (net ! idx ! 1)"
        by blast+
      with True two il same(1) show ?thesis by simp
    next
      case False
      with two show ?thesis by simp
    qed
  qed
  with len show ?thesis by (simp add: comparable_def)
qed

lemma trainable_update:
  assumes "trainable net" and "map fst l' = map fst (net ! idx)"
  shows "trainable (net[idx := l'])"
proof -
  from assms(1) have len: "6 < length net" by (simp add: trainable_def)
  have same: "length l' = length (net ! idx)" using assms(2) by (metis length_map)
  have "2 \<le> length (net[idx := l'] ! i)" if "i \<in> {1, 2, 3, 5, 6}" for i
  proof -
    from that assms(1) have two: "2 \<le> length (net ! i)" and il: "i < length net"
      using len by (auto simp: trainable_def)
    show ?thesis using two il same by (cases "i = idx") simp_all
  qed
  with len show ?thesis by (simp add: trainable_def)
qed

lemma derive_total:
  assumes b: "benign x" and pv: "prev < length (networks s)"
    and tr: "trainable (networks s ! prev)" and ix: "idx \<le> 6"
  shows "\<exists>m s'. derive x prev idx s = Inr (m, s') \<and> trainable (networks s' ! m) \<and>
           m < length (networks s')"
proof -
  let ?n = "length (networks s)"
  let ?net = "networks s ! prev"
  let ?s1 = "s\<lparr>networks := networks s @ [?net]\<rparr>"
  from tr ix have il: "idx < length ?net" by (simp add: trainable_def)
  from benignD(3)[OF b, of "?net ! idx" "world s"] obtain l' w where
    ini: "initializer x (?net ! idx) (world s) = Inr (l', w)" and sh: "map fst l' = map fst (?net ! idx)"
    by (cases "initializer x (?net ! idx) (world s)") auto
  define s2 where "s2 = emit (InitLayer ?n idx)
          (?s1\<lparr>world := w, networks := (networks ?s1)[?n := (networks ?s1 ! ?n)[idx := l']]\<rparr>)"
  have gl: "get_layer ?n idx ?s1 = Inr (?n, idx)" using il by (simp add: get_layer_def)
  have il': "init_layer x (?n, idx) ?s1 = Inr s2"
    using ini by (simp add: init_layer_def s2_def)
  have n2: "networks s2 = networks s @ [?net[idx := l']]"
    by (simp add: s2_def emit_def)
  have at: "networks s2 ! ?n = ?net[idx := l']" "networks s2 ! prev = ?net"
    using pv by (simp_all add: n2 nth_append)
  from check_models_total[of s2 ?n prev] comparable_update[OF tr sh] at
  obtain s3 where ck: "check_models ?n prev s2 = Inr s3" by auto
  note cr = check_models_result[OF ck]
  have d: "derive x prev idx s = Inr (?n, s3\<lparr>analyzers := analyzers s3 @ [explainer ?n]\<rparr>)"
    using gl il' ck by (simp add: derive_def copy_model_def)
  have "networks (s3\<lparr>analyzers := analyzers s3 @ [explainer ?n]\<rparr>) = networks s2"
    using cr by simp
  with d at n2 trainable_update[OF tr sh] show ?thesis by simp
qed

lemma cascade_result:
  assumes c: "cascade x s = Inr s'" and mv: "model s < length (networks s)"
  obtains l1 l2 l3 l4 l5 v1 v2 v3 v4 v5 where
    "v1 = (networks s ! model s)[6 := l1]" "v2 = v1[5 := l2]" "v3 = v2[3 := l3]"
    "v4 = v3[2 := l4]" "v5 = v4[1 := l5]"
    "6 < length (networks s ! model s)"
    "\<exists>w w'. initializer x (networks s ! model s ! 6) w = Inr (l1, w')"
    "\<exists>w w'. initializer x (v1 ! 5) w = Inr (l2, w')"
    "\<exists>w w'. initializer x (v2 ! 3) w = Inr (l3, w')"
    "\<exists>w w'. initializer x (v3 ! 2) w = Inr (l4, w')"
    "\<exists>w w'. initializer x (v4 ! 1) w = Inr (l5, w')"
    "networks s' = networks s @ [v1, v2, v3, v4, v5]"
    "analyzers s' = map explainer
        [model s, length (networks s), length (networks s) + 1, length (networks s) + 2,
         length (networks s) + 3, length (networks s) + 4]"
    "calls s' = calls s @
       InitLayer (length (networks s)) 6 # check_lines v1 (networks s ! model s) @
       InitLayer (length (networks s) + 1) 5 # check_lines v2 v1 @
       InitLayer (length (networks s) + 2) 3 # check_lines v3 v2 @
       InitLayer (length (networks s) + 3) 2 # check_lines v4 v3 @
       InitLayer (length (networks s) + 4) 1 # check_lines v5 v4"
    "adds s [] s'" "heap s' = heap s" "stacked_frames s' = stacked_frames s" "model s' = model s"
proof -
  let ?n = "length (networks s)"
  let ?s0 = "s\<lparr>analyzers := [explainer (model s)]\<rparr>"
  from c obtain m1 s1 m2 s2 m3 s3 m4 s4 m5 where
    d1: "derive x (model s) 6 ?s0 = Inr (m1, s1)" and d2: "derive x m1 5 s1 = Inr (m2, s2)"
    and d3: "derive x m2 3 s2 = Inr (m3, s3)" and d4: "derive x m3 2 s3 = Inr (m4, s4)"
    and d5: "derive x m4 1 s4 = Inr (m5, s')"
    by (auto simp: cascade_def Let_def bindE_eq_Inr)
  have mv0: "model s < length (networks ?s0)" using mv by simp
  from derive_result[OF d1 mv0] obtain l1 w1 where
    r1: "m1 = ?n" "6 < length (networks s ! model s)"
      "initializer x (networks s ! model s ! 6) (world s) = Inr (l1, w1)"
      "networks s1 = networks s @ [(networks s ! model s)[6 := l1]]"
      "calls s1 = calls s @ InitLayer ?n 6 #
         check_lines ((networks s ! model s)[6 := l1]) (networks s ! model s)"
      "analyzers s1 = [explainer (model s), explainer ?n]" "adds s [] s1" "heap s1 = heap s"
      "stacked_frames s1 = stacked_frames s" "model s1 = model s"
    by (auto simp: adds_Nil)
  define v1 where "v1 = (networks s ! model s)[6 := l1]"
  have p1: "m1 < length (networks s1)" "networks s1 ! m1 = v1" "length (networks s1) = ?n + 1"
    using r1 by (simp_all add: v1_def)
  from derive_result[OF d2 p1(1)] p1 obtain l2 w2 where
    r2: "m2 = ?n + 1" "initializer x (v1 ! 5) (world s1) = Inr (l2, w2)"
      "networks s2 = networks s1 @ [v1[5 := l2]]"
      "calls s2 = calls s1 @ InitLayer (?n + 1) 5 # check_lines (v1[5 := l2]) v1"
      "analyzers s2 = analyzers s1 @ [explainer (?n + 1)]" "adds s1 [] s2" "heap s2 = heap s1"
      "stacked_frames s2 = stacked_frames s1" "model s2 = model s1"
    by auto
  define v2 where "v2 = v1[5 := l2]"
  have p2: "m2 < length (networks s2)" "networks s2 ! m2 = v2" "length (networks s2) = ?n + 2"
    using r2 p1 by (simp_all add: v2_def nth_append)
  from derive_result[OF d3 p2(1)] p2 obtain l3 w3 where
    r3: "m3 = ?n + 2" "initializer x (v2 ! 3) (world s2) = Inr (l3, w3)"
      "networks s3 = networks s2 @ [v2[3 := l3]]"
      "calls s3 = calls s2 @ InitLayer (?n + 2) 3 # check_lines (v2[3 := l3]) v2"
      "analyzers s3 = analyzers s2 @ [explainer (?n + 2)]" "adds s2 [] s3" "heap s3 = heap s2"
      "stacked_frames s3 = stacked_frames s2" "model s3 = model s2"
    by auto
  define v3 where "v3 = v2[3 := l3]"
  have p3: "m3 < length (networks s3)" "networks s3 ! m3 = v3" "length (networks s3) = ?n + 3"
    using r3 p2 by (simp_all add: v3_def nth_append)
  from derive_result[OF d4 p3(1)] p3 obtain l4 w4 where
    r4: "m4 = ?n + 3" "initializer x (v3 ! 2) (world s3) = Inr (l4, w4)"
      "networks s4 = networks s3 @ [v3[2 := l4]]"
      "calls s4 = calls s3 @ InitLayer (?n + 3) 2 # check_lines (v3[2 := l4]) v3"
      "analyzers s4 = analyzers s3 @ [explainer (?n + 3)]" "adds s3 [] s4" "heap s4 = heap s3"
      "stacked_frames s4 = stacked_frames s3" "model s4 = model s3"
    by auto
  define v4 where "v4 = v3[2 := l4]"
  have p4: "m4 < length (networks s4)" "networks s4 ! m4 = v4" "length (networks s4) = ?n + 4"
    using r4 p3 by (simp_all add: v4_def nth_append)
  from derive_result[OF d5 p4(1)] p4 obtain l5 w5 where
    r5: "m5 = ?n + 4" "initializer x (v4 ! 1) (world s4) = Inr (l5, w5)"
      "networks s' = networks s4 @ [v4[1 := l5]]"
      "calls s' = calls s4 @ InitLayer (?n + 4) 1 # check_lines (v4[1 := l5]) v4"
      "analyzers s' = analyzers s4 @ [explainer (?n + 4)]" "adds s4 [] s'" "heap s' = heap s4"
      "stacked_frames s' = stacked_frames s4" "model s' = model s4"
    by auto
  define v5 where "v5 = v4[1 := l5]"
  show thesis
  proof (rule that[of v1 l1 v2 l2 v3 l3 v4 l4 v5 l5])
    show "v1 = (networks s ! model s)[6 := l1]" by (rule v1_def)
    show "v2 = v1[5 := l2]" by (rule v2_def)
    show "v3 = v2[3 := l3]" by (rule v3_def)
    show "v4 = v3[2 := l4]" by (rule v4_def)
    show "v5 = v4[1 := l5]" by (rule v5_def)
    show "6 < length (networks s ! model s)" by (rule r1(2))
    show "\<exists>w w'. initializer x (networks s ! model s ! 6) w = Inr (l1, w')" using r1(3) by blast
    show "\<exists>w w'. initializer x (v1 ! 5) w = Inr (l2, w')" using r2(2) by blast
    show "\<exists>w w'. initializer x (v2 ! 3) w = Inr (l3, w')" using r3(2) by blast
    show "\<exists>w w'. initializer x (v3 ! 2) w = Inr (l4, w')" using r4(2) by blast
    show "\<exists>w w'. initializer x (v4 ! 1) w = Inr (l5, w')" using r5(2) by blast
    show "networks s' = networks s @ [v1, v2, v3, v4, v5]"
      using r1(4) r2(3) r3(3) r4(3) r5(3) by (simp add: v1_def v2_def v3_def v4_def v5_def)
    show "analyzers s' = map explainer
        [model s, ?n, ?n + 1, ?n + 2, ?n + 3, ?n + 4]"
      using r1(6) r2(5) r3(5) r4(5) r5(5) by simp
    show "calls s' = calls s @
       InitLayer ?n 6 # check_lines v1 (networks s ! model s) @
       InitLayer (?n + 1) 5 # check_lines v2 v1 @
       InitLayer (?n + 2) 3 # check_lines v3 v2 @
       InitLayer (?n + 3) 2 # check_lines v4 v3 @
       InitLayer (?n + 4) 1 # check_lines v5 v4"
      using r1(5) r2(4) r3(4) r4(4) r5(4) by (simp add: v1_def v2_def v3_def v4_def v5_def)
    show "adds s [] s'" using r1(7) r2(6) r3(6) r4(6) r5(6) by (simp add: adds_Nil)
    show "heap s' = heap s" using r1(8) r2(7) r3(7) r4(7) r5(7) by simp
    show "stacked_frames s' = stacked_frames s" using r1(9) r2(8) r3(8) r4(8) r5(8) by simp
    show "model s' = model s" using r1(10) r2(9) r3(9) r4(9) r5(9) by simp
  qed
qed

lemma cascade_total:
  assumes b: "benign x" and mv: "model s < length (networks s)"
    and tr: "trainable (networks s ! model s)"
  shows "\<exists>s'. cascade x s = Inr s'"
proof -
  let ?s0 = "s\<lparr>analyzers := [explainer (model s)]\<rparr>"
  have mv0: "model s < length (networks ?s0)" "trainable (networks ?s0 ! model s)"
    using mv tr by simp_all
  from derive_total[OF b mv0, of 6] obtain m1 s1 where
    d1: "derive x (model s) 6 ?s0 = Inr (m1, s1)" and t1: "trainable (networks s1 ! m1)"
      "m1 < length (networks s1)" by auto
  from derive_total[OF b t1(2) t1(1), of 5] obtain m2 s2 where
    d2: "derive x m1 5 s1 = Inr (m2, s2)" and t2: "trainable (networks s2 ! m2)"
      "m2 < length (networks s2)" by auto
  from derive_total[OF b t2(2) t2(1), of 3] obtain m3 s3 where
    d3: "derive x m2 3 s2 = Inr (m3, s3)" and t3: "trainable (networks s3 ! m3)"
      "m3 < length (networks s3)" by auto
  from derive_total[OF b t3(2) t3(1), of 2] obtain m4 s4 where
    d4: "derive x m3 2 s3 = Inr (m4, s4)" and t4: "trainable (networks s4 ! m4)"
      "m4 < length (networks s4)" by auto
  from derive_total[OF b t4(2) t4(1), of 1] obtain m5 s5 where
    d5: "derive x m4 1 s4 = Inr (m5, s5)" by auto
  from d1 d2 d3 d4 d5 show ?thesis by (simp add: cascade_def Let_def)
qed

section \<open>The chain of networks\<close>

lemma filter_init_check_lines [simp]: "filter is_init (check_lines a b) = []"
  by (simp add: check_lines_def)

lemma filter_print_check_lines [simp]: "filter is_print (check_lines a b) = check_lines a b"
  by (simp add: check_lines_def)

lemma mid_state_model: "model mid_state < length (networks mid_state)"
  "trainable (networks mid_state ! model mid_state)"
  by (simp_all add: mid_state_def trainable_def)

lemma psubset_snoc: "x \<notin> set xs \<Longrightarrow> set xs \<subset> set (xs @ [x])"
  by auto

lemma mid_state_comparable: "comparable (networks mid_state ! 0) (networks mid_state ! 0)"
  by (simp add: mid_state_def comparable_def)

text \<open>
  Claim C2. The cascade makes exactly five networks after the loaded one. With \<open>vs ! 0\<close> the
  loaded network and \<open>vs ! k\<close> the \<open>k\<close>-th new one, \<open>vs ! k\<close> is a copy of \<open>vs ! (k - 1)\<close> in
  which exactly the layer \<open>chain_layers ! (k - 1)\<close> was re-initialised: every other layer is
  the one of the predecessor, and the layer itself is what the initializer returned for the
  predecessor's layer. The indices are 6, 5, 3, 2, 1 in this order, index 4 is not among
  them, every layer outside the first \<open>k\<close> indices is still the loaded one, and the set of
  re-initialised indices grows strictly with \<open>k\<close>. The analyzers are those of the loaded
  network and of the five new ones, in order.
\<close>

theorem cascade_chain:
  assumes c: "cascade x s = Inr s'" and mv: "model s < length (networks s)"
  shows "\<exists>vs. length vs = 6 \<and> vs ! 0 = networks s ! model s \<and>
     networks s' = networks s @ tl vs \<and>
     map amodel (analyzers s') = model s # [length (networks s)..<length (networks s) + 5] \<and>
     filter is_init (new_calls s s') =
       map (\<lambda>k. InitLayer (length (networks s) + k) (chain_layers ! k)) [0..<5] \<and>
     (\<forall>k \<in> {1..5}.
        length (vs ! k) = length (vs ! 0) \<and>
        (\<forall>j. j \<noteq> chain_layers ! (k - 1) \<longrightarrow> vs ! k ! j = vs ! (k - 1) ! j) \<and>
        (\<exists>w w'. initializer x (vs ! (k - 1) ! (chain_layers ! (k - 1))) w =
                   Inr (vs ! k ! (chain_layers ! (k - 1)), w')) \<and>
        (\<forall>j. j \<notin> set (take k chain_layers) \<longrightarrow> vs ! k ! j = vs ! 0 ! j) \<and>
        set (take (k - 1) chain_layers) \<subset> set (take k chain_layers)) \<and>
     chain_layers = [6, 5, 3, 2, 1] \<and> 4 \<notin> set chain_layers"
proof -
  from c mv obtain l1 l2 l3 l4 l5 v1 v2 v3 v4 v5 where
    v: "v1 = (networks s ! model s)[6 := l1]" "v2 = v1[5 := l2]" "v3 = v2[3 := l3]"
      "v4 = v3[2 := l4]" "v5 = v4[1 := l5]"
    and len: "6 < length (networks s ! model s)"
    and i1: "\<exists>w w'. initializer x (networks s ! model s ! 6) w = Inr (l1, w')"
    and i2: "\<exists>w w'. initializer x (v1 ! 5) w = Inr (l2, w')"
    and i3: "\<exists>w w'. initializer x (v2 ! 3) w = Inr (l3, w')"
    and i4: "\<exists>w w'. initializer x (v3 ! 2) w = Inr (l4, w')"
    and i5: "\<exists>w w'. initializer x (v4 ! 1) w = Inr (l5, w')"
    and nw: "networks s' = networks s @ [v1, v2, v3, v4, v5]"
    and an: "analyzers s' = map explainer
        [model s, length (networks s), length (networks s) + 1, length (networks s) + 2,
         length (networks s) + 3, length (networks s) + 4]"
    and cl: "calls s' = calls s @
       InitLayer (length (networks s)) 6 # check_lines v1 (networks s ! model s) @
       InitLayer (length (networks s) + 1) 5 # check_lines v2 v1 @
       InitLayer (length (networks s) + 2) 3 # check_lines v3 v2 @
       InitLayer (length (networks s) + 3) 2 # check_lines v4 v3 @
       InitLayer (length (networks s) + 4) 1 # check_lines v5 v4"
    by (rule cascade_result)
  let ?v0 = "networks s ! model s"
  let ?vs = "[?v0, v1, v2, v3, v4, v5]"
  have lens: "length v1 = length ?v0" "length v2 = length ?v0" "length v3 = length ?v0"
    "length v4 = length ?v0" "length v5 = length ?v0"
    by (simp_all add: v)
  have e1: "v1 ! 6 = l1" using len by (simp add: v)
  have e2: "v2 ! 5 = l2" using len lens by (simp add: v(2))
  have e3: "v3 ! 3 = l3" using len lens by (simp add: v(3))
  have e4: "v4 ! 2 = l4" using len lens by (simp add: v(4))
  have e5: "v5 ! 1 = l5" using len lens by (simp add: v(5))
  have ups: "[0..<5] = [0, 1, 2, 3, 4 :: nat]" by (simp add: upt_rec)
  have an': "map amodel (analyzers s') = model s # [length (networks s)..<length (networks s) + 5]"
    by (simp add: an explainer_def upt_rec[of "length (networks s)"]
        upt_rec[of "Suc (length (networks s))"] upt_rec[of "Suc (Suc (length (networks s)))"]
        upt_rec[of "Suc (Suc (Suc (length (networks s))))"]
        upt_rec[of "Suc (Suc (Suc (Suc (length (networks s)))))"])
  have fi: "filter is_init (new_calls s s') =
       map (\<lambda>k. InitLayer (length (networks s) + k) (chain_layers ! k)) [0..<5]"
    by (simp add: new_calls_def cl ups chain_layers_def)
  have each: "length (?vs ! k) = length (?vs ! 0) \<and>
        (\<forall>j. j \<noteq> chain_layers ! (k - 1) \<longrightarrow> ?vs ! k ! j = ?vs ! (k - 1) ! j) \<and>
        (\<exists>w w'. initializer x (?vs ! (k - 1) ! (chain_layers ! (k - 1))) w =
                   Inr (?vs ! k ! (chain_layers ! (k - 1)), w')) \<and>
        (\<forall>j. j \<notin> set (take k chain_layers) \<longrightarrow> ?vs ! k ! j = ?vs ! 0 ! j) \<and>
        set (take (k - 1) chain_layers) \<subset> set (take k chain_layers)"
    if k: "k \<in> {1..5}" for k
  proof -
    from k consider "k = 1" | "k = 2" | "k = 3" | "k = 4" | "k = 5"
      by (auto simp: numeral_eq_Suc le_Suc_eq)
    then show ?thesis
    proof cases
      case 1
      have t: "take k chain_layers = [6]" "take (k - 1) chain_layers = []" "chain_layers ! (k - 1) = 6"
        "?vs ! k = v1" "?vs ! (k - 1) = ?v0"
        by (simp_all add: 1 chain_layers_def)
      have ps: "({} :: nat set) \<subset> {6}" using psubset_snoc[of "6::nat" "[]"] by simp
      from lens i1 e1 show ?thesis unfolding t by (auto simp: v(1) ps)
    next
      case 2
      have t: "take k chain_layers = [6, 5]" "take (k - 1) chain_layers = [6]"
        "chain_layers ! (k - 1) = 5" "?vs ! k = v2" "?vs ! (k - 1) = v1"
        by (simp_all add: 2 chain_layers_def take_Cons' nth_Cons')
      have ps: "({6} :: nat set) \<subset> {6, 5}" using psubset_snoc[of "5::nat" "[6]"] by simp
      from lens i2 e2 show ?thesis unfolding t by (auto simp: v(1,2) ps)
    next
      case 3
      have t: "take k chain_layers = [6, 5, 3]" "take (k - 1) chain_layers = [6, 5]"
        "chain_layers ! (k - 1) = 3" "?vs ! k = v3" "?vs ! (k - 1) = v2"
        by (simp_all add: 3 chain_layers_def take_Cons' nth_Cons')
      have ps: "({6, 5} :: nat set) \<subset> {6, 5, 3}" using psubset_snoc[of "3::nat" "[6, 5]"] by simp
      from lens i3 e3 show ?thesis unfolding t by (auto simp: v(1,2,3) ps)
    next
      case 4
      have t: "take k chain_layers = [6, 5, 3, 2]" "take (k - 1) chain_layers = [6, 5, 3]"
        "chain_layers ! (k - 1) = 2" "?vs ! k = v4" "?vs ! (k - 1) = v3"
        by (simp_all add: 4 chain_layers_def take_Cons' nth_Cons')
      have ps: "({6, 5, 3} :: nat set) \<subset> {6, 5, 3, 2}" using psubset_snoc[of "2::nat" "[6, 5, 3]"] by simp
      from lens i4 e4 show ?thesis unfolding t by (auto simp: v(1,2,3,4) ps)
    next
      case 5
      have t: "take k chain_layers = [6, 5, 3, 2, 1]" "take (k - 1) chain_layers = [6, 5, 3, 2]"
        "chain_layers ! (k - 1) = 1" "?vs ! k = v5" "?vs ! (k - 1) = v4"
        by (simp_all add: 5 chain_layers_def take_Cons' nth_Cons')
      have ps: "({6, 5, 3, 2} :: nat set) \<subset> {6, 5, 3, 2, Suc 0}" using psubset_snoc[of "1::nat" "[6, 5, 3, 2]"] by simp
      from lens i5 e5 show ?thesis unfolding t by (auto simp: v ps)
    qed
  qed
  show ?thesis
    apply (rule exI[of _ ?vs])
    using nw an' fi each by (simp add: chain_layers_def)
qed

theorem cascade_chain_witness:
  "\<exists>s'. cascade still_world mid_state = Inr s' \<and> length (networks s') = 6 \<and>
     filter is_init (new_calls mid_state s') =
       [InitLayer 1 6, InitLayer 2 5, InitLayer 3 3, InitLayer 4 2, InitLayer 5 1]"
proof -
  from cascade_total[OF still_world_benign mid_state_model]
  obtain s' where c: "cascade still_world mid_state = Inr s'" by blast
  have ups: "[0..<5] = [0, 1, 2, 3, 4 :: nat]" by (simp add: upt_rec)
  from cascade_chain[OF c mid_state_model(1)] c show ?thesis
    by (auto simp: mid_state_def chain_layers_def ups)
qed

text \<open>
  Claim C8. \<^verbatim>\<open>check_models\<close> only prints: for two networks of one architecture it returns,
  whatever the weights are, and the state it returns differs from the one it was given only
  by the printed lines, which state for each of the layers 1, 2, 3, 5 and 6 whether the
  kernels and whether the biases are equal. After each derivation the printed lines compare
  the new network with its immediate predecessor; the new network has the predecessor's
  layers everywhere except at the targeted index, where it has the layer the initializer
  returned.
\<close>

theorem check_models_prints:
  "(comparable (networks s ! m1) (networks s ! m0) \<longrightarrow>
      check_models m1 m0 s =
        Inr (s\<lparr>calls := calls s @ check_lines (networks s ! m1) (networks s ! m0)\<rparr>)) \<and>
   (derive x prev idx s = Inr (m, s') \<and> prev < length (networks s) \<longrightarrow>
      m = length (networks s) \<and> networks s' = networks s @ [networks s' ! m] \<and>
      filter is_print (new_calls s s') = check_lines (networks s' ! m) (networks s ! prev) \<and>
      (\<forall>i. i \<noteq> idx \<longrightarrow> networks s' ! m ! i = networks s ! prev ! i) \<and>
      (\<exists>w w'. initializer x (networks s ! prev ! idx) w = Inr (networks s' ! m ! idx, w')))"
proof -
  have a: "check_models m1 m0 s =
        Inr (s\<lparr>calls := calls s @ check_lines (networks s ! m1) (networks s ! m0)\<rparr>)"
    if "comparable (networks s ! m1) (networks s ! m0)"
  proof -
    from check_models_total[OF that] obtain t where t: "check_models m1 m0 s = Inr t" by blast
    from check_models_result[OF t] t show ?thesis by simp
  qed
  have b: "m = length (networks s) \<and> networks s' = networks s @ [networks s' ! m] \<and>
      filter is_print (new_calls s s') = check_lines (networks s' ! m) (networks s ! prev) \<and>
      (\<forall>i. i \<noteq> idx \<longrightarrow> networks s' ! m ! i = networks s ! prev ! i) \<and>
      (\<exists>w w'. initializer x (networks s ! prev ! idx) w = Inr (networks s' ! m ! idx, w'))"
    if d: "derive x prev idx s = Inr (m, s')" and pv: "prev < length (networks s)"
  proof -
    from derive_result[OF d pv] obtain l' w where
      m: "m = length (networks s)" and ix: "idx < length (networks s ! prev)"
      and ini: "initializer x (networks s ! prev ! idx) (world s) = Inr (l', w)"
      and nw: "networks s' = networks s @ [(networks s ! prev)[idx := l']]"
      and cl: "calls s' = calls s @ InitLayer m idx #
         check_lines ((networks s ! prev)[idx := l']) (networks s ! prev)"
      by blast
    have v: "networks s' ! m = (networks s ! prev)[idx := l']" by (simp add: nw m)
    have e: "networks s' ! m ! idx = l'" using ix by (simp add: v)
    have fp: "filter is_print (new_calls s s') = check_lines (networks s' ! m) (networks s ! prev)"
      by (simp add: new_calls_def cl v)
    have un: "\<forall>i. i \<noteq> idx \<longrightarrow> networks s' ! m ! i = networks s ! prev ! i"
      by (simp add: v)
    from ini e have "\<exists>w w'. initializer x (networks s ! prev ! idx) w = Inr (networks s' ! m ! idx, w')"
      by blast
    with m nw v fp un show ?thesis by simp
  qed
  from a b show ?thesis by blast
qed

theorem check_models_prints_witness:
  "check_models 0 0 mid_state =
     Inr (mid_state\<lparr>calls := calls mid_state @
        check_lines (networks mid_state ! 0) (networks mid_state ! 0)\<rparr>) \<and>
   (\<exists>s'. derive still_world 0 6 mid_state = Inr (1, s') \<and>
      filter is_print (new_calls mid_state s') =
        check_lines (networks s' ! 1) (networks mid_state ! 0) \<and>
      networks s' ! 1 ! 6 = [([1], [1]), ([1], [1])] \<and> networks s' ! 1 ! 5 = [([1], [0]), ([1], [0])])"
proof -
  from derive_total[OF still_world_benign, of 0 mid_state 6] mid_state_model
  obtain m s' where d: "derive still_world 0 6 mid_state = Inr (m, s')"
    by (auto simp: mid_state_def)
  have pv: "0 < length (networks mid_state)" by (simp add: mid_state_def)
  from check_models_prints[of mid_state 0 0 still_world 0 6 m s'] d pv mid_state_comparable
  have a: "check_models 0 0 mid_state =
     Inr (mid_state\<lparr>calls := calls mid_state @
        check_lines (networks mid_state ! 0) (networks mid_state ! 0)\<rparr>)"
    and m: "m = length (networks mid_state)"
    and fp: "filter is_print (new_calls mid_state s') =
        check_lines (networks s' ! m) (networks mid_state ! 0)"
    and un: "\<forall>i. i \<noteq> 6 \<longrightarrow> networks s' ! m ! i = networks mid_state ! 0 ! i"
    and ini: "\<exists>w w'. initializer still_world (networks mid_state ! 0 ! 6) w =
        Inr (networks s' ! m ! 6, w')"
    by blast+
  from m have m1: "m = 1" by (simp add: mid_state_def)
  from ini have six: "networks s' ! 1 ! 6 = [([1], [1]), ([1], [1])]"
    by (auto simp: m1 still_world_def mid_state_def)
  from un have five: "networks s' ! 1 ! 5 = [([1], [0]), ([1], [0])]"
    by (simp add: m1 mid_state_def)
  from a d fp six five show ?thesis by (simp add: m1)
qed

section \<open>The whole run\<close>

lemma run_loop_append:
  "run_loop x mt game approach kw (is @ js) s =
     bindE (run_loop x mt game approach kw is s) (run_loop x mt game approach kw js)"
proof (induction "is" arbitrary: s)
  case Nil
  show ?case by simp
next
  case (Cons i "is")
  show ?case
    by (cases "loop_body x mt game approach kw i s") (simp_all add: Cons.IH)
qed

lemma filter_filter_imp: "(\<And>e. P e \<Longrightarrow> Q e) \<Longrightarrow> filter P (filter Q xs) = filter P xs"
  by (induction xs) auto

lemma filter_through:
  assumes "filter Q xs = ys" and "\<And>e. P e \<Longrightarrow> Q e"
  shows "filter P xs = filter P ys"
  using filter_filter_imp[of P Q xs] assms by (simp del: filter_filter)

lemma not_generate_cases:
  "is_step e \<Longrightarrow> \<not> is_generate e" "is_predict e \<Longrightarrow> \<not> is_generate e"
  "is_sample e \<Longrightarrow> \<not> is_generate e" "is_print e \<Longrightarrow> \<not> is_generate e"
  "\<not> in_episode e \<Longrightarrow> \<not> is_generate e"
  by (cases e; simp)+

lemma filter_step_calls [simp]:
  "filter is_step (step_calls approach m fr a) = []"
  "filter is_sample (step_calls approach m fr a) = []"
  "filter (\<lambda>e. \<not> in_episode e) (step_calls approach m fr a) = []"
  "filter is_print (step_calls approach m fr a) = []"
  "length (filter is_predict (step_calls approach m fr a)) = 1"
  by (simp_all add: step_calls_def upt_rec[of 0] upt_rec[of 1] upt_rec[of 2] upt_rec[of 3]
      upt_rec[of 4] upt_rec[of 5] upt_rec[of 6])

lemma filter_progress_prints [simp]:
  "filter is_step (progress_prints x i s) = []"
  "filter is_sample (progress_prints x i s) = []"
  "filter is_predict (progress_prints x i s) = []"
  "filter in_episode (progress_prints x i s) = []"
  "filter (\<lambda>e. \<not> in_episode e) (progress_prints x i s) = progress_prints x i s"
  "filter is_print (progress_prints x i s) = progress_prints x i s"
  by (simp_all add: progress_prints_def)

lemma episode_entries_Cons:
  "episode_entries ((a, scs) # sts) = step_entries a scs @ episode_entries sts"
  by (simp add: episode_entries_def)

lemma run_policy:
  assumes "run_loop x mt game approach kw is s = Inr s'" and "\<forall>i\<in>set is. 4 \<le> i"
    and "frames_ok s"
  shows "\<exists>sts. length sts = length is \<and> list_all (\<lambda>st. length (snd st) = 7) sts \<and>
     list_all (\<lambda>st. list_all (\<lambda>sc. \<exists>ref cand. similarity mt ref cand = Inr sc) (snd st)) sts \<and>
     adds s (episode_entries sts) s' \<and>
     filter is_step (new_calls s s') = map (\<lambda>st. WrapperStep (fst st)) sts \<and>
     length (filter is_predict (new_calls s s')) = length is \<and>
     filter is_sample (new_calls s s') = [] \<and>
     filter (\<lambda>e. \<not> in_episode e) (new_calls s s') = filter is_print (new_calls s s') \<and>
     prefix (heap s) (heap s') \<and> networks s' = networks s \<and> model s' = model s \<and>
     frames_ok s' \<and> length (analyzers s') = length (analyzers s) \<and>
     prefix (calls s) (calls s') \<and>
     (quiet approach s \<longrightarrow> analyzers s' = analyzers s \<and> filter is_generate (new_calls s s') = [])"
  using assms
proof (induction "is" arbitrary: s)
  case Nil
  then have "s' = s" by simp
  with Nil.prems(3) show ?case
    by (intro exI[of _ "[]"]) (simp add: adds_Nil episode_entries_def new_calls_def)
next
  case (Cons i "is")
  from Cons.prems(1) obtain s1 where
    lb: "loop_body x mt game approach kw i s = Inr s1"
    and rl: "run_loop x mt game approach kw is s1 = Inr s'"
    by (auto simp: bindE_eq_Inr)
  from Cons.prems(2) have i: "4 \<le> i" and is4: "\<forall>i\<in>set is. 4 \<le> i" by simp_all
  from loop_body_policy_summary[OF lb i Cons.prems(3)]
  obtain action frames outp ref scs where
    sf: "stacked_frames s = Some frames"
    and ls: "length scs = 7"
    and sim: "list_all (\<lambda>sc. \<exists>cand. similarity mt ref cand = Inr sc) scs"
    and ad: "adds s (step_entries action scs) s1"
    and hp: "prefix (heap s) (heap s1)" and nw: "networks s1 = networks s"
    and md: "model s1 = model s" and fo: "frames_ok s1"
    and la: "length (analyzers s1) = length (analyzers s)"
    and pc: "prefix (calls s) (calls s1)"
    and fc: "filter (\<lambda>e. \<not> is_generate e) (new_calls s s1) =
        progress_prints x i s @ step_calls approach (model s) (read (heap s) frames) action @
        [WrapperStep action]"
    and q: "quiet approach s \<longrightarrow> analyzers s1 = analyzers s \<and>
         new_calls s s1 =
           progress_prints x i s @ step_calls approach (model s) (read (heap s) frames) action @
           [WrapperStep action]"
    by blast
  from Cons.IH[OF rl is4 fo] obtain sts where
    l: "length sts = length is" and l7: "list_all (\<lambda>st. length (snd st) = 7) sts"
    and sims: "list_all (\<lambda>st. list_all (\<lambda>sc. \<exists>ref cand. similarity mt ref cand = Inr sc) (snd st)) sts"
    and ad': "adds s1 (episode_entries sts) s'"
    and fs': "filter is_step (new_calls s1 s') = map (\<lambda>st. WrapperStep (fst st)) sts"
    and fp': "length (filter is_predict (new_calls s1 s')) = length is"
    and fa': "filter is_sample (new_calls s1 s') = []"
    and fe': "filter (\<lambda>e. \<not> in_episode e) (new_calls s1 s') = filter is_print (new_calls s1 s')"
    and hp': "prefix (heap s1) (heap s')" and nw': "networks s' = networks s1"
    and md': "model s' = model s1" and fo': "frames_ok s'"
    and la': "length (analyzers s') = length (analyzers s1)"
    and pc': "prefix (calls s1) (calls s')"
    and q': "quiet approach s1 \<longrightarrow> analyzers s' = analyzers s1 \<and> filter is_generate (new_calls s1 s') = []"
    by blast
  let ?sts = "(action, scs) # sts"
  have nc: "new_calls s s' = new_calls s s1 @ new_calls s1 s'"
    by (rule new_calls_trans[OF pc pc'])
  have f1: "filter is_step (new_calls s s1) = [WrapperStep action]"
    using filter_through[OF fc, of "is_step"] by (simp add: not_generate_cases)
  have f2: "length (filter is_predict (new_calls s s1)) = 1"
    using filter_through[OF fc, of is_predict] by (simp add: not_generate_cases)
  have f3: "filter is_sample (new_calls s s1) = []"
    using filter_through[OF fc, of "is_sample"] by (simp add: not_generate_cases)
  have f4: "filter (\<lambda>e. \<not> in_episode e) (new_calls s s1) = progress_prints x i s"
    using filter_through[OF fc, of "\<lambda>e. \<not> in_episode e"] by (simp add: not_generate_cases)
  have f5: "filter is_print (new_calls s s1) = progress_prints x i s"
    using filter_through[OF fc, of "is_print"] by (simp add: not_generate_cases)
  have sim': "list_all (\<lambda>sc. \<exists>ref cand. similarity mt ref cand = Inr sc) scs"
    using sim unfolding list_all_iff by blast
  have qq: "analyzers s' = analyzers s \<and> filter is_generate (new_calls s s') = []"
    if qs: "quiet approach s"
  proof -
    from q qs have a1: "analyzers s1 = analyzers s"
      and n1: "new_calls s s1 =
           progress_prints x i s @ step_calls approach (model s) (read (heap s) frames) action @
           [WrapperStep action]" by simp_all
    from qs a1 have "quiet approach s1" by (simp add: quiet_def)
    with q' have a2: "analyzers s' = analyzers s1" and g2: "filter is_generate (new_calls s1 s') = []"
      by simp_all
    have "filter is_generate (new_calls s s1) = []"
      using arg_cong[OF fc, of "filter is_generate"] unfolding n1[symmetric]
      by (simp add: n1 progress_prints_def step_calls_def)
    with a1 a2 g2 show ?thesis by (simp add: nc)
  qed
  show ?case
    apply (rule exI[of _ ?sts])
    using l ls l7 sims sim' adds_trans[OF ad ad'] f1 f2 f3 f4 f5 fs' fp' fa' fe' hp hp' nw nw' md md'
      fo' la la' pc pc' qq
    by (simp add: nc episode_entries_Cons prefix_order.order_trans[OF hp hp']
        prefix_order.order_trans[OF pc pc'])
qed

lemma warm_up_rise_zero:
  assumes wu: "warm_up x game ''rise'' kw 3 s = Inr (action, s1)"
    and len: "6 \<le> length (analyzers s)"
  shows "amodel (analyzers s1 ! 0) = amodel (analyzers s ! 0)"
proof -
  from wu obtain sampled w where sm: "sample x (world s) = Inr (sampled, w)"
    by (auto simp: warm_up_def bindE_eq_Inr)
  define sa where "sa = emit Sample (s\<lparr>world := w\<rparr>)"
  from wu sm have rw: "rise_warm_up x ''rise'' kw sa = Inr s1"
    by (auto simp: warm_up_def bindE_eq_Inr Let_def sa_def)
  have sa: "heap sa = heap s" "analyzers sa = analyzers s"
    by (simp_all add: sa_def emit_def)
  from rw obtain frames og sb where fr: "stacked_frames sa = Some frames"
    and sf: "saliency_fn x ''rise'' kw 0 frames None sa = Inr (og, sb)"
    and s1: "s1 = share_masks 5 (share_masks 4 (share_masks 3 (share_masks 2 (share_masks 1 sb))))"
    by (auto simp: rise_warm_up_def bindE_eq_Inr split: option.splits)
  note a = saliency_fn_result[OF sf]
  have lb: "length (analyzers sb) = length (analyzers s)" using a sa by simp
  from len have len': "6 \<le> length (analyzers sb)" using lb by simp
  note sh = share_all[OF len', folded s1]
  have pos: "0 < length (analyzers s)" using len by linarith
  have "amodel (analyzers sb ! 0) = amodel (analyzers s ! 0)"
    using a sa pos by (auto split: if_splits)
  with sh show ?thesis by simp
qed

lemma loop_body_rise3:
  assumes lb: "loop_body x mt game ''rise'' kw 3 s = Inr s'"
    and six: "6 \<le> length (analyzers s)" and ng: "\<not> masks_generated (analyzers s ! 0)"
  shows "adds s [] s' \<and> prefix (heap s) (heap s') \<and> networks s' = networks s \<and>
     model s' = model s \<and> frames_ok s' \<and> stacked_frames s' \<noteq> None \<and>
     length (analyzers s') = length (analyzers s) \<and>
     (\<exists>frames. stacked_frames s = Some frames \<and>
        calls s' = calls s @ [Sample, Explain ''rise'' 0 (read (heap s) frames) None,
                     GenerateMasks 0, WrapperStep (if game = ''breakout'' then 1 else 0)]) \<and>
     (\<exists>sh. \<forall>k<6. rise_masks (analyzers s' ! k) = Some \<lparr>buf = length (heap s), shape = sh\<rparr> \<and>
          masks_generated (analyzers s' ! k) \<and>
          amodel (analyzers s' ! k) = amodel (analyzers s ! k))"
proof -
  let ?s0 = "s\<lparr>calls := calls s @ progress_prints x 3 s\<rparr>"
  have s0: "?s0 = s" by (simp add: progress_prints_def)
  from lb obtain action s1 where
    wu: "warm_up x game ''rise'' kw 3 s = Inr (action, s1)"
    and st: "bindE (wrapper_step x action (world s1)) (\<lambda>(t, w).
      case returned t (emit (WrapperStep action) (s1\<lparr>world := w\<rparr>)) of (frames, s2) \<Rightarrow>
      Inr (s2\<lparr>stacked_frames := Some frames\<rparr>)) = Inr s'"
    unfolding loop_body_unfold s0 by (auto simp: bindE_eq_Inr)
  note e = env_step_result[OF st]
  note r = warm_up_rise[OF wu]
  note z = warm_up_rise_zero[OF wu six]
  from r six ng obtain sh where
    sh: "rise_masks (analyzers s1 ! 0) = Some \<lparr>buf = length (heap s), shape = sh\<rparr>"
    by auto
  have an: "rise_masks (analyzers s' ! k) = Some \<lparr>buf = length (heap s), shape = sh\<rparr> \<and>
          masks_generated (analyzers s' ! k) \<and>
          amodel (analyzers s' ! k) = amodel (analyzers s ! k)" if "k < 6" for k
  proof (cases "k = 0")
    case True
    with r six sh z e show ?thesis by simp
  next
    case False
    with that have "0 < k \<and> k < 6" by simp
    with r six sh e show ?thesis by simp
  qed
  from r ng obtain frames where fr: "stacked_frames s = Some frames"
    and cl: "calls s1 = calls s @ [Sample, Explain ''rise'' 0 (read (heap s) frames) None,
        GenerateMasks 0]" by auto
  have "adds s [] s'" using r e by (simp add: adds_Nil)
  moreover have "prefix (heap s) (heap s')" "networks s' = networks s" "model s' = model s"
    using r e by (auto simp: fixed_def intro: prefix_order.order_trans)
  moreover have "length (analyzers s') = length (analyzers s)" using r e by simp
  moreover have "\<exists>frames. stacked_frames s = Some frames \<and>
        calls s' = calls s @ [Sample, Explain ''rise'' 0 (read (heap s) frames) None,
                     GenerateMasks 0, WrapperStep (if game = ''breakout'' then 1 else 0)]"
    using fr cl r e by simp
  moreover have "\<exists>sh. \<forall>k<6. rise_masks (analyzers s' ! k) = Some \<lparr>buf = length (heap s), shape = sh\<rparr> \<and>
          masks_generated (analyzers s' ! k) \<and>
          amodel (analyzers s' ! k) = amodel (analyzers s ! k)"
    using an by blast
  ultimately show ?thesis using e by simp
qed

lemma run_warm:
  assumes "run_loop x mt game approach kw is s = Inr s'"
    and "\<forall>i\<in>set is. i < 4 \<and> \<not> (approach = ''rise'' \<and> i = 3)"
  shows "adds s [] s' \<and> prefix (heap s) (heap s') \<and> networks s' = networks s \<and>
     model s' = model s \<and> analyzers s' = analyzers s \<and> prefix (calls s) (calls s') \<and>
     (is \<noteq> [] \<longrightarrow> frames_ok s' \<and> stacked_frames s' \<noteq> None) \<and>
     filter in_episode (new_calls s s') =
       concat (map (\<lambda>i. [Sample, WrapperStep (if game = ''breakout'' then 1 else 0)]) is) \<and>
     filter (\<lambda>e. \<not> in_episode e) (new_calls s s') = filter is_print (new_calls s s')"
  using assms
proof (induction "is" arbitrary: s' rule: rev_induct)
  case Nil
  then have "s' = s" by simp
  then show ?case by (simp add: adds_Nil new_calls_def)
next
  case (snoc i "is")
  from snoc.prems(1) obtain s1 where
    rl: "run_loop x mt game approach kw is s = Inr s1"
    and lb: "loop_body x mt game approach kw i s1 = Inr s'"
    by (auto simp: run_loop_append bindE_eq_Inr)
  from snoc.prems(2) have i: "i < 4" and n3: "\<not> (approach = ''rise'' \<and> i = 3)"
    and rest: "\<forall>i\<in>set is. i < 4 \<and> \<not> (approach = ''rise'' \<and> i = 3)" by simp_all
  note a = snoc.IH[OF rl rest]
  note b = loop_body_warm[OF lb i]
  from b n3 have an: "analyzers s' = analyzers s1"
    and nc1: "new_calls s1 s' =
          progress_prints x i s1 @ [Sample, WrapperStep (if game = ''breakout'' then 1 else 0)]"
    by simp_all
  from a b have pc: "prefix (calls s) (calls s1)" and pc': "prefix (calls s1) (calls s')"
    by simp_all
  have nc: "new_calls s s' = new_calls s s1 @ new_calls s1 s'"
    by (rule new_calls_trans[OF pc pc'])
  have "adds s [] s'" using a b by (simp add: adds_Nil)
  moreover have "prefix (heap s) (heap s')" using a b by (meson prefix_order.order_trans)
  moreover have "prefix (calls s) (calls s')" using pc pc' by (meson prefix_order.order_trans)
  ultimately show ?case using a b an by (simp add: nc nc1)
qed

lemma io_call_result:
  assumes "io_call x e s = Inr s'"
  shows "adds s [] s' \<and> heap s' = heap s \<and> networks s' = networks s \<and> model s' = model s \<and>
     analyzers s' = analyzers s \<and> stacked_frames s' = stacked_frames s \<and>
     calls s' = calls s @ [e]"
  using assms by (auto simp: io_call_def bindE_eq_Inr emit_def adds_Nil)

lemma prologue_result:
  assumes p: "prologue x game s = Inr s'"
  shows "adds s [] s' \<and> heap s' = heap s \<and> analyzers s' = analyzers s \<and>
     stacked_frames s' = stacked_frames s \<and> model s' = length (networks s) \<and>
     (\<exists>net f w w'. load_model x f w = Inr (net, w') \<and> networks s' = networks s @ [net]) \<and>
     prefix (calls s) (calls s') \<and> filter in_episode (new_calls s s') = [] \<and>
     filter is_print (new_calls s s') = [] \<and> game_files game \<noteq> None"
proof -
  let ?d = "path_join ''results'' game"
  from p obtain s1 where
    1: "(if \<not> isdir x ?d (world s) then io_call x (Makedirs ?d) s else Inr s) = Inr s1"
    and r1: "bindE (io_call x (Seed 42) s1) (\<lambda>s2.
      case game_files game of
        None \<Rightarrow> Inl UnboundLocalError
      | Some (model_file, env_id) \<Rightarrow>
          bindE (load_model x model_file (world s2)) (\<lambda>(net, w).
          let s3 = emit (LoadModel model_file)
                     (s2\<lparr>world := w, networks := networks s2 @ [net],
                         model := length (networks s2)\<rparr>) in
          bindE (io_call x (GymMake env_id) s3) (\<lambda>s4.
          bindE (io_call x (Summary (model s4)) s4) (\<lambda>s5.
          bindE (io_call x EnvReset s5) (\<lambda>s6.
          bindE (io_call x AtariWrapper s6) (\<lambda>s7.
          bindE (if game = ''spaceInvaders'' \<or> game = ''breakout''
                 then io_call x SetFireReset s7 else Inr s7) (\<lambda>s8.
          io_call x (WrapperReset 1) s8))))))) = Inr s'"
    unfolding prologue_def Let_def by (auto simp: bindE_eq_Inr)
  from r1 obtain s2 where 2: "io_call x (Seed 42) s1 = Inr s2"
    and r2: "(case game_files game of
        None \<Rightarrow> Inl UnboundLocalError
      | Some (model_file, env_id) \<Rightarrow>
          bindE (load_model x model_file (world s2)) (\<lambda>(net, w).
          let s3 = emit (LoadModel model_file)
                     (s2\<lparr>world := w, networks := networks s2 @ [net],
                         model := length (networks s2)\<rparr>) in
          bindE (io_call x (GymMake env_id) s3) (\<lambda>s4.
          bindE (io_call x (Summary (model s4)) s4) (\<lambda>s5.
          bindE (io_call x EnvReset s5) (\<lambda>s6.
          bindE (io_call x AtariWrapper s6) (\<lambda>s7.
          bindE (if game = ''spaceInvaders'' \<or> game = ''breakout''
                 then io_call x SetFireReset s7 else Inr s7) (\<lambda>s8.
          io_call x (WrapperReset 1) s8))))))) = Inr s'"
    by (auto simp: bindE_eq_Inr)
  from r2 obtain model_file env_id where gf: "game_files game = Some (model_file, env_id)"
    by (cases "game_files game") auto
  from r2 gf obtain net w where lm: "load_model x model_file (world s2) = Inr (net, w)"
    and r3: "bindE (io_call x (GymMake env_id) (emit (LoadModel model_file)
                     (s2\<lparr>world := w, networks := networks s2 @ [net],
                         model := length (networks s2)\<rparr>))) (\<lambda>s4.
          bindE (io_call x (Summary (model s4)) s4) (\<lambda>s5.
          bindE (io_call x EnvReset s5) (\<lambda>s6.
          bindE (io_call x AtariWrapper s6) (\<lambda>s7.
          bindE (if game = ''spaceInvaders'' \<or> game = ''breakout''
                 then io_call x SetFireReset s7 else Inr s7) (\<lambda>s8.
          io_call x (WrapperReset 1) s8))))) = Inr s'"
    by (auto simp: bindE_eq_Inr Let_def)
  define s3 where "s3 = emit (LoadModel model_file)
                     (s2\<lparr>world := w, networks := networks s2 @ [net],
                         model := length (networks s2)\<rparr>)"
  from r3 obtain s4 s5 s6 s7 s8 where
    4: "io_call x (GymMake env_id) s3 = Inr s4"
    and 5: "io_call x (Summary (model s4)) s4 = Inr s5"
    and 6: "io_call x EnvReset s5 = Inr s6"
    and 7: "io_call x AtariWrapper s6 = Inr s7"
    and 8: "(if game = ''spaceInvaders'' \<or> game = ''breakout''
                 then io_call x SetFireReset s7 else Inr s7) = Inr s8"
    and 9: "io_call x (WrapperReset 1) s8 = Inr s'"
    unfolding s3_def[symmetric] by (auto simp: bindE_eq_Inr)
  have a1: "adds s [] s1 \<and> heap s1 = heap s \<and> networks s1 = networks s \<and> model s1 = model s \<and>
     analyzers s1 = analyzers s \<and> stacked_frames s1 = stacked_frames s \<and>
     (\<exists>evs. calls s1 = calls s @ evs \<and> filter in_episode evs = [] \<and> filter is_print evs = [])"
  proof (cases "isdir x ?d (world s)")
    case True
    with 1 have "s1 = s" by simp
    then show ?thesis by (simp add: adds_Nil)
  next
    case False
    with 1 have "io_call x (Makedirs ?d) s = Inr s1" by simp
    from io_call_result[OF this] show ?thesis by simp
  qed
  note a2 = io_call_result[OF 2]
  have a3: "adds s2 [] s3 \<and> heap s3 = heap s2 \<and> networks s3 = networks s2 @ [net] \<and>
     model s3 = length (networks s2) \<and>
     analyzers s3 = analyzers s2 \<and> stacked_frames s3 = stacked_frames s2 \<and>
     calls s3 = calls s2 @ [LoadModel model_file]"
    by (simp add: s3_def emit_def adds_Nil)
  note a4 = io_call_result[OF 4]
  note a5 = io_call_result[OF 5]
  note a6 = io_call_result[OF 6]
  note a7 = io_call_result[OF 7]
  have a8: "adds s7 [] s8 \<and> heap s8 = heap s7 \<and> networks s8 = networks s7 \<and> model s8 = model s7 \<and>
     analyzers s8 = analyzers s7 \<and> stacked_frames s8 = stacked_frames s7 \<and>
     (\<exists>evs. calls s8 = calls s7 @ evs \<and> filter in_episode evs = [] \<and> filter is_print evs = [])"
  proof (cases "game = ''spaceInvaders'' \<or> game = ''breakout''")
    case False
    with 8 have "s8 = s7" by simp
    then show ?thesis by (simp add: adds_Nil)
  next
    case True
    with 8 have "io_call x SetFireReset s7 = Inr s8" by simp
    from io_call_result[OF this] show ?thesis by simp
  qed
  note a9 = io_call_result[OF 9]
  from a1 obtain e1 where e1: "calls s1 = calls s @ e1" "filter in_episode e1 = []"
    "filter is_print e1 = []" by blast
  from a8 obtain e8 where e8: "calls s8 = calls s7 @ e8" "filter in_episode e8 = []"
    "filter is_print e8 = []" by blast
  have cl: "calls s' = calls s @ e1 @ [Seed 42, LoadModel model_file, GymMake env_id,
      Summary (model s4), EnvReset, AtariWrapper] @ e8 @ [WrapperReset 1]"
    using e1(1) a2 a3 a4 a5 a6 a7 e8(1) a9 by simp
  have "adds s [] s'" using a1 a2 a3 a4 a5 a6 a7 a8 a9 by (simp add: adds_Nil)
  moreover have "heap s' = heap s" "analyzers s' = analyzers s"
    "stacked_frames s' = stacked_frames s" "model s' = length (networks s)"
    "networks s' = networks s @ [net]"
    using a1 a2 a3 a4 a5 a6 a7 a8 a9 by simp_all
  moreover have "prefix (calls s) (calls s')" by (simp add: cl)
  moreover have "filter in_episode (new_calls s s') = []" "filter is_print (new_calls s s') = []"
    by (simp_all add: new_calls_def cl e1 e8)
  ultimately show ?thesis using lm gf by blast
qed

lemma fixed_start_result:
  assumes "fixed_start x game s = Inr s'"
  shows "adds s [] s' \<and> heap s' = heap s \<and> networks s' = networks s \<and> model s' = model s \<and>
     analyzers s' = analyzers s \<and> stacked_frames s' = stacked_frames s \<and>
     prefix (calls s) (calls s') \<and> filter in_episode (new_calls s s') = [] \<and>
     filter is_print (new_calls s s') = []"
proof (cases "game = ''pacman''")
  case True
  with assms have "io_call x (FixedReset 200 0) s = Inr s'" by (simp add: fixed_start_def)
  from io_call_result[OF this] show ?thesis by (simp add: new_calls_def)
next
  case False
  with assms have "io_call x (FixedReset 1 0) s = Inr s'" by (simp add: fixed_start_def)
  from io_call_result[OF this] show ?thesis by (simp add: new_calls_def)
qed

lemma build_frame_table:
  assumes "adds (entry w) recs s"
  shows "build_frame s = Inr (table_of recs)"
proof -
  from assms have l: "model_list s = map fst recs"
    "pearson_list s = map (\<lambda>r. fst (fst (snd r))) recs"
    "ssim_list s = map (\<lambda>r. fst (snd (fst (snd r)))) recs"
    "spearman_list s = map (\<lambda>r. snd (snd (fst (snd r)))) recs"
    "action_list s = map (\<lambda>r. snd (snd r)) recs"
    by (simp_all add: adds_def entry_def)
  show ?thesis
  proof (cases "recs = []")
    case True
    then show ?thesis
      by (simp add: build_frame_def l DataFrame_def set_column_def table_of_def)
  next
    case False
    then have "length recs \<noteq> 0" by simp
    then show ?thesis
      by (simp add: build_frame_def l DataFrame_def set_column_def table_of_def comp_def)
  qed
qed

lemma upt_steps: "[0..<steps] = [0, 1, 2] @ [3] @ [4..<steps]"
proof -
  have "[0..<4 + 997] = [0..<4] @ [4..<4 + 997]" by (rule upt_add_eq_append) simp
  moreover have "[0..<4] = [0, 1, 2, 3 :: nat]" by (simp add: upt_rec)
  ultimately show ?thesis by (simp add: steps_def)
qed

lemma in_episode_cases:
  "is_step e \<Longrightarrow> in_episode e" "is_sample e \<Longrightarrow> in_episode e" "is_predict e \<Longrightarrow> in_episode e"
  "is_generate e \<Longrightarrow> in_episode e"
  by (cases e; simp)+

lemma filter_in_episode:
  "filter is_step (filter in_episode xs) = filter is_step xs"
  "filter is_sample (filter in_episode xs) = filter is_sample xs"
  "filter is_predict (filter in_episode xs) = filter is_predict xs"
  "filter is_generate (filter in_episode xs) = filter is_generate xs"
  by (rule filter_filter_imp, erule in_episode_cases)+

lemma quiet_shared:
  assumes "6 \<le> length (analyzers s)" and "\<forall>k<6. masks_generated (analyzers s ! k)"
  shows "quiet approach s"
  using assms by (simp add: quiet_def list_all_length)

lemma loop_body_three:
  assumes lb: "loop_body x mt game approach kw 3 s = Inr s'"
    and six: "6 \<le> length (analyzers s)" and ng: "\<not> masks_generated (analyzers s ! 0)"
  shows "adds s [] s' \<and> prefix (heap s) (heap s') \<and> networks s' = networks s \<and>
     model s' = model s \<and> frames_ok s' \<and> length (analyzers s') = length (analyzers s) \<and>
     prefix (calls s) (calls s') \<and> quiet approach s' \<and>
     (\<exists>frames. new_calls s s' = [Sample] @
        (if approach = ''rise'' then [Explain ''rise'' 0 frames None, GenerateMasks 0] else []) @
        [WrapperStep (if game = ''breakout'' then 1 else 0)]) \<and>
     (if approach = ''rise''
      then \<exists>m. \<forall>k<6. rise_masks (analyzers s' ! k) = Some m \<and>
             masks_generated (analyzers s' ! k) \<and>
             amodel (analyzers s' ! k) = amodel (analyzers s ! k)
      else analyzers s' = analyzers s)"
proof (cases "approach = ''rise''")
  case True
  with lb have lb': "loop_body x mt game ''rise'' kw 3 s = Inr s'" by simp
  note r = loop_body_rise3[OF lb' six ng]
  from r obtain frames where cl: "calls s' = calls s @ [Sample, Explain ''rise'' 0 (read (heap s) frames) None,
                     GenerateMasks 0, WrapperStep (if game = ''breakout'' then 1 else 0)]" by blast
  from r obtain sh where sh: "\<forall>k<6. rise_masks (analyzers s' ! k) = Some \<lparr>buf = length (heap s), shape = sh\<rparr> \<and>
          masks_generated (analyzers s' ! k) \<and>
          amodel (analyzers s' ! k) = amodel (analyzers s ! k)" by blast
  have q: "quiet approach s'" using r six sh by (intro quiet_shared) simp_all
  have nc: "\<exists>frames. new_calls s s' = [Sample] @
        (if approach = ''rise'' then [Explain ''rise'' 0 frames None, GenerateMasks 0] else []) @
        [WrapperStep (if game = ''breakout'' then 1 else 0)]"
    using True by (simp add: new_calls_def cl)
  have pc: "prefix (calls s) (calls s')" by (simp add: cl)
  have "\<exists>m. \<forall>k<6. rise_masks (analyzers s' ! k) = Some m \<and>
             masks_generated (analyzers s' ! k) \<and>
             amodel (analyzers s' ! k) = amodel (analyzers s ! k)"
    using sh by blast
  with r q nc pc True show ?thesis by simp
next
  case False
  note r = loop_body_warm[OF lb, simplified]
  have pp: "progress_prints x 3 s = []" by (simp add: progress_prints_def)
  from False have q: "quiet approach s'" by (simp add: quiet_def)
  from r False q show ?thesis by (simp add: pp)
qed

lemma episode_result:
  assumes rl: "run_loop x mt game approach kw [0..<steps] s = Inr s'"
    and six: "6 \<le> length (analyzers s)" and ng: "\<not> masks_generated (analyzers s ! 0)"
  shows "\<exists>sts frames post.
     length sts = steps - 4 \<and> list_all (\<lambda>st. length (snd st) = 7) sts \<and>
     list_all (\<lambda>st. list_all (\<lambda>sc. \<exists>ref cand. similarity mt ref cand = Inr sc) (snd st)) sts \<and>
     adds s (episode_entries sts) s' \<and>
     filter in_episode (new_calls s s') =
       concat (replicate 3 [Sample, WrapperStep (if game = ''breakout'' then 1 else 0)]) @
       [Sample] @
       (if approach = ''rise'' then [Explain ''rise'' 0 frames None, GenerateMasks 0] else []) @
       [WrapperStep (if game = ''breakout'' then 1 else 0)] @ post \<and>
     filter is_step post = map (\<lambda>st. WrapperStep (fst st)) sts \<and>
     length (filter is_predict post) = steps - 4 \<and> filter is_sample post = [] \<and>
     filter is_generate post = [] \<and>
     filter (\<lambda>e. \<not> in_episode e) (new_calls s s') = filter is_print (new_calls s s') \<and>
     prefix (heap s) (heap s') \<and> networks s' = networks s \<and> model s' = model s \<and>
     length (analyzers s') = length (analyzers s) \<and> prefix (calls s) (calls s') \<and>
     (if approach = ''rise''
      then \<exists>m. \<forall>k<6. rise_masks (analyzers s' ! k) = Some m \<and>
             masks_generated (analyzers s' ! k) \<and>
             amodel (analyzers s' ! k) = amodel (analyzers s ! k)
      else analyzers s' = analyzers s)"
proof -
  let ?a = "if game = ''breakout'' then 1 else 0 :: int"
  from rl obtain s1 s2 where
    r1: "run_loop x mt game approach kw [0, 1, 2] s = Inr s1"
    and r2: "loop_body x mt game approach kw 3 s1 = Inr s2"
    and r3: "run_loop x mt game approach kw [4..<steps] s2 = Inr s'"
    unfolding upt_steps run_loop_append by (auto simp: bindE_eq_Inr)
  have w: "\<forall>i\<in>set [0, 1, 2 :: nat]. i < 4 \<and> \<not> (approach = ''rise'' \<and> i = 3)" by simp
  note a = run_warm[OF r1 w]
  from a six ng have six1: "6 \<le> length (analyzers s1)"
    and ng1: "\<not> masks_generated (analyzers s1 ! 0)" by simp_all
  note b = loop_body_three[OF r2 six1 ng1]
  from b have fo2: "frames_ok s2" and q2: "quiet approach s2" by simp_all
  have p: "\<forall>i\<in>set [4..<steps]. 4 \<le> i" by simp
  from run_policy[OF r3 p fo2] q2 obtain sts where
    l: "length sts = length [4..<steps]" and l7: "list_all (\<lambda>st. length (snd st) = 7) sts"
    and sims: "list_all (\<lambda>st. list_all (\<lambda>sc. \<exists>ref cand. similarity mt ref cand = Inr sc) (snd st)) sts"
    and ad: "adds s2 (episode_entries sts) s'"
    and fs: "filter is_step (new_calls s2 s') = map (\<lambda>st. WrapperStep (fst st)) sts"
    and fp: "length (filter is_predict (new_calls s2 s')) = length [4..<steps]"
    and fa: "filter is_sample (new_calls s2 s') = []"
    and fe: "filter (\<lambda>e. \<not> in_episode e) (new_calls s2 s') = filter is_print (new_calls s2 s')"
    and hp: "prefix (heap s2) (heap s')" and nw: "networks s' = networks s2"
    and md: "model s' = model s2"
    and la: "length (analyzers s') = length (analyzers s2)"
    and pc: "prefix (calls s2) (calls s')"
    and an: "analyzers s' = analyzers s2" and fg: "filter is_generate (new_calls s2 s') = []"
    by blast
  from b obtain frames where nc2: "new_calls s1 s2 = [Sample] @
        (if approach = ''rise'' then [Explain ''rise'' 0 frames None, GenerateMasks 0] else []) @
        [WrapperStep ?a]" by blast
  from a b have pc1: "prefix (calls s) (calls s1)" and pc2: "prefix (calls s1) (calls s2)"
    by simp_all
  have pc12: "prefix (calls s) (calls s2)" using pc1 pc2 by (meson prefix_order.order_trans)
  have nc: "new_calls s s' = new_calls s s1 @ new_calls s1 s2 @ new_calls s2 s'"
    using new_calls_trans[OF pc12 pc] new_calls_trans[OF pc1 pc2] by simp
  let ?post = "filter in_episode (new_calls s2 s')"
  have ie: "filter in_episode (new_calls s s') =
       concat (replicate 3 [Sample, WrapperStep ?a]) @ [Sample] @
       (if approach = ''rise'' then [Explain ''rise'' 0 frames None, GenerateMasks 0] else []) @
       [WrapperStep ?a] @ ?post"
    using a by (simp add: nc nc2 numeral_3_eq_3)
  have ne: "filter (\<lambda>e. \<not> in_episode e) (new_calls s s') = filter is_print (new_calls s s')"
    using a fe by (simp add: nc nc2)
  have ad': "adds s (episode_entries sts) s'"
    using a b ad adds_trans[of s "[]" s1 "[]" s2] adds_trans[of s "[]" s2 "episode_entries sts" s']
    by simp
  have hp': "prefix (heap s) (heap s')" using a b hp by (meson prefix_order.order_trans)
  have pc': "prefix (calls s) (calls s')" using pc12 pc by (meson prefix_order.order_trans)
  have an': "if approach = ''rise''
      then \<exists>m. \<forall>k<6. rise_masks (analyzers s' ! k) = Some m \<and>
             masks_generated (analyzers s' ! k) \<and>
             amodel (analyzers s' ! k) = amodel (analyzers s ! k)
      else analyzers s' = analyzers s"
    using a b an by (simp split: if_splits)
  have len: "length sts = steps - 4" using l by simp
  have fp': "length (filter is_predict ?post) = steps - 4" using fp by (simp add: filter_in_episode del: filter_filter)
  have fs': "filter is_step ?post = map (\<lambda>st. WrapperStep (fst st)) sts" using fs by (simp add: filter_in_episode del: filter_filter)
  have fa': "filter is_sample ?post = []" using fa by (simp add: filter_in_episode del: filter_filter)
  have fg': "filter is_generate ?post = []" using fg by (simp add: filter_in_episode del: filter_filter)
  have rest: "networks s' = networks s" "model s' = model s" "length (analyzers s') = length (analyzers s)"
    using a b nw md la by simp_all
  show ?thesis
    apply (rule exI[of _ sts], rule exI[of _ frames], rule exI[of _ ?post])
    using len l7 sims ad' ie fs' fp' fa' fg' ne hp' rest pc' an' by blast
qed

lemma filter_in_episode_check_lines [simp]: "filter in_episode (check_lines a b) = []"
  by (simp add: check_lines_def)

lemma prologue_total:
  assumes b: "benign x" and g: "game_files game \<noteq> None"
  shows "\<exists>s'. prologue x game s = Inr s'"
proof -
  let ?d = "path_join ''results'' game"
  have io: "\<exists>t'. io_call x e t = Inr t'" for e and t :: "'a state"
    using io_call_total[OF b, of e t] by blast
  have "\<exists>s1. (if \<not> isdir x ?d (world s) then io_call x (Makedirs ?d) s else Inr s) = Inr s1"
    using io by simp
  then obtain s1 where 1: "(if \<not> isdir x ?d (world s) then io_call x (Makedirs ?d) s else Inr s) = Inr s1" ..
  from io obtain s2 where 2: "io_call x (Seed 42) s1 = Inr s2" by blast
  from g obtain model_file env_id where gf: "game_files game = Some (model_file, env_id)"
    by (cases "game_files game") auto
  from benignD(2)[OF b, of model_file "world s2"] obtain net w where
    lm: "load_model x model_file (world s2) = Inr (net, w)"
    by (cases "load_model x model_file (world s2)") auto
  define s3 where "s3 = emit (LoadModel model_file)
                     (s2\<lparr>world := w, networks := networks s2 @ [net],
                         model := length (networks s2)\<rparr>)"
  from io obtain s4 where 4: "io_call x (GymMake env_id) s3 = Inr s4" by blast
  from io obtain s5 where 5: "io_call x (Summary (model s4)) s4 = Inr s5" by blast
  from io obtain s6 where 6: "io_call x EnvReset s5 = Inr s6" by blast
  from io obtain s7 where 7: "io_call x AtariWrapper s6 = Inr s7" by blast
  have "\<exists>s8. (if game = ''spaceInvaders'' \<or> game = ''breakout''
                 then io_call x SetFireReset s7 else Inr s7) = Inr s8"
    using io by simp
  then obtain s8 where 8: "(if game = ''spaceInvaders'' \<or> game = ''breakout''
                 then io_call x SetFireReset s7 else Inr s7) = Inr s8" ..
  from io obtain s9 where 9: "io_call x (WrapperReset 1) s8 = Inr s9" by blast
  have "prologue x game s = Inr s9"
    unfolding prologue_def Let_def 1 bindE_Inr 2 gf option.case prod.case lm s3_def[symmetric]
      4 5 6 7 8 9 by (rule refl)
  then show ?thesis ..
qed

lemma sanity_check_result:
  assumes sc: "sanity_check x mt game approach file_name kw w = Inr (s, df)"
  shows "\<exists>s3 s4. run_loop x mt game approach kw [0..<steps] s3 = Inr s4 \<and>
     adds (entry w) [] s3 \<and> model s3 = 0 \<and> length (networks s3) = 6 \<and>
     analyzers s3 = map explainer [0, 1, 2, 3, 4, 5] \<and> filter in_episode (calls s3) = [] \<and>
     build_frame s4 = Inr df \<and>
     calls s = calls s4 @ [ToCsv (path_join (path_join ''results'' game) file_name) df, EnvClose] \<and>
     adds s4 [] s \<and> heap s = heap s4 \<and> networks s = networks s4 \<and> model s = model s4 \<and>
     analyzers s = analyzers s4"
proof -
  let ?f = "path_join (path_join ''results'' game) file_name"
  from sc obtain s1 s2 s3 s4 s5 where
    1: "prologue x game (entry w) = Inr s1" and 2: "cascade x s1 = Inr s2"
    and 3: "fixed_start x game s2 = Inr s3"
    and 4: "run_loop x mt game approach kw [0..<steps] s3 = Inr s4"
    and 5: "build_frame s4 = Inr df"
    and 6: "io_call x (ToCsv ?f df) s4 = Inr s5"
    and 7: "io_call x EnvClose s5 = Inr s"
    unfolding sanity_check_def Let_def by (auto simp: bindE_eq_Inr)
  note a1 = prologue_result[OF 1]
  from a1 obtain net where n1: "networks s1 = [net]" and m1: "model s1 = 0"
    and c1: "filter in_episode (calls s1) = []"
    by (auto simp: entry_def new_calls_def)
  have mv: "model s1 < length (networks s1)" by (simp add: n1 m1)
  from 2 mv obtain l1 l2 l3 l4 l5 v1 v2 v3 v4 v5 where
    nw: "networks s2 = networks s1 @ [v1, v2, v3, v4, v5]"
    and an: "analyzers s2 = map explainer
        [model s1, length (networks s1), length (networks s1) + 1, length (networks s1) + 2,
         length (networks s1) + 3, length (networks s1) + 4]"
    and cl: "calls s2 = calls s1 @
       InitLayer (length (networks s1)) 6 # check_lines v1 (networks s1 ! model s1) @
       InitLayer (length (networks s1) + 1) 5 # check_lines v2 v1 @
       InitLayer (length (networks s1) + 2) 3 # check_lines v3 v2 @
       InitLayer (length (networks s1) + 3) 2 # check_lines v4 v3 @
       InitLayer (length (networks s1) + 4) 1 # check_lines v5 v4"
    and ad: "adds s1 [] s2" and md: "model s2 = model s1"
    by (rule cascade_result)
  note a3 = fixed_start_result[OF 3]
  note a6 = io_call_result[OF 6]
  note a7 = io_call_result[OF 7]
  from a3 have pc3: "prefix (calls s2) (calls s3)" by simp
  then have c3: "calls s3 = calls s2 @ new_calls s2 s3"
    by (auto simp: prefix_def new_calls_def)
  have ie3: "filter in_episode (calls s3) = []"
    using a3 c3 c1 cl by simp
  have "adds (entry w) [] s3" using a1 ad a3 by (simp add: adds_Nil)
  moreover have "model s3 = 0" "length (networks s3) = 6"
    "analyzers s3 = map explainer [0, 1, 2, 3, 4, 5]"
    using a3 nw an md n1 m1 by (simp_all add: eval_nat_numeral)
  moreover have "adds s4 [] s" using a6 a7 by (simp add: adds_Nil)
  moreover have "calls s = calls s4 @ [ToCsv ?f df, EnvClose]" using a6 a7 by simp
  moreover have "heap s = heap s4" "networks s = networks s4" "model s = model s4"
    "analyzers s = analyzers s4" using a6 a7 by simp_all
  ultimately show ?thesis using 4 5 ie3 by blast
qed

lemma sanity_check_summary:
  assumes sc: "sanity_check x mt game approach file_name kw w = Inr (s, df)"
  shows "\<exists>sts frames post before.
     length sts = steps - 4 \<and> list_all (\<lambda>st. length (snd st) = 7) sts \<and>
     list_all (\<lambda>st. list_all (\<lambda>sc. \<exists>ref cand. similarity mt ref cand = Inr sc) (snd st)) sts \<and>
     df = table_of (episode_entries sts) \<and> adds (entry w) (episode_entries sts) s \<and>
     calls s = before @ [ToCsv (path_join (path_join ''results'' game) file_name) df, EnvClose] \<and>
     filter in_episode (calls s) =
       concat (replicate 3 [Sample, WrapperStep (if game = ''breakout'' then 1 else 0)]) @
       [Sample] @
       (if approach = ''rise'' then [Explain ''rise'' 0 frames None, GenerateMasks 0] else []) @
       [WrapperStep (if game = ''breakout'' then 1 else 0)] @ post \<and>
     filter is_step post = map (\<lambda>st. WrapperStep (fst st)) sts \<and>
     length (filter is_predict post) = steps - 4 \<and> filter is_sample post = [] \<and>
     filter is_generate post = [] \<and>
     model s = 0 \<and> length (networks s) = 6 \<and> map amodel (analyzers s) = [0, 1, 2, 3, 4, 5] \<and>
     (if approach = ''rise''
      then \<exists>m. \<forall>k<6. rise_masks (analyzers s ! k) = Some m \<and> masks_generated (analyzers s ! k)
      else analyzers s = map explainer [0, 1, 2, 3, 4, 5])"
proof -
  let ?f = "path_join (path_join ''results'' game) file_name"
  let ?a = "if game = ''breakout'' then 1 else 0 :: int"
  from sanity_check_result[OF sc] obtain s3 s4 where
    rl: "run_loop x mt game approach kw [0..<steps] s3 = Inr s4"
    and ad3: "adds (entry w) [] s3" and m3: "model s3 = 0" and n3: "length (networks s3) = 6"
    and an3: "analyzers s3 = map explainer [0, 1, 2, 3, 4, 5]"
    and ie3: "filter in_episode (calls s3) = []"
    and bf: "build_frame s4 = Inr df"
    and cl: "calls s = calls s4 @ [ToCsv ?f df, EnvClose]"
    and ad4: "adds s4 [] s" and rest: "networks s = networks s4" "model s = model s4"
      "analyzers s = analyzers s4"
    by blast
  have six: "6 \<le> length (analyzers s3)" and ng: "\<not> masks_generated (analyzers s3 ! 0)"
    by (simp_all add: an3 explainer_def)
  from episode_result[OF rl six ng] obtain sts frames post where
    l: "length sts = steps - 4" and l7: "list_all (\<lambda>st. length (snd st) = 7) sts"
    and sims: "list_all (\<lambda>st. list_all (\<lambda>sc. \<exists>ref cand. similarity mt ref cand = Inr sc) (snd st)) sts"
    and ad: "adds s3 (episode_entries sts) s4"
    and ie: "filter in_episode (new_calls s3 s4) =
       concat (replicate 3 [Sample, WrapperStep ?a]) @ [Sample] @
       (if approach = ''rise'' then [Explain ''rise'' 0 frames None, GenerateMasks 0] else []) @
       [WrapperStep ?a] @ post"
    and fs: "filter is_step post = map (\<lambda>st. WrapperStep (fst st)) sts"
    and fp: "length (filter is_predict post) = steps - 4" and fa: "filter is_sample post = []"
    and fg: "filter is_generate post = []"
    and nw: "networks s4 = networks s3" and md: "model s4 = model s3"
    and la: "length (analyzers s4) = length (analyzers s3)"
    and pc: "prefix (calls s3) (calls s4)"
    and an: "if approach = ''rise''
      then \<exists>m. \<forall>k<6. rise_masks (analyzers s4 ! k) = Some m \<and>
             masks_generated (analyzers s4 ! k) \<and>
             amodel (analyzers s4 ! k) = amodel (analyzers s3 ! k)
      else analyzers s4 = analyzers s3"
    by blast
  have ad4': "adds (entry w) (episode_entries sts) s4"
    using adds_trans[OF ad3 ad] by simp
  from build_frame_table[OF ad4'] bf have df: "df = table_of (episode_entries sts)" by simp
  have ads: "adds (entry w) (episode_entries sts) s"
    using adds_trans[OF ad4' ad4] by simp
  from pc have c4: "calls s4 = calls s3 @ new_calls s3 s4"
    by (auto simp: prefix_def new_calls_def)
  have ies: "filter in_episode (calls s) =
       concat (replicate 3 [Sample, WrapperStep ?a]) @ [Sample] @
       (if approach = ''rise'' then [Explain ''rise'' 0 frames None, GenerateMasks 0] else []) @
       [WrapperStep ?a] @ post"
    unfolding cl c4 using ie ie3 by simp
  have l6: "length (analyzers s4) = 6" using la by (simp add: an3)
  have am: "map amodel (analyzers s4) = [0, 1, 2, 3, 4, 5]"
  proof (cases "approach = ''rise''")
    case True
    with an have k: "\<forall>k<6. amodel (analyzers s4 ! k) = amodel (analyzers s3 ! k)" by auto
    have l3: "length (analyzers s3) = 6" by (simp add: an3)
    have "map amodel (analyzers s4) = map amodel (analyzers s3)"
      using l6 l3 k by (intro nth_equalityI) simp_all
    then show ?thesis by (simp add: an3 explainer_def)
  next
    case False
    with an show ?thesis by (simp add: an3 explainer_def)
  qed
  have an': "if approach = ''rise''
      then \<exists>m. \<forall>k<6. rise_masks (analyzers s4 ! k) = Some m \<and> masks_generated (analyzers s4 ! k)
      else analyzers s4 = map explainer [0, 1, 2, 3, 4, 5]"
    using an an3 by (auto split: if_splits)
  show ?thesis
    apply (rule exI[of _ sts], rule exI[of _ frames], rule exI[of _ post], rule exI[of _ "calls s4"])
    using l l7 sims df ads cl ies fs fp fa fg m3 n3 md nw am an' rest by simp
qed

lemma sanity_check_total:
  assumes b: "benign x" and tm: "total_metrics mt" and g: "game_files game \<noteq> None"
    and ap: "approach \<in> set [''noise'', ''occl'', ''rise'', ''lime'', ''sarfa'']"
  shows "\<exists>s df. sanity_check x mt game approach file_name kw w = Inr (s, df)"
proof -
  let ?f = "path_join (path_join ''results'' game) file_name"
  from prologue_total[OF b g] obtain s1 where 1: "prologue x game (entry w) = Inr s1" by blast
  note a1 = prologue_result[OF 1]
  from a1 obtain net f wa wb where lm: "load_model x f wa = Inr (net, wb)"
    and n1: "networks s1 = [net]" and m1: "model s1 = 0"
    by (auto simp: entry_def)
  from benignD(2)[OF b, of f wa] lm have tr: "trainable net" by simp
  have mv: "model s1 < length (networks s1)" "trainable (networks s1 ! model s1)"
    by (simp_all add: n1 m1 tr)
  from cascade_total[OF b mv] obtain s2 where 2: "cascade x s1 = Inr s2" by blast
  have "\<exists>s3. fixed_start x game s2 = Inr s3"
    using io_call_total[OF b] unfolding fixed_start_def by (cases "game = ''pacman''") auto
  then obtain s3 where 3: "fixed_start x game s2 = Inr s3" ..
  from 2 mv(1) obtain l1 l2 l3 l4 l5 v1 v2 v3 v4 v5 where
    an: "analyzers s2 = map explainer
        [model s1, length (networks s1), length (networks s1) + 1, length (networks s1) + 2,
         length (networks s1) + 3, length (networks s1) + 4]"
    and ad: "adds s1 [] s2"
    by (rule cascade_result)
  note a3 = fixed_start_result[OF 3]
  have rd: "ready approach s3"
    using ap a3 an by (simp add: ready_def explainer_def)
  from run_loop_total[OF b tm rd] obtain s4 where
    4: "run_loop x mt game approach kw [0..<steps] s3 = Inr s4" by blast
  have ad3: "adds (entry w) [] s3" using a1 ad a3 by (simp add: adds_Nil)
  have six: "6 \<le> length (analyzers s3)" and ng: "\<not> masks_generated (analyzers s3 ! 0)"
    using a3 an by (simp_all add: explainer_def)
  from episode_result[OF 4 six ng] obtain sts where ad4: "adds s3 (episode_entries sts) s4"
    by blast
  have "adds (entry w) (episode_entries sts) s4" using adds_trans[OF ad3 ad4] by simp
  from build_frame_table[OF this] have 5: "build_frame s4 = Inr (table_of (episode_entries sts))" .
  from io_call_total[OF b] obtain s5 where
    6: "io_call x (ToCsv ?f (table_of (episode_entries sts))) s4 = Inr s5" by blast
  from io_call_total[OF b] obtain s6 where 7: "io_call x EnvClose s5 = Inr s6" by blast
  have "sanity_check x mt game approach file_name kw w = Inr (s6, table_of (episode_entries sts))"
    unfolding sanity_check_def Let_def 1 bindE_Inr 2 3 4 5 6 7 by (rule refl)
  then show ?thesis by blast
qed

section \<open>The data of a policy-driven step\<close>

lemma settled_quiet: "settled approach s \<Longrightarrow> quiet approach s"
  by (auto simp: settled_def quiet_def list_all_length)

lemma settledD:
  assumes "settled approach s" and "k < 6" and "approach = ''rise''"
  shows "masks_generated (analyzers s ! k) \<and>
     (\<exists>m. rise_masks (analyzers s ! k) = Some m \<and> buf m < length (heap s))"
  using assms by (auto simp: settled_def list_all_length split: option.splits)

lemma read_squeeze: "read h (squeeze a) = squeezed (read h a)"
  by (simp add: read_def squeeze_def squeezed_def vals_def)

lemma saliency_fn_exact:
  assumes sf: "saliency_fn x approach kw k a sel s = Inr (r, s1)"
    and q: "approach \<noteq> ''rise'' \<or> masks_generated (analyzers s ! k)"
  shows "\<exists>t. explained x approach kw (networks s ! amodel (analyzers s ! k)) (held s k)
               (read (heap s) a) sel (world s) = Inr (t, world s1) \<and>
             read (heap s1) r = t \<and> heap s1 = heap s @ [snd t]"
proof (cases "approach = ''rise''")
  case True
  with q have g: "masks_generated (analyzers s ! k)" by simp
  from sf True g show ?thesis
    by (auto simp: saliency_fn_def Let_def generate_rise_prediction_def explained_def held_def
        bindE_eq_Inr returned_def new_array_def alloc_def emit_def read_def vals_def
        split: option.splits)
next
  case False
  with sf show ?thesis
    by (auto simp: saliency_fn_def Let_def explained_def held_def
        bindE_eq_Inr returned_def new_array_def alloc_def emit_def read_def vals_def
        split: if_splits)
qed

lemma calc_sim_call_world:
  "calc_sim_call mt og cand s = Inr s' \<Longrightarrow> world s' = world s"
  by (auto simp: calc_sim_call_def bindE_eq_Inr)

lemma variant_block_exact:
  assumes vb: "variant_block x mt approach kw k og inp action s = Inr s'"
    and vo: "buf og < length (heap s)"
    and q: "approach \<noteq> ''rise'' \<or> masks_generated (analyzers s ! k)"
  shows "\<exists>t sc. explained x approach kw (networks s ! amodel (analyzers s ! k)) (held s k)
               (read (heap s) inp) (Some action) (world s) = Inr (t, world s') \<and>
           similarity mt (read (heap s) og) (squeezed t) = Inr sc \<and>
           adds s [(int k, sc, action)] s'"
proof -
  from vb obtain r s1 s2 where
    sf: "saliency_fn x approach kw k inp (Some action) s = Inr (r, s1)"
    and cs: "calc_sim_call mt og (squeeze r) s1 = Inr s2"
    and s': "s' = s2\<lparr>action_list := action_list s2 @ [action],
                     model_list := model_list s2 @ [int k]\<rparr>"
    by (auto simp: variant_block_def bindE_eq_Inr Let_def)
  note a = saliency_fn_result[OF sf]
  from saliency_fn_exact[OF sf q] obtain t where
    ex: "explained x approach kw (networks s ! amodel (analyzers s ! k)) (held s k)
               (read (heap s) inp) (Some action) (world s) = Inr (t, world s1)"
    and rt: "read (heap s1) r = t" by blast
  have f1: "fixed s s1" using a by simp
  have vo1: "buf og < length (heap s1)" using fixed_valid[OF f1 vo] .
  have vr: "buf (squeeze r) < length (heap s1)" using a by (simp add: squeeze_def)
  from calc_sim_call_result[OF cs vo1 vr, of "int k" action]
  obtain sc where sim: "similarity mt (read (heap s1) og) (read (heap s1) (squeeze r)) = Inr sc"
    and ad: "adds s1 [(int k, sc, action)] (s2\<lparr>model_list := model_list s2 @ [int k],
                                   action_list := action_list s2 @ [action]\<rparr>)"
    by blast
  have ro: "read (heap s1) og = read (heap s) og" using fixed_read[OF f1 vo] .
  have ad': "adds s [(int k, sc, action)] s'"
    using a ad by (simp add: adds_def s')
  have w: "world s' = world s1" using calc_sim_call_world[OF cs] by (simp add: s')
  from ex sim ad' show ?thesis
    unfolding ro read_squeeze rt w by blast
qed

lemma baseline_block_exact:
  assumes bb: "baseline_block mt e drawn label og action s = Inr s'"
    and vo: "buf og < length (heap s)"
  shows "\<exists>sc. similarity mt (read (heap s) og) ([84, 84], fst drawn) = Inr sc \<and>
           adds s [(label, sc, action)] s' \<and> world s' = snd drawn"
proof -
  obtain pixels w where d: "drawn = (pixels, w)" by (cases drawn)
  obtain test s1 where r: "returned ([84, 84], pixels) (emit e (s\<lparr>world := w\<rparr>)) = (test, s1)"
    by (cases "returned ([84, 84], pixels) (emit e (s\<lparr>world := w\<rparr>))")
  from bb d r obtain s2 where
    cs: "calc_sim_call mt og test s1 = Inr s2"
    and s': "s' = s2\<lparr>action_list := action_list s2 @ [action],
                     model_list := model_list s2 @ [label]\<rparr>"
    by (auto simp: baseline_block_def bindE_eq_Inr Let_def)
  have r': "fixed s s1" "adds s [] s1" "world s1 = w"
    "buf test < length (heap s1)" "read (heap s1) test = ([84, 84], pixels)"
    using r by (auto simp: returned_def new_array_def alloc_def emit_def fixed_def adds_Nil
        read_def vals_def)
  have vo1: "buf og < length (heap s1)" using fixed_valid[OF r'(1) vo] .
  from calc_sim_call_result[OF cs vo1 r'(4), of label action]
  obtain sc where sim: "similarity mt (read (heap s1) og) (read (heap s1) test) = Inr sc"
    and ad: "adds s1 [(label, sc, action)] (s2\<lparr>model_list := model_list s2 @ [label],
                                   action_list := action_list s2 @ [action]\<rparr>)"
    by blast
  have ro: "read (heap s1) og = read (heap s) og" using fixed_read[OF r'(1) vo] .
  have ad': "adds s [(label, sc, action)] s'"
    using r'(2) ad by (simp add: adds_def s')
  have w: "world s' = w" using calc_sim_call_world[OF cs] r'(3) by (simp add: s')
  from sim ad' w show ?thesis unfolding ro r'(5) by (simp add: d)
qed

lemma explained_held:
  assumes st: "settled approach s" and k: "k < 6" and fx: "fixed s sa"
    and an: "analyzers sa = analyzers s"
  shows "explained x approach kw (networks sa ! amodel (analyzers sa ! k)) (held sa k) inp sel w =
         explained x approach kw (networks s ! amodel (analyzers s ! k)) (held s k) inp sel w"
proof (cases "approach = ''rise''")
  case True
  from settledD[OF st k True] obtain m where m: "rise_masks (analyzers s ! k) = Some m"
    "buf m < length (heap s)" by blast
  have "held sa k = held s k"
    using fixed_read[OF fx m(2)] by (simp add: held_def an m(1))
  with fx an show ?thesis by (simp add: fixed_def)
next
  case False
  with fx an show ?thesis by (simp add: explained_def fixed_def)
qed

lemma settled_generated:
  "settled approach s \<Longrightarrow> k < 6 \<Longrightarrow> analyzers sa = analyzers s \<Longrightarrow>
   approach \<noteq> ''rise'' \<or> masks_generated (analyzers sa ! k)"
  using settledD[of approach s k] by auto

lemma saliency_fn_carry:
  assumes sf: "saliency_fn x approach kw k a sel sa = Inr (r, sb)"
    and st: "settled approach s" and k: "k < 6"
    and fx: "fixed s sa" and an: "analyzers sa = analyzers s"
    and va: "buf a < length (heap s)"
  shows "explained x approach kw (networks s ! amodel (analyzers s ! k)) (held s k)
           (read (heap s) a) sel (world sa) = Inr (read (heap sb) r, world sb) \<and>
         fixed s sb \<and> analyzers sb = analyzers s \<and> adds sa [] sb \<and>
         buf r < length (heap sb) \<and> length (heap sa) \<le> buf r \<and>
         calls sb = calls sa @ [Explain approach k (read (heap s) a) sel]"
proof -
  note q = settled_generated[OF st k an]
  from saliency_fn_exact[OF sf q]
  have ex: "explained x approach kw (networks sa ! amodel (analyzers sa ! k)) (held sa k)
               (read (heap sa) a) sel (world sa) = Inr (read (heap sb) r, world sb)"
    by blast
  have ra: "read (heap sa) a = read (heap s) a" using fixed_read[OF fx va] .
  note a = saliency_fn_result[OF sf]
  from a q have c: "calls sb = calls sa @ [Explain approach k (read (heap sa) a) sel]"
    and an': "analyzers sb = analyzers sa" by (auto split: if_splits)
  from a have fb: "fixed sa sb" by simp
  from ex show ?thesis
    unfolding explained_held[OF st k fx an] ra
    using fixed_trans[OF fx fb] an' an a c ra by simp
qed

lemma variant_block_carry:
  assumes vb: "variant_block x mt approach kw k og a action sa = Inr sb"
    and st: "settled approach s" and k: "k < 6"
    and fx: "fixed s sa" and an: "analyzers sa = analyzers s"
    and vo: "buf og < length (heap sa)" and va: "buf a < length (heap s)"
  shows "(\<exists>t sc. explained x approach kw (networks s ! amodel (analyzers s ! k)) (held s k)
               (read (heap s) a) (Some action) (world sa) = Inr (t, world sb) \<and>
            similarity mt (read (heap sa) og) (squeezed t) = Inr sc \<and>
            adds sa [(int k, sc, action)] sb) \<and>
         fixed s sb \<and> analyzers sb = analyzers s \<and> buf og < length (heap sb) \<and>
         read (heap sb) og = read (heap sa) og \<and>
         calls sb = calls sa @ [Explain approach k (read (heap s) a) (Some action)]"
proof -
  note q = settled_generated[OF st k an]
  from variant_block_exact[OF vb vo q] obtain t sc where
    ex: "explained x approach kw (networks sa ! amodel (analyzers sa ! k)) (held sa k)
               (read (heap sa) a) (Some action) (world sa) = Inr (t, world sb)"
    and sim: "similarity mt (read (heap sa) og) (squeezed t) = Inr sc"
    and ad: "adds sa [(int k, sc, action)] sb" by blast
  have ra: "read (heap sa) a = read (heap s) a" using fixed_read[OF fx va] .
  from variant_block_result[OF vb vo] q have fb: "fixed sa sb"
    and an': "analyzers sb = analyzers sa"
    and c: "calls sb = calls sa @ [Explain approach k (read (heap sa) a) (Some action)]"
    by blast+
  have "\<exists>t sc. explained x approach kw (networks s ! amodel (analyzers s ! k)) (held s k)
               (read (heap s) a) (Some action) (world sa) = Inr (t, world sb) \<and>
            similarity mt (read (heap sa) og) (squeezed t) = Inr sc \<and>
            adds sa [(int k, sc, action)] sb"
    using ex sim ad unfolding explained_held[OF st k fx an] ra by blast
  then show ?thesis
    using fixed_trans[OF fx fb] an' an fixed_valid[OF fb vo] fixed_read[OF fb vo] c ra by simp
qed

lemma baseline_block_carry:
  assumes bb: "baseline_block mt e (random_draw (world sa)) label og action sa = Inr sb"
    and fx: "fixed s sa" and an: "analyzers sa = analyzers s"
    and vo: "buf og < length (heap sa)"
  shows "(\<exists>sc. similarity mt (read (heap sa) og) ([84, 84], fst (random_draw (world sa))) = Inr sc \<and>
            adds sa [(label, sc, action)] sb) \<and>
         world sb = snd (random_draw (world sa)) \<and>
         fixed s sb \<and> analyzers sb = analyzers s \<and> buf og < length (heap sb) \<and>
         read (heap sb) og = read (heap sa) og \<and> calls sb = calls sa @ [e]"
proof -
  from baseline_block_exact[OF bb vo] obtain sc where
    sim: "similarity mt (read (heap sa) og) ([84, 84], fst (random_draw (world sa))) = Inr sc"
    and ad: "adds sa [(label, sc, action)] sb" and w: "world sb = snd (random_draw (world sa))"
    by blast
  from baseline_block_result[OF bb vo] have fb: "fixed sa sb"
    and an': "analyzers sb = analyzers sa" and c: "calls sb = calls sa @ [e]" by blast+
  from sim ad have "\<exists>sc. similarity mt (read (heap sa) og) ([84, 84], fst (random_draw (world sa))) = Inr sc \<and>
            adds sa [(label, sc, action)] sb" by blast
  then show ?thesis
    using w fixed_trans[OF fx fb] an' an fixed_valid[OF fb vo] fixed_read[OF fb vo] c by simp
qed

lemma policy_step_exact:
  assumes ps: "policy_step x mt approach kw s = Inr (action, s')"
    and fr: "stacked_frames s = Some frames" and vf: "buf frames < length (heap s)"
    and st: "settled approach s"
  shows "\<exists>t0 t1 t2 t3 t4 t5 w1 w2 w3 w4 w5 w6 u wu g sc1 sc2 sc3 sc4 sc5 sc6 sc7.
      explains x approach kw s 0 (squeezed (read (heap s) frames)) (Some action) (world s) = Inr (t0, w1) \<and>
      explains x approach kw s 1 (squeezed (read (heap s) frames)) (Some action) w1 = Inr (t1, w2) \<and>
      explains x approach kw s 2 (squeezed (read (heap s) frames)) (Some action) w2 = Inr (t2, w3) \<and>
      explains x approach kw s 3 (squeezed (read (heap s) frames)) (Some action) w3 = Inr (t3, w4) \<and>
      explains x approach kw s 4 (squeezed (read (heap s) frames)) (Some action) w4 = Inr (t4, w5) \<and>
      explains x approach kw s 5 (squeezed (read (heap s) frames)) (Some action) w5 = Inr (t5, w6) \<and>
      random_rand x [84, 84] w6 = (u, wu) \<and> random_normal x [84, 84] wu = (g, world s') \<and>
      similarity mt (squeezed t0) (squeezed t1) = Inr sc1 \<and>
      similarity mt (squeezed t0) (squeezed t2) = Inr sc2 \<and>
      similarity mt (squeezed t0) (squeezed t3) = Inr sc3 \<and>
      similarity mt (squeezed t0) (squeezed t4) = Inr sc4 \<and>
      similarity mt (squeezed t0) (squeezed t5) = Inr sc5 \<and>
      similarity mt (squeezed t0) ([84, 84], u) = Inr sc6 \<and>
      similarity mt (squeezed t0) ([84, 84], g) = Inr sc7 \<and>
      adds s (step_entries action [sc1, sc2, sc3, sc4, sc5, sc6, sc7]) s' \<and>
      analyzers s' = analyzers s \<and> fixed s s' \<and>
      calls s' = calls s @ step_calls approach (model s) (read (heap s) frames) action"
proof -
  from ps fr obtain out where
    pr: "predict x (networks s ! model s) (read (heap s) (expand_dims0 frames)) = Inr out"
    by (auto simp: policy_step_def Let_def bindE_eq_Inr)
  obtain outp s0 where
    ret: "returned out (emit (Predict (model s) (read (heap s) (expand_dims0 frames))) s) = (outp, s0)"
    by (cases "returned out (emit (Predict (model s) (read (heap s) (expand_dims0 frames))) s)")
  from ps obtain r s1 s2 s3 s4 s5 s6 s7 where
    sf: "saliency_fn x approach kw 0 (squeeze (expand_dims0 frames)) (Some action) s0 = Inr (r, s1)"
    and v1: "variant_block x mt approach kw 1 (squeeze r) (squeeze (expand_dims0 frames)) action s1 = Inr s2"
    and v2: "variant_block x mt approach kw 2 (squeeze r) (squeeze (expand_dims0 frames)) action s2 = Inr s3"
    and v3: "variant_block x mt approach kw 3 (squeeze r) (squeeze (expand_dims0 frames)) action s3 = Inr s4"
    and v4: "variant_block x mt approach kw 4 (squeeze r) (squeeze (expand_dims0 frames)) action s4 = Inr s5"
    and v5: "variant_block x mt approach kw 5 (squeeze r) (squeeze (expand_dims0 frames)) action s5 = Inr s6"
    and b6: "baseline_block mt (RandUniform [84, 84]) (random_rand x [84, 84] (world s6))
               6 (squeeze r) action s6 = Inr s7"
    and b7: "baseline_block mt (RandNormal [84, 84]) (random_normal x [84, 84] (world s7))
               7 (squeeze r) action s7 = Inr s'"
    by (auto simp: policy_step_def fr Let_def pr ret bindE_eq_Inr)
  define a where "a = squeeze (expand_dims0 frames)"
  define og where "og = squeeze r"
  define inp where "inp = squeezed (read (heap s) frames)"
  note sf = sf[folded a_def] and v1 = v1[folded a_def og_def] and v2 = v2[folded a_def og_def]
    and v3 = v3[folded a_def og_def] and v4 = v4[folded a_def og_def]
    and v5 = v5[folded a_def og_def] and b6 = b6[folded og_def] and b7 = b7[folded og_def]
  have va: "buf a < length (heap s)"
    using vf by (simp add: a_def squeeze_def expand_dims0_def)
  have ra: "read (heap s) a = inp"
    by (simp add: a_def inp_def read_def squeeze_def expand_dims0_def squeezed_def vals_def)
  have b0: "fixed s s0" "analyzers s0 = analyzers s" "world s0 = world s" "adds s [] s0"
    "calls s0 = calls s @ [Predict (model s) (read (heap s) (expand_dims0 frames))]"
    using ret by (auto simp: returned_def new_array_def alloc_def emit_def fixed_def adds_Nil)
  note c0 = saliency_fn_carry[OF sf st _ b0(1,2) va, unfolded ra b0(3), simplified]
  define t0 where "t0 = read (heap s1) r"
  note c0 = c0[folded t0_def]
  have vo1: "buf og < length (heap s1)" using c0 by (simp add: og_def squeeze_def)
  have ro1: "read (heap s1) og = squeezed t0" by (simp add: og_def t0_def read_squeeze)
  from c0 have f1: "fixed s s1" and a1: "analyzers s1 = analyzers s" by simp_all
  note c1 = variant_block_carry[OF v1 st _ f1 a1 vo1 va, unfolded ra ro1, simplified]
  from c1 have f2: "fixed s s2" and a2: "analyzers s2 = analyzers s"
    and vo2: "buf og < length (heap s2)" and ro2: "read (heap s2) og = squeezed t0" by simp_all
  note c2 = variant_block_carry[OF v2 st _ f2 a2 vo2 va, unfolded ra ro2, simplified]
  from c2 have f3: "fixed s s3" and a3: "analyzers s3 = analyzers s"
    and vo3: "buf og < length (heap s3)" and ro3: "read (heap s3) og = squeezed t0" by simp_all
  note c3 = variant_block_carry[OF v3 st _ f3 a3 vo3 va, unfolded ra ro3, simplified]
  from c3 have f4: "fixed s s4" and a4: "analyzers s4 = analyzers s"
    and vo4: "buf og < length (heap s4)" and ro4: "read (heap s4) og = squeezed t0" by simp_all
  note c4 = variant_block_carry[OF v4 st _ f4 a4 vo4 va, unfolded ra ro4, simplified]
  from c4 have f5: "fixed s s5" and a5: "analyzers s5 = analyzers s"
    and vo5: "buf og < length (heap s5)" and ro5: "read (heap s5) og = squeezed t0" by simp_all
  note c5 = variant_block_carry[OF v5 st _ f5 a5 vo5 va, unfolded ra ro5, simplified]
  from c5 have f6: "fixed s s6" and a6: "analyzers s6 = analyzers s"
    and vo6: "buf og < length (heap s6)" and ro6: "read (heap s6) og = squeezed t0" by simp_all
  note c6 = baseline_block_carry[of mt _ "random_rand x [84, 84]", OF b6 f6 a6 vo6, unfolded ro6]
  from c6 have f7: "fixed s s7" and a7: "analyzers s7 = analyzers s"
    and vo7: "buf og < length (heap s7)" and ro7: "read (heap s7) og = squeezed t0" by simp_all
  note c7 = baseline_block_carry[of mt _ "random_normal x [84, 84]", OF b7 f7 a7 vo7, unfolded ro7]
  from c1 obtain t1 sc1 where
    e1: "explained x approach kw (networks s ! amodel (analyzers s ! 1)) (held s 1) inp
           (Some action) (world s1) = Inr (t1, world s2)"
    and m1: "similarity mt (squeezed t0) (squeezed t1) = Inr sc1"
    and d1: "adds s1 [(1, sc1, action)] s2" by auto
  from c2 obtain t2 sc2 where
    e2: "explained x approach kw (networks s ! amodel (analyzers s ! 2)) (held s 2) inp
           (Some action) (world s2) = Inr (t2, world s3)"
    and m2: "similarity mt (squeezed t0) (squeezed t2) = Inr sc2"
    and d2: "adds s2 [(2, sc2, action)] s3" by auto
  from c3 obtain t3 sc3 where
    e3: "explained x approach kw (networks s ! amodel (analyzers s ! 3)) (held s 3) inp
           (Some action) (world s3) = Inr (t3, world s4)"
    and m3: "similarity mt (squeezed t0) (squeezed t3) = Inr sc3"
    and d3: "adds s3 [(3, sc3, action)] s4" by auto
  from c4 obtain t4 sc4 where
    e4: "explained x approach kw (networks s ! amodel (analyzers s ! 4)) (held s 4) inp
           (Some action) (world s4) = Inr (t4, world s5)"
    and m4: "similarity mt (squeezed t0) (squeezed t4) = Inr sc4"
    and d4: "adds s4 [(4, sc4, action)] s5" by auto
  from c5 obtain t5 sc5 where
    e5: "explained x approach kw (networks s ! amodel (analyzers s ! 5)) (held s 5) inp
           (Some action) (world s5) = Inr (t5, world s6)"
    and m5: "similarity mt (squeezed t0) (squeezed t5) = Inr sc5"
    and d5: "adds s5 [(5, sc5, action)] s6" by auto
  from c6 obtain sc6 where
    m6: "similarity mt (squeezed t0) ([84, 84], fst (random_rand x [84, 84] (world s6))) = Inr sc6"
    and d6: "adds s6 [(6, sc6, action)] s7"
    and w7: "world s7 = snd (random_rand x [84, 84] (world s6))" by auto
  from c7 obtain sc7 where
    m7: "similarity mt (squeezed t0) ([84, 84], fst (random_normal x [84, 84] (world s7))) = Inr sc7"
    and d7: "adds s7 [(7, sc7, action)] s'"
    and w8: "world s' = snd (random_normal x [84, 84] (world s7))" by auto
  from c0 have e0: "explained x approach kw (networks s ! amodel (analyzers s ! 0)) (held s 0) inp
           (Some action) (world s) = Inr (t0, world s1)" by simp
  have ads: "adds s (step_entries action [sc1, sc2, sc3, sc4, sc5, sc6, sc7]) s'"
  proof -
    from c0 b0 have "adds s [] s1" by (simp add: adds_Nil)
    from adds_trans[OF this d1] have "adds s [(1, sc1, action)] s2" by simp
    from adds_trans[OF this d2] have "adds s [(1, sc1, action), (2, sc2, action)] s3" by simp
    from adds_trans[OF this d3] have "adds s [(1, sc1, action), (2, sc2, action), (3, sc3, action)] s4"
      by simp
    from adds_trans[OF this d4] have "adds s [(1, sc1, action), (2, sc2, action), (3, sc3, action),
        (4, sc4, action)] s5" by simp
    from adds_trans[OF this d5] have "adds s [(1, sc1, action), (2, sc2, action), (3, sc3, action),
        (4, sc4, action), (5, sc5, action)] s6" by simp
    from adds_trans[OF this d6] have "adds s [(1, sc1, action), (2, sc2, action), (3, sc3, action),
        (4, sc4, action), (5, sc5, action), (6, sc6, action)] s7" by simp
    from adds_trans[OF this d7] show ?thesis by (simp add: step_entries_def)
  qed
  have u6: "[0..<6] = [0, 1, 2, 3, 4, 5 :: nat]" by (simp add: upt_rec)
  have ri: "read (heap s) (expand_dims0 frames) = (1 # fst (read (heap s) frames), snd (read (heap s) frames))"
    by (simp add: read_def expand_dims0_def vals_def)
  have k0: "calls s1 = calls s0 @ [Explain approach 0 inp (Some action)]" using c0 by simp
  have k1: "calls s2 = calls s1 @ [Explain approach 1 inp (Some action)]" using c1 by simp
  have k2: "calls s3 = calls s2 @ [Explain approach 2 inp (Some action)]" using c2 by simp
  have k3: "calls s4 = calls s3 @ [Explain approach 3 inp (Some action)]" using c3 by simp
  have k4: "calls s5 = calls s4 @ [Explain approach 4 inp (Some action)]" using c4 by simp
  have k5: "calls s6 = calls s5 @ [Explain approach 5 inp (Some action)]" using c5 by simp
  have k6: "calls s7 = calls s6 @ [RandUniform [84, 84]]" using c6 by simp
  have k7: "calls s' = calls s7 @ [RandNormal [84, 84]]" using c7 by simp
  have cl: "calls s' = calls s @ step_calls approach (model s) (read (heap s) frames) action"
    unfolding step_calls_def u6 k7 k6 k5 k4 k3 k2 k1 k0 b0(5) ri
    by (simp add: inp_def squeezed_def)
  from c7 have f8: "fixed s s'" and a8: "analyzers s' = analyzers s" by simp_all
  have r6: "random_rand x [84, 84] (world s6) = (fst (random_rand x [84, 84] (world s6)), world s7)"
    by (simp add: w7)
  have r7: "random_normal x [84, 84] (world s7) = (fst (random_normal x [84, 84] (world s7)), world s')"
    by (simp add: w8)
  show ?thesis
    unfolding explains_def inp_def[symmetric]
    apply (rule exI[of _ t0], rule exI[of _ t1], rule exI[of _ t2], rule exI[of _ t3], rule exI[of _ t4], rule exI[of _ t5], rule exI[of _ "world s1"], rule exI[of _ "world s2"], rule exI[of _ "world s3"], rule exI[of _ "world s4"], rule exI[of _ "world s5"], rule exI[of _ "world s6"], rule exI[of _ "fst (random_rand x [84, 84] (world s6))"], rule exI[of _ "world s7"], rule exI[of _ "fst (random_normal x [84, 84] (world s7))"], rule exI[of _ sc1], rule exI[of _ sc2], rule exI[of _ sc3], rule exI[of _ sc4], rule exI[of _ sc5], rule exI[of _ sc6], rule exI[of _ sc7])
    by (intro conjI e0 e1 e2 e3 e4 e5 r6 r7 m1 m2 m3 m4 m5 m6 m7 ads a8 f8 cl)
qed

lemma env_step_exact:
  assumes "bindE (wrapper_step x action (world s1)) (\<lambda>(t, w).
      case returned t (emit (WrapperStep action) (s1\<lparr>world := w\<rparr>)) of (frames, s2) \<Rightarrow>
      Inr (s2\<lparr>stacked_frames := Some frames\<rparr>)) = Inr s'"
  shows "\<exists>fr f. wrapper_step x action (world s1) = Inr (fr, world s') \<and>
     stacked_frames s' = Some f \<and> read (heap s') f = fr \<and> buf f = length (heap s1)"
  using assms
  by (auto simp: bindE_eq_Inr returned_def new_array_def alloc_def emit_def read_def vals_def)

lemma settled_cong:
  "analyzers t = analyzers s \<Longrightarrow> heap t = heap s \<Longrightarrow> settled approach t = settled approach s"
  unfolding settled_def by (erule ssubst, erule ssubst) (rule refl)

lemma loop_body_exact:
  assumes lb: "loop_body x mt game approach kw i s = Inr s'" and i: "4 \<le> i"
    and fo: "frames_ok s" and st: "settled approach s"
  shows "\<exists>frames out action t0 t1 t2 t3 t4 t5 w1 w2 w3 w4 w5 w6 u wu g wg
            sc1 sc2 sc3 sc4 sc5 sc6 sc7 fr f.
      stacked_frames s = Some frames \<and>
      predict x (networks s ! model s) (read (heap s) (expand_dims0 frames)) = Inr out \<and>
      np_argmax (snd out) = Inr action \<and>
      explains x approach kw s 0 (squeezed (read (heap s) frames)) (Some action) (world s) = Inr (t0, w1) \<and>
      explains x approach kw s 1 (squeezed (read (heap s) frames)) (Some action) w1 = Inr (t1, w2) \<and>
      explains x approach kw s 2 (squeezed (read (heap s) frames)) (Some action) w2 = Inr (t2, w3) \<and>
      explains x approach kw s 3 (squeezed (read (heap s) frames)) (Some action) w3 = Inr (t3, w4) \<and>
      explains x approach kw s 4 (squeezed (read (heap s) frames)) (Some action) w4 = Inr (t4, w5) \<and>
      explains x approach kw s 5 (squeezed (read (heap s) frames)) (Some action) w5 = Inr (t5, w6) \<and>
      random_rand x [84, 84] w6 = (u, wu) \<and> random_normal x [84, 84] wu = (g, wg) \<and>
      similarity mt (squeezed t0) (squeezed t1) = Inr sc1 \<and>
      similarity mt (squeezed t0) (squeezed t2) = Inr sc2 \<and>
      similarity mt (squeezed t0) (squeezed t3) = Inr sc3 \<and>
      similarity mt (squeezed t0) (squeezed t4) = Inr sc4 \<and>
      similarity mt (squeezed t0) (squeezed t5) = Inr sc5 \<and>
      similarity mt (squeezed t0) ([84, 84], u) = Inr sc6 \<and>
      similarity mt (squeezed t0) ([84, 84], g) = Inr sc7 \<and>
      adds s (step_entries action [sc1, sc2, sc3, sc4, sc5, sc6, sc7]) s' \<and>
      wrapper_step x action wg = Inr (fr, world s') \<and>
      stacked_frames s' = Some f \<and> read (heap s') f = fr \<and>
      new_calls s s' =
        progress_prints x i s @ step_calls approach (model s) (read (heap s) frames) action @
        [WrapperStep action] \<and>
      networks s' = networks s \<and> model s' = model s \<and> analyzers s' = analyzers s \<and>
      prefix (heap s) (heap s')"
proof -
  let ?s0 = "s\<lparr>calls := calls s @ progress_prints x i s\<rparr>"
  from lb i obtain action s1 where
    ps: "policy_step x mt approach kw ?s0 = Inr (action, s1)"
    and es: "bindE (wrapper_step x action (world s1)) (\<lambda>(t, w).
      case returned t (emit (WrapperStep action) (s1\<lparr>world := w\<rparr>)) of (frames, s2) \<Rightarrow>
      Inr (s2\<lparr>stacked_frames := Some frames\<rparr>)) = Inr s'"
    unfolding loop_body_unfold by (auto simp: bindE_eq_Inr)
  from ps obtain frames where fr: "stacked_frames s = Some frames"
    by (cases "stacked_frames s") (auto simp: policy_step_def)
  with fo have vf: "buf frames < length (heap s)" by (simp add: frames_ok_def)
  have fr0: "stacked_frames ?s0 = Some frames" and vf0: "buf frames < length (heap ?s0)"
    using fr vf by simp_all
  have st0: "settled approach ?s0" using st settled_cong[of ?s0 s approach] by simp
  from policy_step_result[OF ps fr0 vf0] obtain out where
    pr: "predict x (networks s ! model s) (read (heap s) (expand_dims0 frames)) = Inr out"
    and am: "np_argmax (snd out) = Inr action" by auto
  have ex0: "explains x approach kw ?s0 k inp sel w = explains x approach kw s k inp sel w"
    for k inp sel w
    by (simp add: explains_def held_def)
  have w0: "world ?s0 = world s" "heap ?s0 = heap s" "model ?s0 = model s" by simp_all
  from policy_step_exact[OF ps fr0 vf0 st0, unfolded ex0 w0] obtain t0 t1 t2 t3 t4 t5 w1 w2 w3 w4 w5 w6 u wu g
    sc1 sc2 sc3 sc4 sc5 sc6 sc7 where
    e0: "explains x approach kw s 0 (squeezed (read (heap s) frames)) (Some action) (world s) = Inr (t0, w1)"
    and e1: "explains x approach kw s 1 (squeezed (read (heap s) frames)) (Some action) w1 = Inr (t1, w2)"
    and e2: "explains x approach kw s 2 (squeezed (read (heap s) frames)) (Some action) w2 = Inr (t2, w3)"
    and e3: "explains x approach kw s 3 (squeezed (read (heap s) frames)) (Some action) w3 = Inr (t3, w4)"
    and e4: "explains x approach kw s 4 (squeezed (read (heap s) frames)) (Some action) w4 = Inr (t4, w5)"
    and e5: "explains x approach kw s 5 (squeezed (read (heap s) frames)) (Some action) w5 = Inr (t5, w6)"
    and r6: "random_rand x [84, 84] w6 = (u, wu)" and r7: "random_normal x [84, 84] wu = (g, world s1)"
    and m1: "similarity mt (squeezed t0) (squeezed t1) = Inr sc1"
    and m2: "similarity mt (squeezed t0) (squeezed t2) = Inr sc2"
    and m3: "similarity mt (squeezed t0) (squeezed t3) = Inr sc3"
    and m4: "similarity mt (squeezed t0) (squeezed t4) = Inr sc4"
    and m5: "similarity mt (squeezed t0) (squeezed t5) = Inr sc5"
    and m6: "similarity mt (squeezed t0) ([84, 84], u) = Inr sc6"
    and m7: "similarity mt (squeezed t0) ([84, 84], g) = Inr sc7"
    and ad: "adds ?s0 (step_entries action [sc1, sc2, sc3, sc4, sc5, sc6, sc7]) s1"
    and an: "analyzers s1 = analyzers ?s0" and fx: "fixed ?s0 s1"
    and cl: "calls s1 = calls ?s0 @ step_calls approach (model s) (read (heap s) frames) action"
    by (elim exE conjE) (rule that; assumption)
  note e = env_step_result[OF es]
  from env_step_exact[OF es] obtain fr' f where
    ws: "wrapper_step x action (world s1) = Inr (fr', world s')"
    and sf: "stacked_frames s' = Some f" and rf: "read (heap s') f = fr'" by blast
  have ads: "adds s (step_entries action [sc1, sc2, sc3, sc4, sc5, sc6, sc7]) s'"
    using ad e by (simp add: adds_def)
  have nc: "new_calls s s' =
        progress_prints x i s @ step_calls approach (model s) (read (heap s) frames) action @
        [WrapperStep action]"
    using cl e by (simp add: new_calls_def)
  have rest: "networks s' = networks s" "model s' = model s" "analyzers s' = analyzers s"
    "prefix (heap s) (heap s')"
    using fx an e by (auto simp: fixed_def intro: prefix_order.order_trans)
  show ?thesis
    apply (rule exI[of _ frames], rule exI[of _ out], rule exI[of _ action],
        rule exI[of _ t0], rule exI[of _ t1], rule exI[of _ t2], rule exI[of _ t3],
        rule exI[of _ t4], rule exI[of _ t5], rule exI[of _ w1], rule exI[of _ w2],
        rule exI[of _ w3], rule exI[of _ w4], rule exI[of _ w5], rule exI[of _ w6],
        rule exI[of _ u], rule exI[of _ wu], rule exI[of _ g], rule exI[of _ "world s1"],
        rule exI[of _ sc1], rule exI[of _ sc2], rule exI[of _ sc3], rule exI[of _ sc4],
        rule exI[of _ sc5], rule exI[of _ sc6], rule exI[of _ sc7], rule exI[of _ fr'],
        rule exI[of _ f])
    by (intro conjI fr pr am e0 e1 e2 e3 e4 e5 r6 r7 m1 m2 m3 m4 m5 m6 m7 ads ws sf rf nc rest)
qed

section \<open>The order and the data of a policy-driven step\<close>

lemma mid_state_settled: "settled ''occl'' mid_state"
  by (simp add: settled_def)

text \<open>
  C1. A pass of the loop with \<open>4 \<le> i\<close> that completes, from a state in which no analyzer
  will draw masks. The action is the argmax of the prediction of the loaded model on the
  current frames. The six callables are called one after the other, the original analyzer
  first: each on the network of its analyzer, each with the same pixels (the frames without
  batch axis) and with that action as \<^verbatim>\<open>neuron_selection\<close>, each in the world the previous call
  left. Then the uniform and the Gaussian map are drawn. The seven records of the step carry
  that action and, in order, the scores of the original explanation against the
  explanations of the variants 1 to 5, against the uniform map and against the Gaussian map.
  Only then is \<^verbatim>\<open>wrapper.step\<close> called, with that action, in the world the Gaussian draw left,
  and its frames become the current frames. The calls are exactly these, in this order; the
  networks, the loaded model and the analyzers are as before.
\<close>

theorem policy_step_order:
  assumes lb: "loop_body x mt game approach kw i s = Inr s'" and i: "4 \<le> i"
    and fo: "frames_ok s" and st: "settled approach s"
  shows "\<exists>frames out action t0 t1 t2 t3 t4 t5 w1 w2 w3 w4 w5 w6 u wu g wg
            sc1 sc2 sc3 sc4 sc5 sc6 sc7 fr f.
      stacked_frames s = Some frames \<and>
      predict x (networks s ! model s) (read (heap s) (expand_dims0 frames)) = Inr out \<and>
      np_argmax (snd out) = Inr action \<and>
      explains x approach kw s 0 (squeezed (read (heap s) frames)) (Some action) (world s) = Inr (t0, w1) \<and>
      explains x approach kw s 1 (squeezed (read (heap s) frames)) (Some action) w1 = Inr (t1, w2) \<and>
      explains x approach kw s 2 (squeezed (read (heap s) frames)) (Some action) w2 = Inr (t2, w3) \<and>
      explains x approach kw s 3 (squeezed (read (heap s) frames)) (Some action) w3 = Inr (t3, w4) \<and>
      explains x approach kw s 4 (squeezed (read (heap s) frames)) (Some action) w4 = Inr (t4, w5) \<and>
      explains x approach kw s 5 (squeezed (read (heap s) frames)) (Some action) w5 = Inr (t5, w6) \<and>
      random_rand x [84, 84] w6 = (u, wu) \<and> random_normal x [84, 84] wu = (g, wg) \<and>
      similarity mt (squeezed t0) (squeezed t1) = Inr sc1 \<and>
      similarity mt (squeezed t0) (squeezed t2) = Inr sc2 \<and>
      similarity mt (squeezed t0) (squeezed t3) = Inr sc3 \<and>
      similarity mt (squeezed t0) (squeezed t4) = Inr sc4 \<and>
      similarity mt (squeezed t0) (squeezed t5) = Inr sc5 \<and>
      similarity mt (squeezed t0) ([84, 84], u) = Inr sc6 \<and>
      similarity mt (squeezed t0) ([84, 84], g) = Inr sc7 \<and>
      adds s (step_entries action [sc1, sc2, sc3, sc4, sc5, sc6, sc7]) s' \<and>
      wrapper_step x action wg = Inr (fr, world s') \<and>
      stacked_frames s' = Some f \<and> read (heap s') f = fr \<and>
      new_calls s s' =
        progress_prints x i s @ step_calls approach (model s) (read (heap s) frames) action @
        [WrapperStep action] \<and>
      networks s' = networks s \<and> model s' = model s \<and> analyzers s' = analyzers s \<and>
      prefix (heap s) (heap s')"
  using loop_body_exact[OF lb i fo st] .

theorem policy_step_order_witness:
  "\<exists>s'. loop_body still_world flat_metrics ''pacman'' ''occl'' () 4 mid_state = Inr s' \<and>
     new_calls mid_state s' = step_calls ''occl'' 0 ([1], [0]) 1 @ [WrapperStep 1] \<and>
     model_list s' = [1, 2, 3, 4, 5, 6, 7] \<and> action_list s' = [1, 1, 1, 1, 1, 1, 1] \<and>
     model s' = 0 \<and> networks s' = networks mid_state"
proof -
  from loop_body_total[OF still_world_benign flat_metrics_total mid_state_ready(1), of 4 "''pacman''" "()"]
    mid_state_frames
  obtain s' where lb: "loop_body still_world flat_metrics ''pacman'' ''occl'' () 4 mid_state = Inr s'"
    by blast
  have i: "(4::nat) \<le> 4" by simp
  from policy_step_order[OF lb i mid_state_frames(1) mid_state_settled] lb show ?thesis
    by (auto simp: progress_prints_def mid_state_def read_def vals_def still_world_def
        np_argmax_def adds_def step_entries_def)
qed

section \<open>The records and the table\<close>

lemma step_entries_length: "length scs = 7 \<Longrightarrow> length (step_entries a scs) = 7"
  by (simp add: step_entries_def)

lemma step_entries_labels: "length scs = 7 \<Longrightarrow> map fst (step_entries a scs) = [1, 2, 3, 4, 5, 6, 7]"
proof -
  assume "length scs = 7"
  then obtain a1 a2 a3 a4 a5 a6 a7 where "scs = [a1, a2, a3, a4, a5, a6, a7]"
    by (auto simp: length_Suc_conv eval_nat_numeral)
  then show ?thesis by (simp add: step_entries_def)
qed

lemma step_entries_nth:
  assumes "length scs = 7" and "i < 7"
  shows "step_entries a scs ! i = (int i + 1, scs ! i, a)"
proof -
  have "[1, 2, 3, 4, 5, 6, 7 :: int] ! i = int i + 1"
    using assms(2) by (auto simp: less_Suc_eq eval_nat_numeral nth_Cons')
  then show ?thesis using assms by (simp add: step_entries_def)
qed

lemma episode_entries_length:
  "list_all (\<lambda>st. length (snd st) = 7) sts \<Longrightarrow> length (episode_entries sts) = 7 * length sts"
proof (induction sts)
  case Nil
  show ?case by (simp add: episode_entries_def)
next
  case (Cons st sts)
  obtain a scs where st: "st = (a, scs)" by (cases st)
  from Cons show ?case by (simp add: st episode_entries_Cons step_entries_length)
qed

lemma episode_entries_nth:
  "list_all (\<lambda>st. length (snd st) = 7) sts \<Longrightarrow> i < 7 * length sts \<Longrightarrow>
   episode_entries sts ! i = (int (i mod 7) + 1, snd (sts ! (i div 7)) ! (i mod 7), fst (sts ! (i div 7)))"
proof (induction sts arbitrary: i)
  case Nil
  then show ?case by simp
next
  case (Cons st sts)
  obtain a scs where st: "st = (a, scs)" by (cases st)
  from Cons.prems(1) have l: "length scs = 7" and rest: "list_all (\<lambda>st. length (snd st) = 7) sts"
    by (simp_all add: st)
  show ?case
  proof (cases "i < 7")
    case True
    then show ?thesis
      by (simp add: st episode_entries_Cons nth_append step_entries_length[OF l]
          step_entries_nth[OF l])
  next
    case False
    then have i7: "7 \<le> i" by simp
    with Cons.prems(2) have lt: "i - 7 < 7 * length sts" by simp
    from i7 have m: "(i - 7) mod 7 = i mod 7" by (simp add: le_mod_geq)
    from i7 have d: "i div 7 = Suc ((i - 7) div 7)" by (simp add: le_div_geq)
    from Cons.IH[OF rest lt] False show ?thesis
      by (simp add: st episode_entries_Cons nth_append step_entries_length[OF l] m d)
  qed
qed

lemma nrows_table_of [simp]: "nrows (table_of recs) = length recs"
  by (simp add: table_of_def)

lemma columns_table_of:
  "map fst (columns (table_of recs)) = [''rand_layer'', ''pearson'', ''ssim'', ''spearman'', ''action'']"
  by (simp add: table_of_def)

lemma row_table_of:
  "i < length recs \<Longrightarrow>
   row (table_of recs) i =
     [CInt (fst (recs ! i)), CFloat (fst (fst (snd (recs ! i)))),
      CFloat (fst (snd (fst (snd (recs ! i))))), CFloat (snd (snd (fst (snd (recs ! i))))),
      CInt (snd (snd (recs ! i)))]"
  by (simp add: table_of_def row_def)

lemma balanced_entry: "balanced (entry w)"
  by (simp add: balanced_def entry_def)

lemma balanced_adds:
  "balanced s \<Longrightarrow> adds s recs s' \<Longrightarrow>
   balanced s' \<and> length (model_list s') = length (model_list s) + length recs"
  by (simp add: balanced_def adds_def)

lemma sanity_check_counts:
  assumes sc: "sanity_check x mt game approach file_name kw w = Inr (s, df)"
  shows "nrows df = 7 * (steps - 4) \<and>
     length (filter is_step (calls s)) = steps \<and> length (filter is_sample (calls s)) = 4 \<and>
     length (filter is_predict (calls s)) = steps - 4 \<and>
     (\<exists>pre post. filter in_episode (calls s) = pre @ post \<and>
        length (filter is_step pre) = 4 \<and> length (filter is_sample pre) = 4 \<and>
        filter is_predict pre = [] \<and> filter is_sample post = [] \<and>
        length (filter is_step post) = steps - 4 \<and> length (filter is_predict post) = steps - 4)"
proof -
  let ?a = "if game = ''breakout'' then 1 else 0 :: int"
  from sanity_check_summary[OF sc] obtain sts frames post where
    l: "length sts = steps - 4" and l7: "list_all (\<lambda>st. length (snd st) = 7) sts"
    and df: "df = table_of (episode_entries sts)"
    and ie: "filter in_episode (calls s) =
       concat (replicate 3 [Sample, WrapperStep ?a]) @ [Sample] @
       (if approach = ''rise'' then [Explain ''rise'' 0 frames None, GenerateMasks 0] else []) @
       [WrapperStep ?a] @ post"
    and fs: "filter is_step post = map (\<lambda>st. WrapperStep (fst st)) sts"
    and fp: "length (filter is_predict post) = steps - 4" and fa: "filter is_sample post = []"
    by blast
  let ?pre = "concat (replicate 3 [Sample, WrapperStep ?a]) @ [Sample] @
       (if approach = ''rise'' then [Explain ''rise'' 0 frames None, GenerateMasks 0] else []) @
       [WrapperStep ?a]"
  have ie': "filter in_episode (calls s) = ?pre @ post" using ie by simp
  have p1: "length (filter is_step ?pre) = 4" "length (filter is_sample ?pre) = 4"
    "filter is_predict ?pre = []"
    by (simp_all add: numeral_3_eq_3)
  have ls: "length (filter is_step post) = steps - 4" using fs l by simp
  have n: "nrows df = 7 * (steps - 4)" using episode_entries_length[OF l7] l by (simp add: df)
  have s4: "4 \<le> steps" by (simp add: steps_def)
  have c1: "length (filter is_step (calls s)) = steps"
    using arg_cong[OF ie', of "\<lambda>l. length (filter is_step l)"] p1 ls s4
    unfolding filter_in_episode by simp
  have c2: "length (filter is_sample (calls s)) = 4"
    using arg_cong[OF ie', of "\<lambda>l. length (filter is_sample l)"] p1 fa
    unfolding filter_in_episode by simp
  have c3: "length (filter is_predict (calls s)) = steps - 4"
    using arg_cong[OF ie', of "\<lambda>l. length (filter is_predict l)"] p1 fp
    unfolding filter_in_episode by simp
  from n c1 c2 c3 ie' p1 fa ls fp show ?thesis by blast
qed

lemma pacman_files: "game_files ''pacman'' \<noteq> None"
  by (simp add: game_files_def)

lemma approach_known:
  "''occl'' \<in> set [''noise'', ''occl'', ''rise'', ''lime'', ''sarfa'']"
  "''rise'' \<in> set [''noise'', ''occl'', ''rise'', ''lime'', ''sarfa'']"
  by simp_all

section \<open>The number of steps and of rows\<close>

text \<open>
  C3 (as amended). In every run that completes, the loop makes 1001 passes: \<^verbatim>\<open>wrapper.step\<close>
  is called 1001 times. The first four passes are warm-up passes: an action is sampled in
  each, there is no prediction before the fourth call of \<^verbatim>\<open>wrapper.step\<close>, and no record is
  added. Each of the remaining 997 passes predicts once and adds seven records, so the table
  has \<open>7 \<times> 997 = 6979\<close> rows.
\<close>

theorem episode_rows:
  assumes "sanity_check x mt game approach file_name kw w = Inr (s, df)"
  shows "steps = 1001 \<and> nrows df = 7 * (steps - 4) \<and> nrows df = 6979 \<and>
     length (filter is_step (calls s)) = 1001 \<and> length (filter is_sample (calls s)) = 4 \<and>
     length (filter is_predict (calls s)) = 997 \<and>
     (\<exists>pre post. filter in_episode (calls s) = pre @ post \<and>
        length (filter is_step pre) = 4 \<and> length (filter is_sample pre) = 4 \<and>
        filter is_predict pre = [] \<and> filter is_sample post = [] \<and>
        length (filter is_step post) = 997 \<and> length (filter is_predict post) = 997)"
  using sanity_check_counts[OF assms] by (simp add: steps_def)

theorem episode_rows_witness:
  "\<exists>s df. sanity_check still_world flat_metrics ''pacman'' ''occl'' ''occl.csv'' () () = Inr (s, df) \<and>
     nrows df = 6979 \<and> length (filter is_step (calls s)) = 1001"
proof -
  from sanity_check_total[OF still_world_benign flat_metrics_total pacman_files approach_known(1)]
  obtain s df where
    sc: "sanity_check still_world flat_metrics ''pacman'' ''occl'' ''occl.csv'' () () = Inr (s, df)"
    by blast
  from episode_rows[OF sc] sc show ?thesis by blast
qed

text \<open>
  The claim has 7000 rows. A run with collaborators that never fail returns a table of 6979
  rows.
\<close>

theorem not_seven_thousand_rows:
  "\<exists>s df. sanity_check still_world flat_metrics ''pacman'' ''occl'' ''occl.csv'' () () = Inr (s, df) \<and>
     nrows df = 6979 \<and> nrows df \<noteq> 7000"
proof -
  from sanity_check_total[OF still_world_benign flat_metrics_total pacman_files approach_known(1)]
  obtain s df where
    sc: "sanity_check still_world flat_metrics ''pacman'' ''occl'' ''occl.csv'' () () = Inr (s, df)"
    by blast
  from sanity_check_counts[OF sc] have "nrows df = 6979" by (simp add: steps_def)
  with sc show ?thesis by auto
qed

section \<open>Seven records per step, one table per run\<close>






section \<open>The lengths of the five lists\<close>

lemma mid_state_balanced: "balanced mid_state"
  by (simp add: balanced_def mid_state_def)

lemma variant_block_balanced:
  assumes "variant_block x mt approach kw k og inp action s = Inr s'"
    and "buf og < length (heap s)" and "balanced s"
  shows "balanced s' \<and> length (model_list s') = length (model_list s) + 1"
proof -
  from variant_block_result[OF assms(1,2)] obtain sc where "adds s [(int k, sc, action)] s'"
    by blast
  from balanced_adds[OF assms(3) this] show ?thesis by simp
qed

lemma baseline_block_balanced:
  assumes "baseline_block mt e drawn label og action s = Inr s'"
    and "buf og < length (heap s)" and "balanced s"
  shows "balanced s' \<and> length (model_list s') = length (model_list s) + 1"
proof -
  from baseline_block_result[OF assms(1,2)] obtain sc where "adds s [(label, sc, action)] s'"
    by blast
  from balanced_adds[OF assms(3) this] show ?thesis by simp
qed

lemma loop_body_balanced:
  assumes lb: "loop_body x mt game approach kw i s = Inr s'" and fo: "frames_ok s"
    and b: "balanced s"
  shows "balanced s' \<and> length (model_list s') = length (model_list s) + (if i < 4 then 0 else 7)"
proof (cases "i < 4")
  case True
  from loop_body_warm[OF lb True] have "adds s [] s'" by simp
  from balanced_adds[OF b this] True show ?thesis by simp
next
  case False
  then have i: "4 \<le> i" by simp
  from loop_body_policy_summary[OF lb i fo] obtain action scs where
    l: "length scs = 7" and ad: "adds s (step_entries action scs) s'" by blast
  from balanced_adds[OF b ad] False show ?thesis by (simp add: step_entries_length[OF l])
qed

lemma run_rows:
  assumes sc: "sanity_check x mt game approach file_name kw w = Inr (t, df)"
  shows "balanced t \<and> nrows df = length (model_list t) \<and>
     (\<forall>i<nrows df. row df i ! 0 = CInt (int (i mod 7) + 1)) \<and>
     (\<forall>i j. i < nrows df \<and> j < nrows df \<and> i div 7 = j div 7 \<longrightarrow> row df i ! 4 = row df j ! 4)"
proof -
  from sanity_check_summary[OF sc] obtain sts where
    l7: "list_all (\<lambda>st. length (snd st) = 7) sts"
    and df: "df = table_of (episode_entries sts)"
    and ad: "adds (entry w) (episode_entries sts) t"
    by blast
  note bt = balanced_adds[OF balanced_entry ad]
  have n: "nrows df = length (episode_entries sts)" by (simp add: df)
  have n7: "length (episode_entries sts) = 7 * length sts" by (rule episode_entries_length[OF l7])
  have ml: "length (model_list t) = length (episode_entries sts)"
    using ad by (simp add: adds_def entry_def)
  have r0: "row df i ! 0 = CInt (int (i mod 7) + 1)" if "i < nrows df" for i
  proof -
    from that n have i: "i < length (episode_entries sts)" by simp
    with n7 have i7: "i < 7 * length sts" by simp
    show ?thesis
      by (simp add: df row_table_of[OF i] episode_entries_nth[OF l7 i7])
  qed
  have r4: "row df i ! 4 = CInt (fst (sts ! (i div 7)))" if "i < nrows df" for i
  proof -
    from that n have i: "i < length (episode_entries sts)" by simp
    with n7 have i7: "i < 7 * length sts" by simp
    show ?thesis
      by (simp add: df row_table_of[OF i] episode_entries_nth[OF l7 i7])
  qed
  from bt n ml r0 r4 show ?thesis by auto
qed

lemma mid_state_og:
  "buf \<lparr>buf = 0, shape = [1]\<rparr> < length (heap mid_state)"
  "vals (heap mid_state) \<lparr>buf = 0, shape = [1]\<rparr> \<noteq> []"
  by (simp_all add: mid_state_def vals_def)

text \<open>
  C10 (as amended). The five lists have one length before and after every comparator block
  (each block appends one element to each list), hence before and after every pass of the
  loop (a warm-up pass appends nothing, a policy-driven pass seven elements to each) and
  when the table is built. In the table, row \<open>i\<close> has \<^verbatim>\<open>rand_layer\<close> equal to
  \<open>(i mod 7) + 1\<close>, and two rows of the same step (\<open>i div 7 = j div 7\<close>) have the same
  \<^verbatim>\<open>action\<close>.
\<close>

theorem lists_balanced:
  "(variant_block x mt approach kw k og inp action s = Inr s' \<and> buf og < length (heap s) \<and>
      balanced s \<longrightarrow>
      balanced s' \<and> length (model_list s') = length (model_list s) + 1) \<and>
   (baseline_block mt e drawn label og action s = Inr s'' \<and> buf og < length (heap s) \<and>
      balanced s \<longrightarrow>
      balanced s'' \<and> length (model_list s'') = length (model_list s) + 1) \<and>
   (loop_body x mt game approach kw i u = Inr u' \<and> frames_ok u \<and> balanced u \<longrightarrow>
      balanced u' \<and> length (model_list u') = length (model_list u) + (if i < 4 then 0 else 7)) \<and>
   (sanity_check x mt game approach file_name kw w = Inr (t, df) \<longrightarrow>
      balanced t \<and> nrows df = length (model_list t) \<and>
      (\<forall>i<nrows df. row df i ! 0 = CInt (int (i mod 7) + 1)) \<and>
      (\<forall>i j. i < nrows df \<and> j < nrows df \<and> i div 7 = j div 7 \<longrightarrow>
         row df i ! 4 = row df j ! 4))"
  using variant_block_balanced[of x mt approach kw k og inp action s s']
    baseline_block_balanced[of mt e drawn label og action s s'']
    loop_body_balanced[of x mt game approach kw i u u']
    run_rows[of x mt game approach file_name kw w t df]
  by blast

theorem lists_balanced_witness:
  "(\<exists>s'. variant_block still_world flat_metrics ''occl'' () 1 \<lparr>buf = 0, shape = [1]\<rparr>
            \<lparr>buf = 0, shape = [1]\<rparr> 1 mid_state = Inr s' \<and>
      balanced s' \<and> length (model_list s') = 1) \<and>
   (\<exists>s''. baseline_block flat_metrics (RandUniform [84, 84]) ([0, 1], ()) 6
            \<lparr>buf = 0, shape = [1]\<rparr> 1 mid_state = Inr s'' \<and>
      balanced s'' \<and> length (model_list s'') = 1) \<and>
   (\<exists>u'. loop_body still_world flat_metrics ''pacman'' ''occl'' () 4 mid_state = Inr u' \<and>
      balanced u' \<and> length (model_list u') = 7) \<and>
   (\<exists>t df. sanity_check still_world flat_metrics ''pacman'' ''occl'' ''occl.csv'' () () = Inr (t, df) \<and>
      balanced t \<and> row df 0 ! 0 = CInt 1 \<and> row df 8 ! 0 = CInt 2 \<and> row df 7 ! 4 = row df 13 ! 4)"
proof -
  have k: "(1::nat) < 6" by simp
  from variant_block_total[OF still_world_benign flat_metrics_total mid_state_ready(1) k mid_state_og]
  obtain s' where vb: "variant_block still_world flat_metrics ''occl'' () 1 \<lparr>buf = 0, shape = [1]\<rparr>
            \<lparr>buf = 0, shape = [1]\<rparr> 1 mid_state = Inr s'" by blast
  have px: "fst ([0, 1 :: real], ()) \<noteq> []" by simp
  from baseline_block_total[OF flat_metrics_total mid_state_ready(1) mid_state_og px]
  obtain s'' where bb: "baseline_block flat_metrics (RandUniform [84, 84]) ([0, 1], ()) 6
            \<lparr>buf = 0, shape = [1]\<rparr> 1 mid_state = Inr s''" by blast
  from loop_body_total[OF still_world_benign flat_metrics_total mid_state_ready(1), of 4 "''pacman''" "()"]
    mid_state_frames
  obtain u' where lb: "loop_body still_world flat_metrics ''pacman'' ''occl'' () 4 mid_state = Inr u'"
    by blast
  from sanity_check_total[OF still_world_benign flat_metrics_total pacman_files approach_known(1)]
  obtain t df where
    sc: "sanity_check still_world flat_metrics ''pacman'' ''occl'' ''occl.csv'' () () = Inr (t, df)"
    by blast
  from sanity_check_counts[OF sc] have n: "nrows df = 6979" by (simp add: steps_def)
  note r = lists_balanced[of still_world flat_metrics "''occl''" "()" 1 "\<lparr>buf = 0, shape = [1]\<rparr>"
      "\<lparr>buf = 0, shape = [1]\<rparr>" 1 mid_state s' "RandUniform [84, 84]" "([0, 1], ())" 6 s''
      "''pacman''" 4 mid_state u' "''occl.csv''" "()" t df]
  have m0: "length (model_list mid_state) = 0" by (simp add: mid_state_def)
  from r vb mid_state_og(1) mid_state_balanced m0
  have a: "balanced s' \<and> length (model_list s') = 1" by simp
  from r bb mid_state_og(1) mid_state_balanced m0
  have b: "balanced s'' \<and> length (model_list s'') = 1" by simp
  from r lb mid_state_frames(1) mid_state_balanced m0
  have c: "balanced u' \<and> length (model_list u') = 7" by simp
  from r sc have d0: "balanced t" and d1: "\<forall>i<nrows df. row df i ! 0 = CInt (int (i mod 7) + 1)"
    and d2: "\<forall>i j. i < nrows df \<and> j < nrows df \<and> i div 7 = j div 7 \<longrightarrow>
         row df i ! 4 = row df j ! 4" by blast+
  from d1 n have e1: "row df 0 ! 0 = CInt 1" "row df 8 ! 0 = CInt 2" by simp_all
  from d2[rule_format, of 7 13] n have e2: "row df 7 ! 4 = row df 13 ! 4" by simp
  from d0 e1 e2 have d: "balanced t \<and> row df 0 ! 0 = CInt 1 \<and> row df 8 ! 0 = CInt 2 \<and>
      row df 7 ! 4 = row df 13 ! 4" by simp
  show ?thesis
    by (rule conjI, rule exI[of _ s'], rule conjI, rule vb, rule a,
        rule conjI, rule exI[of _ s''], rule conjI, rule bb, rule b,
        rule conjI, rule exI[of _ u'], rule conjI, rule lb, rule c,
        rule exI[of _ t], rule exI[of _ df], rule conjI, rule sc, rule d)
qed

text \<open>
  The claim has the lists of equal length at every point. Inside a comparator block, after
  \<^verbatim>\<open>calc_sim\<close> has returned and before \<^verbatim>\<open>action_list.append(action)\<close>, the three score lists
  have one element more than the other two.
\<close>

theorem lists_unequal_inside_comparator:
  "\<exists>r s1 s2. saliency_fn still_world ''occl'' () 1 \<lparr>buf = 0, shape = [1]\<rparr> (Some 1) mid_state = Inr (r, s1) \<and>
     calc_sim_call flat_metrics \<lparr>buf = 0, shape = [1]\<rparr> (squeeze r) s1 = Inr s2 \<and>
     balanced mid_state \<and> length (pearson_list s2) = 1 \<and> length (action_list s2) = 0 \<and>
     \<not> balanced s2"
proof -
  have k: "(1::nat) < 6" by simp
  from saliency_fn_total[OF still_world_benign mid_state_ready(1) k, of "()" "\<lparr>buf = 0, shape = [1]\<rparr>" "Some 1"]
  obtain r s1 where sf: "saliency_fn still_world ''occl'' () 1 \<lparr>buf = 0, shape = [1]\<rparr> (Some 1) mid_state = Inr (r, s1)"
    and nr: "vals (heap s1) r \<noteq> []" by blast
  note a = saliency_fn_result[OF sf]
  from a have f: "fixed mid_state s1" and ad: "adds mid_state [] s1" and vr: "buf r < length (heap s1)"
    and sq: "vals (heap s1) r = vals (heap s1) (squeeze r)" by simp_all
  have vo: "buf \<lparr>buf = 0, shape = [1]\<rparr> < length (heap s1)"
    using fixed_valid[OF f mid_state_og(1)] .
  have no: "vals (heap s1) \<lparr>buf = 0, shape = [1]\<rparr> \<noteq> []"
    using fixed_read[OF f mid_state_og(1)] mid_state_og(2) by (simp add: read_def)
  have vc: "buf (squeeze r) < length (heap s1)" using vr by (simp add: squeeze_def)
  have nc: "vals (heap s1) (squeeze r) \<noteq> []" using nr sq by simp
  from calc_sim_call_total[OF flat_metrics_total vo vc no nc]
  obtain s2 where cs: "calc_sim_call flat_metrics \<lparr>buf = 0, shape = [1]\<rparr> (squeeze r) s1 = Inr s2"
    by blast
  from calc_sim_call_result[OF cs vo vc, of 1 1] obtain sc where
    ad2: "adds s1 [(1, sc, 1)] (s2\<lparr>model_list := model_list s2 @ [1], action_list := action_list s2 @ [1]\<rparr>)"
    and al: "action_list s2 = action_list s1" "model_list s2 = model_list s1" by blast
  from ad ad2 have p: "length (pearson_list s2) = 1"
    by (simp add: adds_def mid_state_def)
  from ad al have q: "length (action_list s2) = 0"
    by (simp add: adds_def mid_state_def)
  from p q have nb: "\<not> balanced s2" by (auto simp: balanced_def)
  from sf cs mid_state_balanced p q nb show ?thesis by blast
qed

section \<open>The masks of RISE\<close>

lemma sharingD:
  assumes "sharing m s" and "k < 6"
  shows "rise_masks (analyzers s ! k) = Some m" "masks_generated (analyzers s ! k)"
    "buf m < length (heap s)" "6 \<le> length (analyzers s)"
  using assms by (auto simp: sharing_def list_all_length)

lemma sharingI:
  assumes "6 \<le> length (analyzers s)" and "buf m < length (heap s)"
    and "\<And>k. k < 6 \<Longrightarrow> rise_masks (analyzers s ! k) = Some m \<and> masks_generated (analyzers s ! k)"
  shows "sharing m s"
  using assms by (simp add: sharing_def list_all_length)

lemma sharing_settled: "sharing m s \<Longrightarrow> settled approach s"
  by (auto simp: sharing_def settled_def list_all_length)

lemma sharing_explains:
  assumes "sharing m s" and "k < 6"
  shows "explains x ''rise'' kw s k inp sel w =
         rise_saliency x kw (networks s ! amodel (analyzers s ! k)) (read (heap s) m) inp sel w"
  using sharingD(1)[OF assms] by (simp add: explains_def explained_def held_def)

lemma saliency_fn_fresh:
  assumes sf: "saliency_fn x ''rise'' kw k a sel s = Inr (r, s1)"
    and ng: "\<not> masks_generated (analyzers s ! k)" and kl: "k < length (analyzers s)"
  shows "\<exists>mk w2 t. generate_masks x kw (read (heap s) a) (world s) = Inr (mk, w2) \<and>
      rise_saliency x kw (networks s ! amodel (analyzers s ! k)) mk (read (heap s) a) sel w2 =
        Inr (t, world s1) \<and>
      heap s1 = heap s @ [snd mk, snd t] \<and>
      rise_masks (analyzers s1 ! k) = Some \<lparr>buf = length (heap s), shape = fst mk\<rparr>"
  using sf ng kl
  by (auto simp: saliency_fn_def Let_def generate_rise_prediction_def bindE_eq_Inr returned_def
      new_array_def alloc_def emit_def read_def vals_def split: option.splits)

lemma warm_up_rise_exact:
  assumes wu: "warm_up x game ''rise'' kw 3 s = Inr (action, s1)"
    and six: "6 \<le> length (analyzers s)" and ng: "\<not> masks_generated (analyzers s ! 0)"
  shows "\<exists>frames sampled w1 mk w2 t.
      stacked_frames s = Some frames \<and> sample x (world s) = Inr (sampled, w1) \<and>
      generate_masks x kw (read (heap s) frames) w1 = Inr (mk, w2) \<and>
      rise_saliency x kw (networks s ! amodel (analyzers s ! 0)) mk (read (heap s) frames) None w2 =
        Inr (t, world s1) \<and>
      heap s1 = heap s @ [snd mk, snd t] \<and>
      rise_masks (analyzers s1 ! 0) = Some \<lparr>buf = length (heap s), shape = fst mk\<rparr>"
proof -
  from wu obtain sampled w where sm: "sample x (world s) = Inr (sampled, w)"
    by (auto simp: warm_up_def bindE_eq_Inr)
  define sa where "sa = emit Sample (s\<lparr>world := w\<rparr>)"
  from wu sm have rw: "rise_warm_up x ''rise'' kw sa = Inr s1"
    by (auto simp: warm_up_def bindE_eq_Inr Let_def sa_def)
  have sa: "heap sa = heap s" "analyzers sa = analyzers s" "world sa = w"
    "stacked_frames sa = stacked_frames s" "networks sa = networks s"
    by (simp_all add: sa_def emit_def)
  from rw obtain frames og sb where fr: "stacked_frames sa = Some frames"
    and sf: "saliency_fn x ''rise'' kw 0 frames None sa = Inr (og, sb)"
    and s1: "s1 = share_masks 5 (share_masks 4 (share_masks 3 (share_masks 2 (share_masks 1 sb))))"
    by (auto simp: rise_warm_up_def bindE_eq_Inr split: option.splits)
  have ng': "\<not> masks_generated (analyzers sa ! 0)" using ng sa by simp
  have kl: "0 < length (analyzers sa)" using six unfolding sa by linarith
  from saliency_fn_fresh[OF sf ng' kl] obtain mk w2 t where
    gm: "generate_masks x kw (read (heap sa) frames) (world sa) = Inr (mk, w2)"
    and rs: "rise_saliency x kw (networks sa ! amodel (analyzers sa ! 0)) mk (read (heap sa) frames) None w2 =
        Inr (t, world sb)"
    and hp: "heap sb = heap sa @ [snd mk, snd t]"
    and rm: "rise_masks (analyzers sb ! 0) = Some \<lparr>buf = length (heap sa), shape = fst mk\<rparr>"
    by blast
  have lb: "length (analyzers sb) = length (analyzers sa)" using saliency_fn_result[OF sf] by simp
  from six sa lb have len': "6 \<le> length (analyzers sb)" by simp
  note sh = share_all[OF len', folded s1]
  have w1: "world s1 = world sb" by (simp add: s1 share_masks_def)
  from sh have z: "analyzers s1 ! 0 = analyzers sb ! 0" and h1: "heap s1 = heap sb" by simp_all
  from fr sm gm rs hp rm show ?thesis
    unfolding sa w1 z h1 by blast
qed

lemma loop_body_rise3_exact:
  assumes lb: "loop_body x mt game ''rise'' kw 3 s = Inr s'"
    and six: "6 \<le> length (analyzers s)" and ng: "\<not> masks_generated (analyzers s ! 0)"
  shows "\<exists>frames sampled w1 mk w2 t w3 fr m.
      stacked_frames s = Some frames \<and> sample x (world s) = Inr (sampled, w1) \<and>
      generate_masks x kw (read (heap s) frames) w1 = Inr (mk, w2) \<and>
      rise_saliency x kw (networks s ! amodel (analyzers s ! 0)) mk (read (heap s) frames) None w2 =
        Inr (t, w3) \<and>
      wrapper_step x (if game = ''breakout'' then 1 else 0) w3 = Inr (fr, world s') \<and>
      length (heap s) \<le> buf m \<and> sharing m s' \<and> read (heap s') m = mk \<and>
      map amodel (take 6 (analyzers s')) = map amodel (take 6 (analyzers s)) \<and>
      new_calls s s' = [Sample, Explain ''rise'' 0 (read (heap s) frames) None, GenerateMasks 0,
                        WrapperStep (if game = ''breakout'' then 1 else 0)]"
proof -
  let ?s0 = "s\<lparr>calls := calls s @ progress_prints x 3 s\<rparr>"
  have s0: "?s0 = s" by (simp add: progress_prints_def)
  from lb obtain action s1 where
    wu: "warm_up x game ''rise'' kw 3 s = Inr (action, s1)"
    and st: "bindE (wrapper_step x action (world s1)) (\<lambda>(t, w).
      case returned t (emit (WrapperStep action) (s1\<lparr>world := w\<rparr>)) of (frames, s2) \<Rightarrow>
      Inr (s2\<lparr>stacked_frames := Some frames\<rparr>)) = Inr s'"
    unfolding loop_body_unfold s0 by (auto simp: bindE_eq_Inr)
  note e = env_step_result[OF st]
  from env_step_exact[OF st] obtain fr where
    ws: "wrapper_step x action (world s1) = Inr (fr, world s')" by blast
  from warm_up_rise[OF wu] have act: "action = (if game = ''breakout'' then 1 else 0)" by simp
  from warm_up_rise_exact[OF wu six ng] obtain frames sampled w1 mk w2 t where
    fr: "stacked_frames s = Some frames" and sm: "sample x (world s) = Inr (sampled, w1)"
    and gm: "generate_masks x kw (read (heap s) frames) w1 = Inr (mk, w2)"
    and rs: "rise_saliency x kw (networks s ! amodel (analyzers s ! 0)) mk (read (heap s) frames) None w2 =
        Inr (t, world s1)"
    and hp: "heap s1 = heap s @ [snd mk, snd t]"
    by blast
  note r = loop_body_rise3[OF lb six ng]
  from r obtain sh where
    an: "\<forall>k<6. rise_masks (analyzers s' ! k) = Some \<lparr>buf = length (heap s), shape = sh\<rparr> \<and>
          masks_generated (analyzers s' ! k) \<and>
          amodel (analyzers s' ! k) = amodel (analyzers s ! k)" by blast
  define m where "m = \<lparr>buf = length (heap s), shape = sh\<rparr>"
  from warm_up_rise_exact[OF wu six ng] e have "rise_masks (analyzers s' ! 0) =
      Some \<lparr>buf = length (heap s), shape = fst mk\<rparr>"
    using gm fr sm by auto
  with an have shm: "sh = fst mk" by simp
  from e hp have p: "prefix (heap s @ [snd mk, snd t]) (heap s')" by simp
  then have vm: "buf m < length (heap s')" by (auto simp: prefix_def m_def)
  from p have "heap s' ! length (heap s) = snd mk" by (auto simp: prefix_def nth_append)
  then have rd: "read (heap s') m = mk" by (simp add: read_def vals_def m_def shm)
  have l6: "6 \<le> length (analyzers s')" using r six by simp
  have sg: "sharing m s'" using an by (intro sharingI l6 vm) (simp add: m_def)
  have am: "map amodel (take 6 (analyzers s')) = map amodel (take 6 (analyzers s))"
    using an l6 six by (intro nth_equalityI) simp_all
  from r fr have nc: "new_calls s s' = [Sample, Explain ''rise'' 0 (read (heap s) frames) None, GenerateMasks 0,
                        WrapperStep (if game = ''breakout'' then 1 else 0)]"
    by (auto simp: new_calls_def)
  have lm: "length (heap s) \<le> buf m" by (simp add: m_def)
  show ?thesis
    apply (rule exI[of _ frames], rule exI[of _ sampled], rule exI[of _ w1], rule exI[of _ mk],
        rule exI[of _ w2], rule exI[of _ t], rule exI[of _ "world s1"], rule exI[of _ fr],
        rule exI[of _ m])
    by (intro conjI fr sm gm rs ws[unfolded act] lm sg rd am nc)
qed

lemma policy_step_sharing:
  assumes lb: "loop_body x mt game ''rise'' kw i s = Inr s'" and i: "4 \<le> i"
    and fo: "frames_ok s" and sg: "sharing m s"
  shows "\<exists>frames action t0 t1 t2 t3 t4 t5 w1 w2 w3 w4 w5 w6.
      stacked_frames s = Some frames \<and>
      rise_saliency x kw (networks s ! amodel (analyzers s ! 0)) (read (heap s) m)
        (squeezed (read (heap s) frames)) (Some action) (world s) = Inr (t0, w1) \<and>
      rise_saliency x kw (networks s ! amodel (analyzers s ! 1)) (read (heap s) m)
        (squeezed (read (heap s) frames)) (Some action) w1 = Inr (t1, w2) \<and>
      rise_saliency x kw (networks s ! amodel (analyzers s ! 2)) (read (heap s) m)
        (squeezed (read (heap s) frames)) (Some action) w2 = Inr (t2, w3) \<and>
      rise_saliency x kw (networks s ! amodel (analyzers s ! 3)) (read (heap s) m)
        (squeezed (read (heap s) frames)) (Some action) w3 = Inr (t3, w4) \<and>
      rise_saliency x kw (networks s ! amodel (analyzers s ! 4)) (read (heap s) m)
        (squeezed (read (heap s) frames)) (Some action) w4 = Inr (t4, w5) \<and>
      rise_saliency x kw (networks s ! amodel (analyzers s ! 5)) (read (heap s) m)
        (squeezed (read (heap s) frames)) (Some action) w5 = Inr (t5, w6) \<and>
      analyzers s' = analyzers s \<and> sharing m s' \<and> read (heap s') m = read (heap s) m \<and>
      frames_ok s' \<and> filter is_generate (new_calls s s') = []"
proof -
  note st = sharing_settled[OF sg, of "''rise''"]
  from loop_body_exact[OF lb i fo st] obtain frames out action t0 t1 t2 t3 t4 t5 w1 w2 w3 w4 w5 w6 u wu g wg
            sc1 sc2 sc3 sc4 sc5 sc6 sc7 fr f where
    sf: "stacked_frames s = Some frames"
    and e0: "explains x ''rise'' kw s 0 (squeezed (read (heap s) frames)) (Some action) (world s) = Inr (t0, w1)"
    and e1: "explains x ''rise'' kw s 1 (squeezed (read (heap s) frames)) (Some action) w1 = Inr (t1, w2)"
    and e2: "explains x ''rise'' kw s 2 (squeezed (read (heap s) frames)) (Some action) w2 = Inr (t2, w3)"
    and e3: "explains x ''rise'' kw s 3 (squeezed (read (heap s) frames)) (Some action) w3 = Inr (t3, w4)"
    and e4: "explains x ''rise'' kw s 4 (squeezed (read (heap s) frames)) (Some action) w4 = Inr (t4, w5)"
    and e5: "explains x ''rise'' kw s 5 (squeezed (read (heap s) frames)) (Some action) w5 = Inr (t5, w6)"
    and nc: "new_calls s s' =
        progress_prints x i s @ step_calls ''rise'' (model s) (read (heap s) frames) action @
        [WrapperStep action]"
    and an: "analyzers s' = analyzers s" and hp: "prefix (heap s) (heap s')"
    by (elim exE conjE) (rule that; assumption)
  have k: "(0::nat) < 6" "(1::nat) < 6" "(2::nat) < 6" "(3::nat) < 6" "(4::nat) < 6" "(5::nat) < 6"
    by simp_all
  note e0' = e0[unfolded sharing_explains[OF sg k(1)]]
  note e1' = e1[unfolded sharing_explains[OF sg k(2)]]
  note e2' = e2[unfolded sharing_explains[OF sg k(3)]]
  note e3' = e3[unfolded sharing_explains[OF sg k(4)]]
  note e4' = e4[unfolded sharing_explains[OF sg k(5)]]
  note e5' = e5[unfolded sharing_explains[OF sg k(6)]]
  have vm: "buf m < length (heap s)" using sharingD(3)[OF sg k(1)] .
  from hp vm have vm': "buf m < length (heap s')" by (auto simp: prefix_def)
  have rd: "read (heap s') m = read (heap s) m"
    using prefix_vals[OF hp vm] by (simp add: read_def)
  have sg': "sharing m s'"
    using sg vm' by (simp add: sharing_def an)
  have fo': "frames_ok s'" using loop_body_frames[OF lb] by simp
  have fg: "filter is_generate (new_calls s s') = []"
    by (simp add: nc step_calls_def progress_prints_def)
  show ?thesis
    apply (rule exI[of _ frames], rule exI[of _ action],
        rule exI[of _ t0], rule exI[of _ t1], rule exI[of _ t2], rule exI[of _ t3],
        rule exI[of _ t4], rule exI[of _ t5], rule exI[of _ w1], rule exI[of _ w2],
        rule exI[of _ w3], rule exI[of _ w4], rule exI[of _ w5], rule exI[of _ w6])
    by (intro conjI sf e0' e1' e2' e3' e4' e5' an sg' rd fo' fg)
qed

lemma rise_run:
  assumes sc: "sanity_check x mt game ''rise'' file_name kw w = Inr (t, df)"
  shows "\<exists>frames post m.
      filter in_episode (calls t) =
        concat (replicate 3 [Sample, WrapperStep (if game = ''breakout'' then 1 else 0)]) @
        [Sample, Explain ''rise'' 0 frames None, GenerateMasks 0,
         WrapperStep (if game = ''breakout'' then 1 else 0)] @ post \<and>
      filter is_generate post = [] \<and> length (filter is_predict post) = steps - 4 \<and>
      filter is_generate (calls t) = [GenerateMasks 0] \<and>
      (\<forall>k<6. rise_masks (analyzers t ! k) = Some m \<and> masks_generated (analyzers t ! k)) \<and>
      map amodel (analyzers t) = [0, 1, 2, 3, 4, 5] \<and> model t = 0"
proof -
  let ?a = "if game = ''breakout'' then 1 else 0 :: int"
  from sanity_check_summary[OF sc] obtain frames post where
    ie: "filter in_episode (calls t) =
       concat (replicate 3 [Sample, WrapperStep ?a]) @ [Sample] @
       (if ''rise'' = ''rise'' then [Explain ''rise'' 0 frames None, GenerateMasks 0] else []) @
       [WrapperStep ?a] @ post"
    and fp: "length (filter is_predict post) = steps - 4"
    and fg: "filter is_generate post = []"
    and md: "model t = 0" and am: "map amodel (analyzers t) = [0, 1, 2, 3, 4, 5]"
    and an0: "if ''rise'' = ''rise''
      then \<exists>m. \<forall>k<6. rise_masks (analyzers t ! k) = Some m \<and> masks_generated (analyzers t ! k)
      else analyzers t = map explainer [0, 1, 2, 3, 4, 5]"
    by (elim exE conjE) (rule that; assumption)
  from an0 obtain m where
    an: "\<forall>k<6. rise_masks (analyzers t ! k) = Some m \<and> masks_generated (analyzers t ! k)"
    by auto
  have ie': "filter in_episode (calls t) =
        concat (replicate 3 [Sample, WrapperStep ?a]) @
        [Sample, Explain ''rise'' 0 frames None, GenerateMasks 0, WrapperStep ?a] @ post"
    using ie by simp
  have "filter is_generate (filter in_episode (calls t)) = [GenerateMasks 0]"
    unfolding ie' using fg by (simp add: numeral_3_eq_3)
  then have g1: "filter is_generate (calls t) = [GenerateMasks 0]"
    unfolding filter_in_episode .
  show ?thesis
    apply (rule exI[of _ frames], rule exI[of _ post], rule exI[of _ m])
    by (intro conjI ie' fg fp g1 an am md)
qed

lemma mid_state_fresh:
  "6 \<le> length (analyzers mid_state)" "\<not> masks_generated (analyzers mid_state ! 0)"
  by (simp_all add: mid_state_def explainer_def)

section \<open>Masks are drawn once and shared\<close>

text \<open>
  C5. With the approach RISE, in the pass with \<open>_ = 3\<close>, from six analyzers of which the
  original has no masks yet: after the action is sampled, the masks are drawn once, for the
  current frames; the original analyzer explains the frames with them; then the environment
  is advanced. In the state this pass leaves, all six analyzers hold one and the same array,
  new in this pass and holding the masks drawn, and all have their flag set. In a later
  policy-driven pass from a state in which the six analyzers hold one array \<open>m\<close>, each of the
  six explanations is the call of \<^verbatim>\<open>rise_saliency\<close> with the pixels of \<open>m\<close>, in the world the
  previous call left (so no masks are drawn in between), and the pass leaves the analyzers
  and the pixels of \<open>m\<close> as they were. In a run that completes, masks are drawn exactly once,
  by the original analyzer, after three calls of \<^verbatim>\<open>wrapper.step\<close> and before the first
  prediction, and at the end the six analyzers hold one array.
\<close>

theorem rise_masks_shared:
  "(loop_body x mt game ''rise'' kw 3 s = Inr s' \<and> 6 \<le> length (analyzers s) \<and>
      \<not> masks_generated (analyzers s ! 0) \<longrightarrow>
      (\<exists>frames sampled w1 mk w2 t w3 fr m.
      stacked_frames s = Some frames \<and> sample x (world s) = Inr (sampled, w1) \<and>
      generate_masks x kw (read (heap s) frames) w1 = Inr (mk, w2) \<and>
      rise_saliency x kw (networks s ! amodel (analyzers s ! 0)) mk (read (heap s) frames) None w2 =
        Inr (t, w3) \<and>
      wrapper_step x (if game = ''breakout'' then 1 else 0) w3 = Inr (fr, world s') \<and>
      length (heap s) \<le> buf m \<and> sharing m s' \<and> read (heap s') m = mk \<and>
      map amodel (take 6 (analyzers s')) = map amodel (take 6 (analyzers s)) \<and>
      new_calls s s' = [Sample, Explain ''rise'' 0 (read (heap s) frames) None, GenerateMasks 0,
                        WrapperStep (if game = ''breakout'' then 1 else 0)])) \<and>
   (loop_body x mt game ''rise'' kw i u = Inr u' \<and> 4 \<le> i \<and> frames_ok u \<and> sharing m u \<longrightarrow>
      (\<exists>frames action t0 t1 t2 t3 t4 t5 w1 w2 w3 w4 w5 w6.
      stacked_frames u = Some frames \<and>
      rise_saliency x kw (networks u ! amodel (analyzers u ! 0)) (read (heap u) m)
        (squeezed (read (heap u) frames)) (Some action) (world u) = Inr (t0, w1) \<and>
      rise_saliency x kw (networks u ! amodel (analyzers u ! 1)) (read (heap u) m)
        (squeezed (read (heap u) frames)) (Some action) w1 = Inr (t1, w2) \<and>
      rise_saliency x kw (networks u ! amodel (analyzers u ! 2)) (read (heap u) m)
        (squeezed (read (heap u) frames)) (Some action) w2 = Inr (t2, w3) \<and>
      rise_saliency x kw (networks u ! amodel (analyzers u ! 3)) (read (heap u) m)
        (squeezed (read (heap u) frames)) (Some action) w3 = Inr (t3, w4) \<and>
      rise_saliency x kw (networks u ! amodel (analyzers u ! 4)) (read (heap u) m)
        (squeezed (read (heap u) frames)) (Some action) w4 = Inr (t4, w5) \<and>
      rise_saliency x kw (networks u ! amodel (analyzers u ! 5)) (read (heap u) m)
        (squeezed (read (heap u) frames)) (Some action) w5 = Inr (t5, w6) \<and>
      analyzers u' = analyzers u \<and> sharing m u' \<and> read (heap u') m = read (heap u) m \<and>
      frames_ok u' \<and> filter is_generate (new_calls u u') = [])) \<and>
   (sanity_check x mt game ''rise'' file_name kw w = Inr (t, df) \<longrightarrow>
      (\<exists>frames post m.
      filter in_episode (calls t) =
        concat (replicate 3 [Sample, WrapperStep (if game = ''breakout'' then 1 else 0)]) @
        [Sample, Explain ''rise'' 0 frames None, GenerateMasks 0,
         WrapperStep (if game = ''breakout'' then 1 else 0)] @ post \<and>
      filter is_generate post = [] \<and> length (filter is_predict post) = steps - 4 \<and>
      filter is_generate (calls t) = [GenerateMasks 0] \<and>
      (\<forall>k<6. rise_masks (analyzers t ! k) = Some m \<and> masks_generated (analyzers t ! k)) \<and>
      map amodel (analyzers t) = [0, 1, 2, 3, 4, 5] \<and> model t = 0))"
proof -
  note a = loop_body_rise3_exact[of x mt game kw s s']
  note b = policy_step_sharing[of x mt game kw i u u' m]
  note c = rise_run[of x mt game file_name kw w t df]
  show ?thesis
    apply (intro conjI impI)
    subgoal by (rule a) simp_all
    subgoal by (rule b) simp_all
    subgoal by (rule c) simp
    done
qed

theorem rise_masks_shared_witness:
  "\<exists>s1 s2 m t df.
     loop_body still_world flat_metrics ''pacman'' ''rise'' () 3 mid_state = Inr s1 \<and>
     sharing m s1 \<and> read (heap s1) m = ([1], [1]) \<and>
     loop_body still_world flat_metrics ''pacman'' ''rise'' () 4 s1 = Inr s2 \<and>
     sharing m s2 \<and> analyzers s2 = analyzers s1 \<and>
     sanity_check still_world flat_metrics ''pacman'' ''rise'' ''rise.csv'' () () = Inr (t, df) \<and>
     filter is_generate (calls t) = [GenerateMasks 0]"
proof -
  from loop_body_total[OF still_world_benign flat_metrics_total mid_state_ready(2), of 3 "''pacman''" "()"]
    mid_state_frames
  obtain s1 where l1: "loop_body still_world flat_metrics ''pacman'' ''rise'' () 3 mid_state = Inr s1"
    and rd1: "ready ''rise'' s1" by blast
  note f1 = loop_body_frames[OF l1]
  from loop_body_total[OF still_world_benign flat_metrics_total rd1, of 4 "''pacman''" "()"] f1
  obtain s2 where l2: "loop_body still_world flat_metrics ''pacman'' ''rise'' () 4 s1 = Inr s2"
    by blast
  from sanity_check_total[OF still_world_benign flat_metrics_total pacman_files approach_known(2)]
  obtain t df where
    sc: "sanity_check still_world flat_metrics ''pacman'' ''rise'' ''rise.csv'' () () = Inr (t, df)"
    by blast
  have i: "(4::nat) \<le> 4" by simp
  note r = rise_masks_shared[where x = still_world and mt = flat_metrics and game = "''pacman''"
      and kw = "()" and s = mid_state and s' = s1 and i = 4 and u = s1 and u' = s2
      and file_name = "''rise.csv''" and w = "()" and t = t and df = df]
  from r[THEN conjunct1] l1 mid_state_fresh obtain m where
    sg: "sharing m s1" and rm: "read (heap s1) m = ([1], [1])"
    by (auto simp: still_world_def)
  from r[where m = m, THEN conjunct2, THEN conjunct1] l2 i f1 sg
  have p2: "sharing m s2 \<and> analyzers s2 = analyzers s1" by blast
  from r[THEN conjunct2, THEN conjunct2] sc
  have p3: "filter is_generate (calls t) = [GenerateMasks 0]" by blast
  show ?thesis
    apply (rule exI[of _ s1], rule exI[of _ s2], rule exI[of _ m], rule exI[of _ t], rule exI[of _ df])
    using l1 sg rm l2 p2 sc p3 by simp
qed

end
